(* ===== verification/Prelude.thy ===== *)
theory Prelude
  imports Main "HOL-Library.Word"
begin

unbundle bit_operations_syntax

text \<open>
  Shared vocabulary of the development: the fixed-width integer types of
  \<^verbatim>\<open>include/efe/types.hpp\<close>, the C++ exceptions as values of a sum type, indexed access to
  spans and vectors with the out-of-range case written out, and the generic lemmas on results,
  lists and big-endian words that the component theories share.
\<close>

section \<open>Fixed-width integers\<close>

type_synonym u8 = "8 word"
type_synonym u16 = "16 word"
type_synonym u32 = "32 word"
type_synonym u64 = "64 word"

text \<open>
  A C++ \<open>char\<close> is kept as its bit pattern, an \<open>8 word\<close>; \<open>ch\<close> reads a character literal.
\<close>

abbreviation ch :: "char \<Rightarrow> u8" where
  "ch c \<equiv> of_char c"

text \<open>\<open>std::numeric_limits<T>::max()\<close> of the unsigned types.\<close>

abbreviation max_u32 :: u32 where
  "max_u32 \<equiv> - 1"

abbreviation max_u64 :: u64 where
  "max_u64 \<equiv> - 1"

lemma unat_max_u32 [simp]: "unat max_u32 = 4294967295"
  by (simp add: unsigned_minus_1_eq_mask mask_eq_exp_minus_1)

lemma unat_max_u64 [simp]: "unat max_u64 = 18446744073709551615"
  by (simp add: unsigned_minus_1_eq_mask mask_eq_exp_minus_1)

section \<open>Exceptions as values\<close>

text \<open>
  The exceptions the sources throw, with the text they carry. \<open>Undefined\<close> is not an exception:
  it marks an execution that has undefined behaviour in C++ (an index outside a span or vector,
  a dereferenced end iterator, an erased iterator), so that its absence is a theorem rather than
  an assumption of the model.
\<close>

datatype exn =
    DecodeError string
  | RuntimeError string
  | InvalidArgument string
  | OverflowError string
  | OutOfRange string
  | BadAlloc
  | Undefined string

type_synonym 'a res = "exn + 'a"

fun rbind :: "'a res \<Rightarrow> ('a \<Rightarrow> 'b res) \<Rightarrow> 'b res" where
  "rbind (Inl e) f = Inl e"
| "rbind (Inr x) f = f x"

fun is_undefined :: "exn \<Rightarrow> bool" where
  "is_undefined (Undefined _) = True"
| "is_undefined _ = False"

definition defined :: "'a res \<Rightarrow> bool" where
  "defined r = (case r of Inl e \<Rightarrow> \<not> is_undefined e | Inr _ \<Rightarrow> True)"

definition decode_outcome :: "'a res \<Rightarrow> bool" where
  "decode_outcome r = (case r of Inl (DecodeError _) \<Rightarrow> True | Inl _ \<Rightarrow> False | Inr _ \<Rightarrow> True)"

named_theorems res_simps \<open>evaluation and inversion of results\<close>

lemma rbind_cong [fundef_cong]:
  "m = m' \<Longrightarrow> (\<And>x. m' = Inr x \<Longrightarrow> f x = f' x) \<Longrightarrow> rbind m f = rbind m' f'"
  by (cases m') auto

lemma rbind_Inr_iff [res_simps]: "rbind m f = Inr y \<longleftrightarrow> (\<exists>x. m = Inr x \<and> f x = Inr y)"
  by (cases m) auto

lemma rbind_Inl_iff [res_simps]:
  "rbind m f = Inl e \<longleftrightarrow> m = Inl e \<or> (\<exists>x. m = Inr x \<and> f x = Inl e)"
  by (cases m) auto

lemma rbind_assoc: "rbind (rbind m f) g = rbind m (\<lambda>x. rbind (f x) g)"
  by (cases m) auto

lemma rbind_Inr_right [simp]: "rbind m Inr = m"
  by (cases m) auto

lemma defined_simps [simp]:
  "defined (Inr x)"
  "defined (Inl e) \<longleftrightarrow> \<not> is_undefined e"
  by (simp_all add: defined_def)

lemma decode_outcome_simps [simp]:
  "decode_outcome (Inr x)"
  "decode_outcome (Inl (DecodeError s))"
  "\<not> decode_outcome (Inl (RuntimeError s))"
  "\<not> decode_outcome (Inl (InvalidArgument s))"
  "\<not> decode_outcome (Inl (OverflowError s))"
  "\<not> decode_outcome (Inl (OutOfRange s))"
  "\<not> decode_outcome (Inl BadAlloc)"
  "\<not> decode_outcome (Inl (Undefined s))"
  by (simp_all add: decode_outcome_def)

lemma decode_outcome_rbind:
  "decode_outcome m \<Longrightarrow> (\<And>x. m = Inr x \<Longrightarrow> decode_outcome (f x)) \<Longrightarrow> decode_outcome (rbind m f)"
  by (cases m) (auto simp: decode_outcome_def split: exn.splits)

lemma decode_outcome_defined: "decode_outcome r \<Longrightarrow> defined r"
  by (auto simp: decode_outcome_def defined_def split: sum.splits exn.splits)

section \<open>Indexed access\<close>

text \<open>
  \<open>operator[]\<close> of a span or a vector: outside the range it is undefined behaviour.
\<close>

definition span_at :: "'a list \<Rightarrow> nat \<Rightarrow> 'a res" where
  "span_at xs i = (if i < length xs then Inr (xs ! i) else Inl (Undefined ''index out of range''))"

definition span_set :: "'a list \<Rightarrow> nat \<Rightarrow> 'a \<Rightarrow> 'a list res" where
  "span_set xs i v = (if i < length xs then Inr (xs[i := v]) else Inl (Undefined ''index out of range''))"

text \<open>A sub-span of \<open>len\<close> bytes from \<open>off\<close>.\<close>

definition subspan :: "'a list \<Rightarrow> nat \<Rightarrow> nat \<Rightarrow> 'a list" where
  "subspan xs off len = take len (drop off xs)"

text \<open>Reading a range through pointers: undefined behaviour unless it lies inside.\<close>

definition span_range :: "'a list \<Rightarrow> nat \<Rightarrow> nat \<Rightarrow> 'a list res" where
  "span_range xs off len =
     (if off + len \<le> length xs then Inr (subspan xs off len) else Inl (Undefined ''range outside a span''))"

lemma span_range_ok [simp]: "off + len \<le> length xs \<Longrightarrow> span_range xs off len = Inr (subspan xs off len)"
  by (simp add: span_range_def)

lemma span_at_in [simp]: "i < length xs \<Longrightarrow> span_at xs i = Inr (xs ! i)"
  by (simp add: span_at_def)

lemma span_at_Inr_iff [res_simps]: "span_at xs i = Inr v \<longleftrightarrow> i < length xs \<and> v = xs ! i"
  by (auto simp: span_at_def)

lemma span_set_in [simp]: "i < length xs \<Longrightarrow> span_set xs i v = Inr (xs[i := v])"
  by (simp add: span_set_def)

lemma length_subspan [simp]: "off + len \<le> length xs \<Longrightarrow> length (subspan xs off len) = len"
  by (simp add: subspan_def)

lemma subspan_0 [simp]: "subspan xs off 0 = []"
  by (simp add: subspan_def)

lemma subspan_Suc:
  "off < length xs \<Longrightarrow> subspan xs off (Suc n) = xs ! off # subspan xs (Suc off) n"
  by (simp add: subspan_def Cons_nth_drop_Suc [symmetric])

lemma subspan_append_left:
  "off + len \<le> length xs \<Longrightarrow> subspan (xs @ ys) off len = subspan xs off len"
  by (simp add: subspan_def)

lemma subspan_append_right:
  "length xs \<le> off \<Longrightarrow> subspan (xs @ ys) off len = subspan ys (off - length xs) len"
  by (simp add: subspan_def)

lemma subspan_append_exact [simp]:
  "subspan (xs @ ys @ zs) (length xs) (length ys) = ys"
  by (simp add: subspan_def)

section \<open>Big-endian words\<close>

text \<open>
  \<open>be_word\<close> is the accumulation \<open>value = (value << 8) | byte\<close> over a run of bytes, \<open>be_bytes\<close>
  the bytes of a word from the most significant one; \<open>be_nat\<close> is the number a run of bytes
  denotes.
\<close>

definition be_step :: "'a::len word \<Rightarrow> u8 \<Rightarrow> 'a word" where
  "be_step v b = push_bit 8 v OR ucast b"

definition be_word :: "u8 list \<Rightarrow> 'a::len word" where
  "be_word bs = foldl be_step 0 bs"

definition be_nat :: "u8 list \<Rightarrow> nat" where
  "be_nat bs = foldl (\<lambda>a b. a * 256 + unat b) 0 bs"

definition be_bytes :: "nat \<Rightarrow> 'a::len word \<Rightarrow> u8 list" where
  "be_bytes n v = map (\<lambda>i. ucast (drop_bit (8 * i) v)) (rev [0..<n])"

lemma be_nat_snoc [simp]: "be_nat (bs @ [b]) = be_nat bs * 256 + unat b"
  by (simp add: be_nat_def)

lemma be_nat_Nil [simp]: "be_nat [] = 0"
  by (simp add: be_nat_def)

lemma be_word_snoc [simp]: "be_word (bs @ [b]) = be_step (be_word bs) b"
  by (simp add: be_word_def)

lemma be_word_Nil [simp]: "be_word [] = 0"
  by (simp add: be_word_def)

lemma unat_u8_less [simp]: "unat (b :: u8) < 256"
  using unsigned_less [of b] by simp

lemma unat_u16_less: "unat (w :: u16) < 65536"
  using unsigned_less [of w] by simp

lemma unat_u32_less: "unat (w :: u32) < 4294967296"
  using unsigned_less [of w] by simp

lemma unat_u64_less: "unat (w :: u64) < 18446744073709551616"
  using unsigned_less [of w] by simp

lemma be_nat_Cons: "be_nat (b # bs) = unat b * 256 ^ length bs + be_nat bs"
  by (induction bs rule: rev_induct)
    (simp_all add: be_nat_def distrib_right mult.assoc mult.commute)

lemma be_nat_bound: "be_nat bs < 256 ^ length bs"
proof (induction bs)
  case Nil
  then show ?case by simp
next
  case (Cons b bs)
  have "(unat b + 1) * 256 ^ length bs \<le> 256 * 256 ^ length bs"
    using unat_u8_less [of b] by (intro mult_le_mono1) linarith
  then have "unat b * 256 ^ length bs + 256 ^ length bs \<le> 256 ^ length (b # bs)"
    by (simp add: distrib_right)
  with Cons show ?case unfolding be_nat_Cons by linarith
qed

lemma unat_be_step:
  fixes v :: "'a::len word"
  assumes "unat v * 256 + unat b < 2 ^ LENGTH('a)" and "8 \<le> LENGTH('a)"
  shows "unat (be_step v b) = unat v * 256 + unat b"
proof -
  have "push_bit 8 v AND ucast b = (0 :: 'a word)"
    by (rule bit_word_eqI) (auto simp: bit_simps dest: bit_imp_le_length)
  then have "be_step v b = push_bit 8 v + ucast b"
    unfolding be_step_def by (simp add: disjunctive_add_eq_or)
  moreover have "unat (push_bit 8 v) = unat v * 256"
    unfolding unsigned_push_bit_eq
    using assms(1) by (simp add: push_bit_eq_mult take_bit_nat_eq_self_iff)
  moreover have "unat (ucast b :: 'a word) = unat b"
    using assms(2) by (simp add: unsigned_ucast_eq take_bit_nat_eq_self_iff
        order.strict_trans2 [OF unsigned_less power_increasing])
  ultimately show ?thesis
    using assms(1) by (simp add: unat_word_ariths)
qed

lemma unat_be_word:
  assumes "8 * length bs \<le> LENGTH('a::len)"
  shows "unat (be_word bs :: 'a word) = be_nat bs"
  using assms
proof (induction bs rule: rev_induct)
  case Nil
  then show ?case by simp
next
  case (snoc b bs)
  then have IH: "unat (be_word bs :: 'a word) = be_nat bs" by simp
  have "be_nat (bs @ [b]) < 256 ^ length (bs @ [b])" by (rule be_nat_bound)
  also have "(256 :: nat) ^ length (bs @ [b]) = 2 ^ (8 * length (bs @ [b]))"
    by (simp only: power_mult) simp
  also have "\<dots> \<le> 2 ^ LENGTH('a)" using snoc.prems by (intro power_increasing) simp_all
  finally show ?case
    using snoc.prems by (simp add: unat_be_step IH)
qed

lemma be_bytes_Suc: "be_bytes (Suc n) v = ucast (drop_bit (8 * n) v) # be_bytes n v"
  by (simp add: be_bytes_def)

lemma be_bytes_0 [simp]: "be_bytes 0 v = []"
  by (simp add: be_bytes_def)

lemma length_be_bytes [simp]: "length (be_bytes n v) = n"
  by (simp add: be_bytes_def)

lemma be_nat_be_bytes: "be_nat (be_bytes n v) = unat v mod 256 ^ n"
proof (induction n)
  case 0
  then show ?case by simp
next
  case (Suc n)
  have p: "(2 :: nat) ^ (8 * n) = 256 ^ n" by (simp only: power_mult) simp
  have "unat (ucast (drop_bit (8 * n) v) :: u8) = unat v div 256 ^ n mod 256"
    unfolding unsigned_ucast_eq unat_drop_bit_eq
    by (simp add: take_bit_eq_mod drop_bit_eq_div p)
  then have "be_nat (be_bytes (Suc n) v) = unat v div 256 ^ n mod 256 * 256 ^ n + unat v mod 256 ^ n"
    by (simp add: be_bytes_Suc be_nat_Cons Suc)
  also have "\<dots> = unat v mod (256 ^ n * 256)"
    unfolding mod_mult2_eq by (simp add: mult.commute)
  finally show ?case by (simp add: mult.commute)
qed

theorem be_word_be_bytes:
  fixes v :: "'a::len word"
  assumes "8 * n \<le> LENGTH('a)"
  shows "be_word (be_bytes n v) = take_bit (8 * n) v"
proof (rule word_eq_iff_unsigned [THEN iffD2])
  have p: "(2 :: nat) ^ (8 * n) = 256 ^ n" by (simp only: power_mult) simp
  show "unat (be_word (be_bytes n v) :: 'a word) = unat (take_bit (8 * n) v)"
    using assms by (simp add: unat_be_word be_nat_be_bytes unsigned_take_bit_eq)
      (simp add: take_bit_eq_mod p)
qed

lemma be_word_be_bytes_full [simp]:
  fixes v :: "'a::len word"
  assumes "8 * n = LENGTH('a)"
  shows "be_word (be_bytes n v) = v"
  using assms be_word_be_bytes [of n v] by (simp add: take_bit_word_eq_self)

lemma be_nat_inj: "length bs = length cs \<Longrightarrow> be_nat bs = be_nat cs \<Longrightarrow> bs = cs"
proof (induction bs cs rule: list_induct2)
  case Nil
  then show ?case by simp
next
  case (Cons b bs c cs)
  have eq: "unat b * 256 ^ length bs + be_nat bs = unat c * 256 ^ length bs + be_nat cs"
    using Cons.prems Cons.hyps by (simp add: be_nat_Cons)
  have lt: "be_nat bs < 256 ^ length bs" "be_nat cs < 256 ^ length bs"
    using be_nat_bound [of bs] be_nat_bound [of cs] Cons.hyps by simp_all
  have "unat b = (unat b * 256 ^ length bs + be_nat bs) div 256 ^ length bs"
    using lt by simp
  also have "\<dots> = unat c" using lt by (simp add: eq)
  finally have "b = c" by (rule word_eq_iff_unsigned [THEN iffD2])
  with eq have "be_nat bs = be_nat cs" by simp
  with Cons.IH \<open>b = c\<close> show ?case by simp
qed

lemma be_bytes_be_word:
  assumes "length bs = n" and "8 * n \<le> LENGTH('a::len)"
  shows "be_bytes n (be_word bs :: 'a word) = bs"
proof (rule be_nat_inj)
  show "length (be_bytes n (be_word bs :: 'a word)) = length bs"
    using assms(1) by simp
  show "be_nat (be_bytes n (be_word bs :: 'a word)) = be_nat bs"
    using assms be_nat_bound [of bs] by (simp add: be_nat_be_bytes unat_be_word)
qed

section \<open>Runs and their simulation\<close>

text \<open>
  A component that answers requests one at a time, and the pure specification it implements.
  The contract is one step; the locale lifts it to every sequence of requests.
\<close>

fun run_res :: "('c \<Rightarrow> 'e \<Rightarrow> ('r \<times> 'c) res) \<Rightarrow> 'c \<Rightarrow> 'e list \<Rightarrow> ('r list \<times> 'c) res" where
  "run_res step c [] = Inr ([], c)"
| "run_res step c (x # xs) =
     rbind (step c x) (\<lambda>(r, c').
     rbind (run_res step c' xs) (\<lambda>(rs, c''). Inr (r # rs, c'')))"

fun run_spec :: "('a \<Rightarrow> 'e \<Rightarrow> 'r \<times> 'a) \<Rightarrow> 'a \<Rightarrow> 'e list \<Rightarrow> 'r list \<times> 'a" where
  "run_spec step a [] = ([], a)"
| "run_spec step a (x # xs) =
     (let (r, a') = step a x; (rs, a'') = run_spec step a' xs in (r # rs, a''))"

locale simulation =
  fixes cstep :: "'c \<Rightarrow> 'e \<Rightarrow> ('r \<times> 'c) res"
    and astep :: "'a \<Rightarrow> 'e \<Rightarrow> 'r \<times> 'a"
    and rel :: "'c \<Rightarrow> 'a \<Rightarrow> bool"
  assumes sim: "rel c a \<Longrightarrow> \<exists>c'. cstep c x = Inr (fst (astep a x), c') \<and> rel c' (snd (astep a x))"
begin

lemma run_sim:
  "rel c a \<Longrightarrow> \<exists>c'. run_res cstep c xs = Inr (fst (run_spec astep a xs), c') \<and>
     rel c' (snd (run_spec astep a xs))"
proof (induction xs arbitrary: c a)
  case Nil
  then show ?case by simp
next
  case (Cons x xs)
  obtain c' where c': "cstep c x = Inr (fst (astep a x), c')" "rel c' (snd (astep a x))"
    using sim [OF Cons.prems] by blast
  with Cons.IH [OF c'(2)] show ?case by (force simp: Let_def split_beta)
qed

end

end
