(* ===== verification/Byte_Reader.thy ===== *)
theory Byte_Reader
  imports Prelude
begin

text \<open>
  \<^verbatim>\<open>include/efe/byte_reader.hpp\<close>: the bounds-checked big-endian readers and writers every
  decoder goes through. Each reader first calls \<open>require_bytes\<close>; the span accesses that follow
  are modelled with their out-of-range outcome, and the lemmas show that it never happens.
\<close>

section \<open>Readers\<close>

definition require_bytes :: "u8 list \<Rightarrow> nat \<Rightarrow> nat \<Rightarrow> unit res" where
  "require_bytes bytes offset width =
     (if offset > length bytes \<or> width > length bytes - offset
      then Inl (DecodeError ''truncated binary message'') else Inr ())"

definition read_u8 :: "u8 list \<Rightarrow> nat \<Rightarrow> u8 res" where
  "read_u8 bytes offset =
     rbind (require_bytes bytes offset 1) (\<lambda>_. span_at bytes offset)"

definition read_u16_be :: "u8 list \<Rightarrow> nat \<Rightarrow> u16 res" where
  "read_u16_be bytes offset =
     rbind (require_bytes bytes offset 2) (\<lambda>_.
     rbind (span_at bytes offset) (\<lambda>b0.
     rbind (span_at bytes (offset + 1)) (\<lambda>b1.
     Inr (push_bit 8 (ucast b0) OR ucast b1))))"

definition read_u32_be :: "u8 list \<Rightarrow> nat \<Rightarrow> u32 res" where
  "read_u32_be bytes offset =
     rbind (require_bytes bytes offset 4) (\<lambda>_.
     rbind (span_at bytes offset) (\<lambda>b0.
     rbind (span_at bytes (offset + 1)) (\<lambda>b1.
     rbind (span_at bytes (offset + 2)) (\<lambda>b2.
     rbind (span_at bytes (offset + 3)) (\<lambda>b3.
     Inr (push_bit 24 (ucast b0) OR push_bit 16 (ucast b1) OR push_bit 8 (ucast b2) OR ucast b3))))))"

text \<open>The loop of \<open>read_u48_be\<close> and \<open>read_u64_be\<close>; the counter is the number of bytes left.\<close>

fun be_loop :: "u8 list \<Rightarrow> nat \<Rightarrow> nat \<Rightarrow> u64 \<Rightarrow> u64 res" where
  "be_loop bytes pos 0 value = Inr value"
| "be_loop bytes pos (Suc n) value =
     rbind (span_at bytes pos) (\<lambda>b. be_loop bytes (Suc pos) n (push_bit 8 value OR ucast b))"

definition read_u48_be :: "u8 list \<Rightarrow> nat \<Rightarrow> u64 res" where
  "read_u48_be bytes offset = rbind (require_bytes bytes offset 6) (\<lambda>_. be_loop bytes offset 6 0)"

definition read_u64_be :: "u8 list \<Rightarrow> nat \<Rightarrow> u64 res" where
  "read_u64_be bytes offset = rbind (require_bytes bytes offset 8) (\<lambda>_. be_loop bytes offset 8 0)"

definition read_ascii_view :: "u8 list \<Rightarrow> nat \<Rightarrow> nat \<Rightarrow> u8 list res" where
  "read_ascii_view bytes offset width =
     rbind (require_bytes bytes offset width) (\<lambda>_. span_range bytes offset width)"

definition read_char :: "u8 list \<Rightarrow> nat \<Rightarrow> u8 res" where
  "read_char bytes offset = read_u8 bytes offset"

section \<open>Writers\<close>

definition write_u16_be :: "u8 list \<Rightarrow> nat \<Rightarrow> u16 \<Rightarrow> u8 list res" where
  "write_u16_be bytes offset value =
     (if offset > length bytes \<or> 2 > length bytes - offset
      then Inl (DecodeError ''short output buffer'')
      else rbind (span_set bytes offset (ucast (drop_bit 8 value AND 0xFF))) (\<lambda>bytes.
           span_set bytes (offset + 1) (ucast (value AND 0xFF))))"

text \<open>The loop \<open>for (int i = 7; i >= 0; --i)\<close>; the counter is \<open>i + 1\<close>.\<close>

fun write_loop :: "u8 list \<Rightarrow> nat \<Rightarrow> nat \<Rightarrow> u64 \<Rightarrow> u8 list res" where
  "write_loop bytes offset 0 value = Inr bytes"
| "write_loop bytes offset (Suc i) value =
     rbind (span_set bytes (offset + (7 - i)) (ucast (drop_bit (i * 8) value AND 0xFF)))
       (\<lambda>bytes. write_loop bytes offset i value)"

definition write_u64_be :: "u8 list \<Rightarrow> nat \<Rightarrow> u64 \<Rightarrow> u8 list res" where
  "write_u64_be bytes offset value =
     (if offset > length bytes \<or> 8 > length bytes - offset
      then Inl (DecodeError ''short output buffer'')
      else write_loop bytes offset 8 value)"

section \<open>What the readers return\<close>

text \<open>
  The contract the readers share, whatever the field: a decoding error when the field does not
  fit, and otherwise the value of exactly the bytes of the field.
\<close>

locale field_reader =
  fixes rd :: "u8 list \<Rightarrow> nat \<Rightarrow> 'a res"
    and width :: nat
    and val :: "u8 list \<Rightarrow> 'a"
  assumes rd_eq: "rd bytes offset =
     (if offset + width \<le> length bytes then Inr (val (subspan bytes offset width))
      else Inl (DecodeError ''truncated binary message''))"
begin

lemma in_range: "offset + width \<le> length bytes \<Longrightarrow> rd bytes offset = Inr (val (subspan bytes offset width))"
  by (simp add: rd_eq)

lemma short: "length bytes < offset + width \<Longrightarrow> rd bytes offset = Inl (DecodeError ''truncated binary message'')"
  by (simp add: rd_eq)

lemma outcome: "decode_outcome (rd bytes offset)"
  by (simp add: rd_eq)

lemma Inr_iff: "rd bytes offset = Inr v \<longleftrightarrow> offset + width \<le> length bytes \<and> v = val (subspan bytes offset width)"
  by (auto simp: rd_eq)

lemma local: "subspan bytes offset width = subspan bytes' offset width \<Longrightarrow>
    offset + width \<le> length bytes \<Longrightarrow> offset + width \<le> length bytes' \<Longrightarrow>
    rd bytes offset = rd bytes' offset"
  by (simp add: rd_eq)

end

lemma require_bytes_eq:
  "require_bytes bytes offset width =
     (if offset + width \<le> length bytes then Inr ()
      else Inl (DecodeError ''truncated binary message''))"
  by (auto simp: require_bytes_def)

lemma be_loop_eq:
  "pos + n \<le> length bytes \<Longrightarrow> be_loop bytes pos n v = Inr (foldl be_step v (subspan bytes pos n))"
  by (induction n arbitrary: pos v) (simp_all add: subspan_Suc be_step_def)

lemma subspan_2: "offset + 2 \<le> length bytes \<Longrightarrow>
  subspan bytes offset 2 = [bytes ! offset, bytes ! (offset + 1)]"
  by (simp add: numeral_2_eq_2 subspan_Suc)

lemma subspan_4: "offset + 4 \<le> length bytes \<Longrightarrow>
  subspan bytes offset 4 = [bytes ! offset, bytes ! (offset + 1), bytes ! (offset + 2), bytes ! (offset + 3)]"
  by (simp add: numeral_eq_Suc subspan_Suc)

interpretation ru8: field_reader read_u8 1 hd
  by unfold_locales (auto simp: read_u8_def require_bytes_eq subspan_Suc)

interpretation ru16: field_reader read_u16_be 2 be_word
  by unfold_locales
    (auto simp: read_u16_be_def require_bytes_eq subspan_2 be_word_def be_step_def)

interpretation ru32: field_reader read_u32_be 4 be_word
  by unfold_locales
    (auto simp: read_u32_be_def require_bytes_eq subspan_4 be_word_def be_step_def push_bit_or or.assoc)

interpretation ru48: field_reader read_u48_be 6 be_word
  by unfold_locales (auto simp: read_u48_be_def require_bytes_eq be_loop_eq be_word_def)

interpretation ru64: field_reader read_u64_be 8 be_word
  by unfold_locales (auto simp: read_u64_be_def require_bytes_eq be_loop_eq be_word_def)

interpretation rchar: field_reader read_char 1 hd
  by unfold_locales (simp add: read_char_def ru8.rd_eq)

interpretation rascii: field_reader "\<lambda>bytes offset. read_ascii_view bytes offset width" width id
  for width
  by unfold_locales (simp add: read_ascii_view_def require_bytes_eq)

lemmas read_in_range =
  ru8.in_range ru16.in_range ru32.in_range ru48.in_range ru64.in_range rchar.in_range rascii.in_range
lemmas read_outcome =
  ru8.outcome ru16.outcome ru32.outcome ru48.outcome ru64.outcome rchar.outcome rascii.outcome

section \<open>What the writers store\<close>

lemma ucast_and_FF [simp]: "(ucast ((v :: 'a::len word) AND 0xFF) :: u8) = ucast v"
proof -
  have "(0xFF :: 'a word) = mask 8" by (simp add: mask_eq_exp_minus_1)
  then have "v AND 0xFF = take_bit 8 v" by (simp add: take_bit_eq_mask)
  then show ?thesis
    by (simp only:) (rule bit_word_eqI, auto simp: bit_simps dest: bit_imp_le_length)
qed

lemma write_loop_eq:
  "i \<le> 8 \<Longrightarrow> offset + 8 \<le> length bytes \<Longrightarrow>
   write_loop bytes offset i v =
     Inr (take (offset + 8 - i) bytes @ be_bytes i v @ drop (offset + 8) bytes)"
proof (induction i arbitrary: bytes)
  case 0
  then show ?case by simp
next
  case (Suc i)
  let ?p = "offset + (7 - i)"
  let ?b = "ucast (drop_bit (i * 8) v) :: u8"
  have p: "?p < length bytes" "offset + 8 - i = Suc ?p" "offset + 8 - Suc i = ?p"
    using Suc.prems by auto
  have "take (Suc ?p) (bytes[?p := ?b]) = take ?p bytes @ [?b]"
    using p by (simp add: take_Suc_conv_app_nth)
  moreover have "drop (offset + 8) (bytes[?p := ?b]) = drop (offset + 8) bytes"
    using Suc.prems by simp
  ultimately show ?case
    using Suc p by (simp add: be_bytes_Suc mult.commute)
qed

lemma write_u64_be_eq:
  "write_u64_be bytes offset v =
     (if offset + 8 \<le> length bytes
      then Inr (take offset bytes @ be_bytes 8 v @ drop (offset + 8) bytes)
      else Inl (DecodeError ''short output buffer''))"
  by (auto simp: write_u64_be_def write_loop_eq)

lemma write_u16_be_eq:
  "write_u16_be bytes offset v =
     (if offset + 2 \<le> length bytes
      then Inr (take offset bytes @ be_bytes 2 v @ drop (offset + 2) bytes)
      else Inl (DecodeError ''short output buffer''))"
proof (cases "offset + 2 \<le> length bytes")
  case True
  define xs ys where "xs = take offset bytes" and "ys = drop offset bytes"
  with True have "bytes = xs @ ys" "length xs = offset" "2 \<le> length ys" by auto
  then obtain x y zs where "bytes = xs @ x # y # zs" "length xs = offset"
    by (cases ys; cases "tl ys") auto
  then show ?thesis
    by (simp add: write_u16_be_def span_set_def list_update_append be_bytes_Suc numeral_2_eq_2)
qed (auto simp: write_u16_be_def)

end
