(* ===== verification/Types.thy ===== *)
theory Types
  imports Prelude "HOL-Library.List_Lexorder"
begin

text \<open>
  \<^verbatim>\<open>include/efe/types.hpp\<close> and \<^verbatim>\<open>include/efe/events.hpp\<close>: the domain types of the engine and the
  normalised market events the decoders produce and the order book consumes. \<open>to_decimal_price\<close> and
  the stream operator, which serve display only, are in theory \<open>Display\<close>.
\<close>

type_synonym order_id = u64
type_synonym quantity = u32
type_synonym price = u32
type_synonym timestamp = u64
type_synonym seqno = u64
type_synonym slot_index = u32

definition kInvalidSlot :: slot_index where
  "kInvalidSlot = 0xFFFFFFFF"

section \<open>Symbols\<close>

datatype symbol = Symbol (sym_bytes: "u8 list")

definition pad_bytes :: "u8 list \<Rightarrow> u8 list" where
  "pad_bytes view = (let n = (if length view < 8 then length view else 8)
                      in take n view @ replicate (8 - n) (ch CHR '' ''))"

definition from_string :: "u8 list \<Rightarrow> symbol" where
  "from_string view = Symbol (pad_bytes view)"

definition from_padded :: "u8 list \<Rightarrow> symbol" where
  "from_padded view = Symbol (pad_bytes view)"

text \<open>The loop of \<open>Symbol::str\<close>: drop trailing blanks.\<close>

fun str_len :: "u8 list \<Rightarrow> nat \<Rightarrow> nat" where
  "str_len b 0 = 0"
| "str_len b (Suc n) = (if b ! n = ch CHR '' '' then str_len b n else Suc n)"

definition symbol_str :: "symbol \<Rightarrow> u8 list" where
  "symbol_str s = take (str_len (sym_bytes s) (length (sym_bytes s))) (sym_bytes s)"

text \<open>\<open>SymbolHash\<close>: FNV-1a over the eight bytes.\<close>

definition symbol_hash :: "symbol \<Rightarrow> u64" where
  "symbol_hash s = foldl (\<lambda>h c. (h XOR ucast c) * 1099511628211) 1469598103934665603 (sym_bytes s)"

text \<open>
  \<open>operator<\<close> compares the arrays lexicographically by \<open>char\<close>, which is signed on the x86-64
  and Apple targets the project builds for; the order decides only in which order the symbols of
  a book are visited.
\<close>

definition symbol_less :: "symbol \<Rightarrow> symbol \<Rightarrow> bool" where
  "symbol_less a b \<longleftrightarrow> map sint (sym_bytes a) < map sint (sym_bytes b)"

instantiation symbol :: linorder
begin

definition less_eq_symbol :: "symbol \<Rightarrow> symbol \<Rightarrow> bool" where
  "less_eq_symbol a b \<longleftrightarrow> map sint (sym_bytes a) \<le> map sint (sym_bytes b)"

definition less_symbol :: "symbol \<Rightarrow> symbol \<Rightarrow> bool" where
  "less_symbol = symbol_less"

instance
proof
  fix a b c :: symbol
  have inj: "inj (sint :: u8 \<Rightarrow> int)" by (rule injI) (rule word_eq_iff_signed [THEN iffD2])
  show "a < b \<longleftrightarrow> a \<le> b \<and> \<not> b \<le> a"
    by (simp add: less_eq_symbol_def less_symbol_def symbol_less_def less_le_not_le)
  show "a \<le> a" by (simp add: less_eq_symbol_def)
  show "a \<le> b \<Longrightarrow> b \<le> c \<Longrightarrow> a \<le> c"
    by (simp add: less_eq_symbol_def)
  show "a = b" if "a \<le> b" "b \<le> a"
  proof (rule symbol.expand)
    from that have "map sint (sym_bytes a) = map sint (sym_bytes b)"
      by (simp add: less_eq_symbol_def)
    then show "sym_bytes a = sym_bytes b" using inj by (simp only: inj_map_eq_map)
  qed
  show "a \<le> b \<or> b \<le> a"
    by (auto simp: less_eq_symbol_def)
qed

end

section \<open>Orders and events\<close>

datatype side = Buy | Sell

definition side_to_string :: "side \<Rightarrow> string" where
  "side_to_string s = (if s = Buy then ''BUY'' else ''SELL'')"

record event_meta =
  stock_locate :: u16
  tracking_number :: u16
  timestamp_ns :: timestamp

record order =
  ord_id :: order_id
  ord_symbol :: symbol
  ord_side :: side
  ord_quantity :: quantity
  ord_price :: price

record add_event =
  add_meta :: event_meta
  add_order :: order

record execute_event =
  exec_meta :: event_meta
  exec_order_id :: order_id
  executed_shares :: quantity
  match_number :: u64
  has_execution_price :: bool
  execution_price :: price
  printable :: bool

record cancel_event =
  cancel_meta :: event_meta
  cancel_order_id :: order_id
  canceled_shares :: quantity

record delete_event =
  delete_meta :: event_meta
  delete_order_id :: order_id

record replace_event =
  replace_meta :: event_meta
  old_order_id :: order_id
  new_order_id :: order_id
  new_quantity :: quantity
  new_price :: price

datatype market_event =
    AddEvent add_event
  | ExecuteEvent execute_event
  | CancelEvent cancel_event
  | DeleteEvent delete_event
  | ReplaceEvent replace_event

section \<open>Symbol lemmas\<close>

lemma length_pad_bytes [simp]: "length (pad_bytes view) = 8"
  by (simp add: pad_bytes_def Let_def)

lemma length_from_padded [simp]: "length (sym_bytes (from_padded view)) = 8"
  by (simp add: from_padded_def)

lemma from_padded_exact: "length view = 8 \<Longrightarrow> from_padded view = Symbol view"
  by (simp add: from_padded_def pad_bytes_def)

lemma str_len_prefix: "n \<le> length xs \<Longrightarrow> str_len (xs @ ys) n = str_len xs n"
  by (induction n) (auto simp: nth_append)

lemma str_len_blanks: "str_len (xs @ replicate k (ch CHR '' '')) (length xs + k) = str_len xs (length xs)"
proof (induction k)
  case 0
  then show ?case by simp
next
  case (Suc k)
  have "str_len ((xs @ replicate k (ch CHR '' '')) @ [ch CHR '' '']) (length xs + k) = str_len xs (length xs)"
    using Suc by (subst str_len_prefix) simp_all
  then show ?case
    by (simp only: replicate_append_same [symmetric] replicate_Suc append_assoc [symmetric])
      (simp add: nth_append)
qed

lemma str_len_le: "str_len b n \<le> n"
  by (induction n) auto

text \<open>Reading back the text a symbol was made from.\<close>

lemma symbol_str_from_string:
  assumes "length view \<le> 8" and "view = [] \<or> last view \<noteq> ch CHR '' ''"
  shows "symbol_str (from_string view) = view"
proof -
  have "from_string view = Symbol (view @ replicate (8 - length view) (ch CHR '' ''))"
    using assms(1) by (auto simp: from_string_def pad_bytes_def Let_def)
  moreover have "str_len view (length view) = length view"
    using assms(2) by (cases view rule: rev_cases) auto
  ultimately show ?thesis
    using assms(1) str_len_blanks [of view "8 - length view"] by (simp add: symbol_str_def)
qed

end
