(* ===== verification/Mold_Udp.thy ===== *)
theory Mold_Udp
  imports Byte_Reader Types
begin

text \<open>
  \<^verbatim>\<open>include/efe/moldudp64.hpp\<close> and \<^verbatim>\<open>src/moldudp64.cpp\<close>: MoldUDP64 framing. The parser is
  the code's, loop and guards included; the wire format is stated on its own as \<open>wire_packet\<close>,
  and the main lemmas say that the parser accepts exactly the encodings of well-formed packets.
\<close>

section \<open>Packets and requests\<close>

record mold_message =
  msg_sequence :: seqno
  msg_payload :: "u8 list"

record mold_downstream_packet =
  pkt_session :: "u8 list"
  pkt_first_sequence :: seqno
  pkt_message_count :: u16
  pkt_heartbeat :: bool
  pkt_end_of_session :: bool
  pkt_messages :: "mold_message list"

record mold_request =
  req_session :: "u8 list"
  req_first_sequence :: seqno
  req_message_count :: u16

text \<open>\<open>session_string\<close>: the session without trailing blanks and NULs.\<close>

fun session_len :: "u8 list \<Rightarrow> nat \<Rightarrow> nat" where
  "session_len s 0 = 0"
| "session_len s (Suc n) = (if s ! n = ch CHR '' '' \<or> s ! n = 0 then session_len s n else Suc n)"

definition session_string :: "mold_downstream_packet \<Rightarrow> u8 list" where
  "session_string p = take (session_len (pkt_session p) (length (pkt_session p))) (pkt_session p)"

definition session_from_string :: "u8 list \<Rightarrow> u8 list" where
  "session_from_string s = (let out = replicate 10 (ch CHR '' ''); n = min (length s) (length out)
                            in take n s @ drop n out)"

section \<open>The downstream parser\<close>

text \<open>
  The message loop of \<open>parse_downstream\<close>: \<open>n\<close> messages are left, \<open>i\<close> is the 16-bit loop
  counter and \<open>offset\<close> the read position; the result is the messages and the final position.
\<close>

fun parse_messages :: "u8 list \<Rightarrow> seqno \<Rightarrow> nat \<Rightarrow> u16 \<Rightarrow> nat \<Rightarrow> (mold_message list \<times> nat) res" where
  "parse_messages d first 0 i offset = Inr ([], offset)"
| "parse_messages d first (Suc n) i offset =
     rbind (require_bytes d offset 2) (\<lambda>_.
     rbind (read_u16_be d offset) (\<lambda>len.
     rbind (require_bytes d (offset + 2) (unat len)) (\<lambda>_.
     rbind (span_range d (offset + 2) (unat len)) (\<lambda>payload.
     rbind (parse_messages d first n (i + 1) (offset + 2 + unat len)) (\<lambda>(ms, final).
     Inr (\<lparr>msg_sequence = first + ucast i, msg_payload = payload\<rparr> # ms, final))))))"

definition parse_downstream :: "u8 list \<Rightarrow> mold_downstream_packet res" where
  "parse_downstream d =
     rbind (require_bytes d 0 20) (\<lambda>_.
     rbind (span_range d 0 10) (\<lambda>session.
     rbind (read_u64_be d 10) (\<lambda>first.
     rbind (read_u16_be d 18) (\<lambda>count.
     let out = \<lparr>pkt_session = session, pkt_first_sequence = first, pkt_message_count = count,
                pkt_heartbeat = False, pkt_end_of_session = False, pkt_messages = []\<rparr>
     in if count = 0 then
          (if length d \<noteq> 20 then Inl (DecodeError ''MoldUDP64 heartbeat has trailing bytes'')
           else Inr (out\<lparr>pkt_heartbeat := True\<rparr>))
        else if count = 0xFFFF then
          (if length d \<noteq> 20 then Inl (DecodeError ''MoldUDP64 end-of-session has trailing bytes'')
           else Inr (out\<lparr>pkt_end_of_session := True\<rparr>))
        else if first > max_u64 - (ucast count - 1) then
          Inl (DecodeError ''MoldUDP64 sequence range overflows'')
        else rbind (parse_messages d first (unat count) 0 20) (\<lambda>(ms, offset).
          if offset \<noteq> length d
          then Inl (DecodeError ''MoldUDP64 packet has trailing bytes or bad message count'')
          else Inr (out\<lparr>pkt_messages := ms\<rparr>))))))"

definition encode_request :: "mold_request \<Rightarrow> u8 list res" where
  "encode_request r =
     (if req_message_count r = 0 \<or> req_message_count r = 0xFFFF
      then Inl (DecodeError ''invalid MoldUDP64 rerequest count'')
      else let out = req_session r @ drop 10 (replicate 20 0)
           in rbind (write_u64_be out 10 (req_first_sequence r)) (\<lambda>out.
              write_u16_be out 18 (req_message_count r)))"

section \<open>The wire format\<close>

definition wire_message :: "u8 list \<Rightarrow> u8 list" where
  "wire_message m = be_bytes 2 (of_nat (length m) :: u16) @ m"

definition wire_header :: "u8 list \<Rightarrow> seqno \<Rightarrow> u16 \<Rightarrow> u8 list" where
  "wire_header session first count = session @ be_bytes 8 first @ be_bytes 2 count"

definition wire_packet :: "mold_downstream_packet \<Rightarrow> u8 list" where
  "wire_packet p = wire_header (pkt_session p) (pkt_first_sequence p) (pkt_message_count p)
     @ concat (map (wire_message \<circ> msg_payload) (pkt_messages p))"

text \<open>Messages numbered consecutively from a first sequence number.\<close>

definition numbered :: "seqno \<Rightarrow> u8 list list \<Rightarrow> mold_message list" where
  "numbered first ps =
     map (\<lambda>i. \<lparr>msg_sequence = first + of_nat i, msg_payload = ps ! i\<rparr>) [0..<length ps]"

definition data_packet :: "u8 list \<Rightarrow> seqno \<Rightarrow> u8 list list \<Rightarrow> mold_downstream_packet" where
  "data_packet session first ps =
     \<lparr>pkt_session = session, pkt_first_sequence = first, pkt_message_count = of_nat (length ps),
      pkt_heartbeat = False, pkt_end_of_session = False, pkt_messages = numbered first ps\<rparr>"

definition packet_wf :: "mold_downstream_packet \<Rightarrow> bool" where
  "packet_wf p \<longleftrightarrow>
     length (pkt_session p) = 10 \<and>
     pkt_heartbeat p = (pkt_message_count p = 0) \<and>
     pkt_end_of_session p = (pkt_message_count p = 0xFFFF) \<and>
     (if pkt_heartbeat p \<or> pkt_end_of_session p then pkt_messages p = []
      else length (pkt_messages p) = unat (pkt_message_count p) \<and>
           unat (pkt_first_sequence p) + unat (pkt_message_count p) \<le> 2 ^ 64 \<and>
           pkt_messages p = numbered (pkt_first_sequence p) (map msg_payload (pkt_messages p)) \<and>
           (\<forall>m \<in> set (pkt_messages p). length (msg_payload m) < 2 ^ 16))"

section \<open>Lemmas\<close>

lemma length_numbered [simp]: "length (numbered first ps) = length ps"
  by (simp add: numbered_def)

lemma numbered_Nil [simp]: "numbered first [] = []"
  by (simp add: numbered_def)

lemma numbered_Cons: "numbered first (p # ps) = \<lparr>msg_sequence = first, msg_payload = p\<rparr> # numbered (first + 1) ps"
proof -
  have "[0..<length (p # ps)] = 0 # map Suc [0..<length ps]"
    by (simp add: upt_conv_Cons map_Suc_upt del: upt_Suc)
  then show ?thesis
    by (simp add: numbered_def add_ac del: upt_Suc)
qed

lemma payloads_numbered [simp]: "map msg_payload (numbered first ps) = ps"
  by (simp add: numbered_def map_nth comp_def)

lemma length_wire_message [simp]: "length (wire_message m) = 2 + length m"
  by (simp add: wire_message_def)

lemma length_wire_header [simp]:
  "length session = 10 \<Longrightarrow> length (wire_header session first count) = 20"
  by (simp add: wire_header_def)

lemma ucast_u16_Suc:
  assumes "unat i + 1 < 2 ^ 16"
  shows "(ucast (i + 1 :: u16) :: u64) = ucast i + 1"
proof (rule word_eq_iff_unsigned [THEN iffD2])
  have "unat (i + 1) = unat i + 1" using assms by (simp add: unat_word_ariths)
  moreover have "unat (ucast i + 1 :: u64) = unat i + 1"
    using assms by (simp add: unat_word_ariths unsigned_ucast_eq take_bit_eq_mod)
  ultimately show "unat (ucast (i + 1) :: u64) = unat (ucast i + 1 :: u64)"
    using assms by (simp add: unsigned_ucast_eq take_bit_eq_mod)
qed

lemma read_wire_length:
  assumes "drop offset d = wire_message m @ rest" and "length m < 2 ^ 16"
  shows "read_u16_be d offset = Inr (of_nat (length m))"
    and "offset + 2 + length m + length rest = length d"
    and "subspan d (offset + 2) (length m) = m"
    and "drop (offset + 2 + length m) d = rest"
proof -
  from assms(1) have "length (drop offset d) = 2 + length m + length rest" by simp
  then show len: "offset + 2 + length m + length rest = length d" by simp
  have "subspan d offset 2 = be_bytes 2 (of_nat (length m) :: u16)"
    using assms(1) by (simp add: subspan_def wire_message_def)
  with len show "read_u16_be d offset = Inr (of_nat (length m))"
    by (simp add: ru16.in_range)
  have d2: "drop (offset + 2) d = m @ rest"
    unfolding add.commute [of offset] drop_drop [symmetric] using assms(1)
    by (simp add: wire_message_def)
  then show "subspan d (offset + 2) (length m) = m"
    by (simp add: subspan_def)
  show "drop (offset + 2 + length m) d = rest"
    using d2 by (metis add.commute append_eq_conv_conj drop_drop)
qed

lemma parse_messages_encoded:
  assumes "drop offset d = concat (map wire_message ps) @ rest"
    and "\<forall>p \<in> set ps. length p < 2 ^ 16" and "unat i + length ps < 2 ^ 16"
  shows "parse_messages d first (length ps) i offset =
    Inr (numbered (first + ucast i) ps, offset + length (concat (map wire_message ps)))"
  using assms
proof (induction ps arbitrary: i offset)
  case Nil
  then show ?case by simp
next
  case (Cons p ps)
  let ?rest = "concat (map wire_message ps) @ rest"
  have p: "length p < 2 ^ 16" and d: "drop offset d = wire_message p @ ?rest"
    using Cons.prems by auto
  note r = read_wire_length [OF d p]
  have u: "unat (of_nat (length p) :: u16) = length p"
    using p by (simp add: unat_of_nat)
  have i: "unat (i + 1) = unat i + 1" "unat i + 1 < 2 ^ 16"
    using Cons.prems(3) by (simp_all add: unat_word_ariths)
  have sq: "first + ucast (i + 1) = first + ucast i + 1"
    using i(2) by (simp add: ucast_u16_Suc)
  have "parse_messages d first (length ps) (i + 1) (offset + 2 + length p) =
      Inr (numbered (first + ucast i + 1) ps, offset + 2 + length p + length (concat (map wire_message ps)))"
    using Cons.IH [of "offset + 2 + length p" "i + 1", unfolded sq i] Cons.prems(2,3) r(4) by simp
  then show ?case
    using r(1-3) by (simp add: require_bytes_eq u numbered_Cons)
qed

lemma parse_messages_decoded:
  assumes "parse_messages d first n i offset = Inr (ms, final)"
    and "offset \<le> length d" and "unat i + n < 2 ^ 16"
  shows "\<exists>ps. length ps = n \<and> (\<forall>p \<in> set ps. length p < 2 ^ 16) \<and> final \<le> length d \<and>
    drop offset d = concat (map wire_message ps) @ drop final d \<and> ms = numbered (first + ucast i) ps"
  using assms
proof (induction n arbitrary: i offset ms)
  case 0
  then show ?case by auto
next
  case (Suc n)
  from Suc.prems(1) obtain len ms' where fit: "offset + 2 + unat len \<le> length d"
    and len: "read_u16_be d offset = Inr len"
    and more: "parse_messages d first n (i + 1) (offset + 2 + unat len) = Inr (ms', final)"
    and ms: "ms = \<lparr>msg_sequence = first + ucast i,
        msg_payload = subspan d (offset + 2) (unat len)\<rparr> # ms'"
    by (auto simp: res_simps require_bytes_eq split: if_splits prod.splits)
  have i: "unat (i + 1) = unat i + 1" "unat i + 1 < 2 ^ 16"
    using Suc.prems(3) by (simp_all add: unat_word_ariths)
  have sq: "first + ucast (i + 1) = first + ucast i + 1"
    using i(2) by (simp add: ucast_u16_Suc)
  obtain ps where ps: "length ps = n" "\<forall>p \<in> set ps. length p < 2 ^ 16" "final \<le> length d"
    "drop (offset + 2 + unat len) d = concat (map wire_message ps) @ drop final d"
    "ms' = numbered (first + ucast i + 1) ps"
    using Suc.IH [OF more, unfolded sq i] fit Suc.prems(3) by auto
  let ?m = "subspan d (offset + 2) (unat len)"
  have lm: "length ?m = unat len" using fit by simp
  have "len = be_word (subspan d offset 2)" using len by (simp add: ru16.Inr_iff)
  then have "be_bytes 2 len = subspan d offset 2"
    using fit by (simp add: be_bytes_be_word)
  then have w: "wire_message ?m = subspan d offset 2 @ ?m"
    unfolding wire_message_def lm by simp
  have "drop offset d = subspan d offset 2 @ ?m @ drop (offset + 2 + unat len) d"
    unfolding subspan_def by (metis add.commute append_take_drop_id drop_drop)
  then have "drop offset d = concat (map wire_message (?m # ps)) @ drop final d"
    using ps(4) w by simp
  moreover have "unat len < 2 ^ 16" using unsigned_less [of len] by simp
  ultimately show ?case
    using ps ms lm by (intro exI [of _ "?m # ps"]) (simp add: numbered_Cons)
qed

lemma sequence_range_check:
  assumes "count \<noteq> 0"
  shows "first > max_u64 - (ucast (count :: u16) - 1) \<longleftrightarrow> unat first + unat count > 2 ^ 64"
proof -
  have c: "0 < unat count" "unat count < 2 ^ 16"
    using assms unsigned_less [of count] by (simp_all add: unat_gt_0)
  have u: "unat (ucast count :: u64) = unat count"
    using c by (simp add: unsigned_ucast_eq take_bit_eq_mod)
  have "(1 :: u64) \<le> ucast count" using c u by (simp add: word_le_nat_alt)
  then have "unat (ucast count - 1 :: u64) = unat count - 1"
    using u by (simp add: unat_sub)
  moreover have "ucast count - 1 \<le> max_u64" by simp
  moreover have "unat max_u64 = 2 ^ 64 - 1" by simp
  ultimately have "unat (max_u64 - (ucast count - 1)) = 2 ^ 64 - 1 - (unat count - 1)"
    by (simp only: unat_sub)
  then show ?thesis
    using c by (simp add: word_less_nat_alt) linarith
qed

lemma header_split:
  assumes "20 \<le> length d"
  shows "d = wire_header (subspan d 0 10) (be_word (subspan d 10 8)) (be_word (subspan d 18 2)) @ drop 20 d"
proof -
  have "take 20 d = subspan d 0 10 @ subspan d 10 8 @ subspan d 18 2"
    using take_add [of 10 10 d] take_add [of 8 2 "drop 10 d"] by (simp add: subspan_def)
  then have "d = subspan d 0 10 @ subspan d 10 8 @ subspan d 18 2 @ drop 20 d"
    using append_take_drop_id [of 20 d] by simp
  then show ?thesis
    using assms by (simp add: wire_header_def be_bytes_be_word)
qed

lemma header_fields:
  assumes "d = wire_header session first count @ rest" and "length session = 10"
  shows "span_range d 0 10 = Inr session" and "read_u64_be d 10 = Inr first"
    and "read_u16_be d 18 = Inr count" and "drop 20 d = rest" and "require_bytes d 0 20 = Inr ()"
proof -
  have l: "20 \<le> length d" using assms by simp
  have "subspan d 0 10 = session" "10 \<le> length d"
    using assms by (simp_all add: subspan_def wire_header_def)
  then show "span_range d 0 10 = Inr session" by simp
  show "drop 20 d = rest"
    using assms by (simp add: wire_header_def)
  have "subspan d 10 8 = be_bytes 8 first" "subspan d 18 2 = be_bytes 2 count"
    using assms by (simp_all add: subspan_def wire_header_def)
  with l show "read_u64_be d 10 = Inr first" "read_u16_be d 18 = Inr count"
    by (simp_all add: ru64.in_range ru16.in_range)
  show "require_bytes d 0 20 = Inr ()" using l by (simp add: require_bytes_eq)
qed

text \<open>The parser after the header has been read.\<close>

lemma parse_downstream_header:
  assumes "d = wire_header session first count @ rest" and "length session = 10"
  shows "parse_downstream d =
    (let out = \<lparr>pkt_session = session, pkt_first_sequence = first, pkt_message_count = count,
                pkt_heartbeat = False, pkt_end_of_session = False, pkt_messages = []\<rparr>
     in if count = 0 then
          (if rest \<noteq> [] then Inl (DecodeError ''MoldUDP64 heartbeat has trailing bytes'')
           else Inr (out\<lparr>pkt_heartbeat := True\<rparr>))
        else if count = 0xFFFF then
          (if rest \<noteq> [] then Inl (DecodeError ''MoldUDP64 end-of-session has trailing bytes'')
           else Inr (out\<lparr>pkt_end_of_session := True\<rparr>))
        else if unat first + unat count > 2 ^ 64 then
          Inl (DecodeError ''MoldUDP64 sequence range overflows'')
        else rbind (parse_messages d first (unat count) 0 20) (\<lambda>(ms, offset).
          if offset \<noteq> length d
          then Inl (DecodeError ''MoldUDP64 packet has trailing bytes or bad message count'')
          else Inr (out\<lparr>pkt_messages := ms\<rparr>)))"
proof -
  have "length d = 20 \<longleftrightarrow> rest = []" using assms by simp
  then show ?thesis
    unfolding parse_downstream_def header_fields [OF assms] rbind.simps Let_def
    using sequence_range_check [of count first] by (cases "count = 0") auto
qed

lemma parse_downstream_short:
  "length d < 20 \<Longrightarrow> parse_downstream d = Inl (DecodeError ''truncated binary message'')"
  by (simp add: parse_downstream_def require_bytes_eq)

lemma parse_downstream_wire:
  assumes "packet_wf p"
  shows "parse_downstream (wire_packet p) = Inr p"
proof -
  let ?body = "concat (map (wire_message \<circ> msg_payload) (pkt_messages p))"
  note h = parse_downstream_header [OF wire_packet_def, of p]
  show ?thesis
  proof (cases "pkt_heartbeat p \<or> pkt_end_of_session p")
    case True
    then show ?thesis using assms h by (cases p) (auto simp: packet_wf_def)
  next
    case False
    let ?ps = "map msg_payload (pkt_messages p)"
    have wf: "length ?ps = unat (pkt_message_count p)" "length (pkt_session p) = 10"
      "pkt_message_count p \<noteq> 0" "pkt_message_count p \<noteq> 0xFFFF"
      "unat (pkt_first_sequence p) + unat (pkt_message_count p) \<le> 2 ^ 64"
      "numbered (pkt_first_sequence p) ?ps = pkt_messages p" "\<forall>q \<in> set ?ps. length q < 2 ^ 16"
      using assms False by (auto simp: packet_wf_def)
    have d: "drop 20 (wire_packet p) = concat (map wire_message ?ps) @ []"
      using wf(2) by (simp add: wire_packet_def)
    have "unat (0 :: u16) + length ?ps < 2 ^ 16"
      using unsigned_less [of "pkt_message_count p"] wf(1) by simp
    note m = parse_messages_encoded [OF d wf(7) this, of "pkt_first_sequence p"]
    have "20 + length (concat (map wire_message ?ps)) = length (wire_packet p)"
      using wf(2) by (simp add: wire_packet_def)
    with m wf have "parse_messages (wire_packet p) (pkt_first_sequence p) (unat (pkt_message_count p)) 0 20 =
        Inr (pkt_messages p, length (wire_packet p))" by simp
    with h [OF wf(2)] wf False assms show ?thesis
      by (cases p) (simp add: packet_wf_def)
  qed
qed

lemma parse_downstream_sound:
  assumes "parse_downstream d = Inr p"
  shows "packet_wf p \<and> d = wire_packet p"
proof -
  have l: "20 \<le> length d"
    using assms parse_downstream_short [of d] by (cases "length d < 20") auto
  define session where "session = subspan d 0 10"
  define first :: u64 where "first = be_word (subspan d 10 8)"
  define count :: u16 where "count = be_word (subspan d 18 2)"
  define rest where "rest = drop 20 d"
  note defs = session_def first_def count_def rest_def
  have d: "d = wire_header session first count @ rest" and s: "length session = 10"
    using header_split [OF l] l by (simp_all add: defs)
  note h = parse_downstream_header [OF d s, unfolded Let_def]
  show ?thesis
  proof (cases "count = 0 \<or> count = 0xFFFF")
    case True
    then show ?thesis
      using assms h d s by (auto simp: packet_wf_def wire_packet_def split: if_splits)
  next
    case False
    with assms h obtain ms where fit: "unat first + unat count \<le> 2 ^ 64"
      and pm: "parse_messages d first (unat count) 0 20 = Inr (ms, length d)"
      and p: "p = \<lparr>pkt_session = session, pkt_first_sequence = first, pkt_message_count = count,
                pkt_heartbeat = False, pkt_end_of_session = False, pkt_messages = ms\<rparr>"
      by (auto simp: res_simps split: if_splits prod.splits)
    have "unat (0 :: u16) + unat count < 2 ^ 16" using unsigned_less [of count] by simp
    from parse_messages_decoded [OF pm l this] obtain ps where ps: "length ps = unat count"
      "\<forall>q \<in> set ps. length q < 2 ^ 16" "drop 20 d = concat (map wire_message ps)" "ms = numbered first ps"
      by auto
    have mp: "map msg_payload ms = ps" using ps by simp
    then have "\<forall>m \<in> set ms. length (msg_payload m) < 2 ^ 16" using ps(2) by auto
    then have "packet_wf p" using False p s fit ps mp by (simp add: packet_wf_def)
    moreover have "d = wire_packet p"
      using d ps(3) mp p by (simp add: wire_packet_def defs(4) flip: map_map)
    ultimately show ?thesis ..
  qed
qed

lemma parse_messages_outcome: "decode_outcome (parse_messages d first n i offset)"
  by (induction n arbitrary: i offset)
    (auto intro!: decode_outcome_rbind simp: ru16.outcome require_bytes_eq split: if_splits)

lemma encode_request_eq:
  assumes "length (req_session r) = 10"
  shows "encode_request r =
    (if req_message_count r = 0 \<or> req_message_count r = 0xFFFF
     then Inl (DecodeError ''invalid MoldUDP64 rerequest count'')
     else Inr (wire_header (req_session r) (req_first_sequence r) (req_message_count r)))"
  using assms by (simp add: encode_request_def write_u64_be_eq write_u16_be_eq wire_header_def)

lemma be_bytes_inj: "be_bytes n (v :: 'a::len word) = be_bytes n w \<longleftrightarrow> v = w"
  if "8 * n = LENGTH('a)"
  using that by (metis be_word_be_bytes_full)

lemma wire_message_append_inj:
  assumes "wire_message p @ x = wire_message q @ y" and "length p < 2 ^ 16" and "length q < 2 ^ 16"
  shows "p = q \<and> x = y"
proof -
  have "be_bytes 2 (of_nat (length p) :: u16) = be_bytes 2 (of_nat (length q) :: u16)"
    and rest: "p @ x = q @ y"
    using assms(1) by (simp_all add: wire_message_def)
  then have "unat (of_nat (length p) :: u16) = unat (of_nat (length q) :: u16)"
    by (simp add: be_bytes_inj)
  then have "length p = length q"
    using assms(2,3) by (simp add: unat_of_nat)
  with rest show ?thesis by simp
qed

lemma wire_messages_prefix:
  assumes "length ps = length qs"
    and "\<forall>p \<in> set ps. length p < 2 ^ 16" and "\<forall>q \<in> set qs. length q < 2 ^ 16"
    and "concat (map wire_message ps) = concat (map wire_message qs) @ r"
  shows "r = []"
  using assms
proof (induction ps qs rule: list_induct2)
  case (Cons p ps q qs)
  then have "wire_message p @ concat (map wire_message ps) =
      wire_message q @ concat (map wire_message qs) @ r" by simp
  from wire_message_append_inj [OF this] Cons show ?case by simp
qed simp

lemma wire_header_inj:
  "length s = 10 \<Longrightarrow> length s' = 10 \<Longrightarrow>
   wire_header s f c @ x = wire_header s' f' c' @ x' \<longleftrightarrow> s = s' \<and> f = f' \<and> c = c' \<and> x = x'"
  by (auto simp: wire_header_def be_bytes_inj)

lemma wire_packet_no_prefix:
  assumes "packet_wf p" and "packet_wf q" and "wire_packet p = wire_packet q @ r"
  shows "r = []"
proof -
  let ?body = "\<lambda>p. concat (map wire_message (map msg_payload (pkt_messages p)))"
  have eq: "pkt_message_count p = pkt_message_count q" "?body p = ?body q @ r"
    using assms wire_header_inj [of "pkt_session p" "pkt_session q"]
    by (auto simp: wire_packet_def packet_wf_def)
  show ?thesis
  proof (cases "pkt_message_count p = 0 \<or> pkt_message_count p = 0xFFFF")
    case True
    then show ?thesis using assms eq by (auto simp: packet_wf_def)
  next
    case False
    then show ?thesis
      using assms eq by (intro wire_messages_prefix [OF _ _ _ eq(2)]) (auto simp: packet_wf_def)
  qed
qed

lemma parse_downstream_outcome: "decode_outcome (parse_downstream d)"
  unfolding parse_downstream_def
  by (auto intro!: decode_outcome_rbind parse_messages_outcome
      simp: ru16.outcome ru64.outcome require_bytes_eq Let_def)

section \<open>Properties\<close>

text \<open>
  C18: the downstream parser accepts exactly the encodings of well-formed packets, and returns the
  packet that was encoded: heartbeat and end-of-session markers carry no bytes after the header,
  a data packet carries exactly as many length-prefixed messages as its count says, numbered
  consecutively without wrapping, and nothing else is accepted.
\<close>

theorem parse_downstream_exact: "parse_downstream d = Inr p \<longleftrightarrow> packet_wf p \<and> d = wire_packet p"
  using parse_downstream_wire parse_downstream_sound by blast

text \<open>
  Whatever the datagram, the parser either returns a packet or throws a
  \<open>DecodeError\<close>: no access leaves the datagram.
\<close>

theorem parse_downstream_safe: "decode_outcome (parse_downstream d)"
  by (rule parse_downstream_outcome)

text \<open>
  No proper prefix of a data packet parses, so a truncated datagram is never mistaken for a
  shorter one.
\<close>

theorem parse_downstream_no_prefix:
  assumes "parse_downstream d = Inr p" and "n < length d"
  shows "\<exists>e. parse_downstream (take n d) = Inl e"
proof (cases "parse_downstream (take n d)")
  case (Inr q)
  have "d = take n d @ drop n d" by simp
  with Inr assms(1) have "drop n d = []"
    using parse_downstream_sound wire_packet_no_prefix by metis
  with assms(2) show ?thesis by simp
qed simp

theorem parse_downstream_no_prefix_witness:
  "parse_downstream (wire_packet (data_packet (replicate 10 32) 7 [[1, 2, 3]])) =
     Inr (data_packet (replicate 10 32) 7 [[1, 2, 3]]) \<and>
   (\<exists>e. parse_downstream (take 23 (wire_packet (data_packet (replicate 10 32) 7 [[1, 2, 3]]))) = Inl e)"
    (is "parse_downstream (wire_packet ?p) = Inr ?p \<and> _")
proof
  have "packet_wf ?p" by (simp add: packet_wf_def data_packet_def numbered_def)
  then show ok: "parse_downstream (wire_packet ?p) = Inr ?p" by (rule parse_downstream_wire)
  show "\<exists>e. parse_downstream (take 23 (wire_packet ?p)) = Inl e"
    by (rule parse_downstream_no_prefix [OF ok]) (simp add: wire_packet_def data_packet_def numbered_def)
qed

text \<open>
  A rerequest is refused exactly for the two reserved counts, and otherwise its twenty bytes
  are the session, the first sequence number and the count, in the header format the downstream
  parser reads.
\<close>

theorem encode_request_header:
  assumes "length (req_session r) = 10"
  shows "encode_request r =
    (if req_message_count r = 0 \<or> req_message_count r = 0xFFFF
     then Inl (DecodeError ''invalid MoldUDP64 rerequest count'')
     else Inr (req_session r @ be_bytes 8 (req_first_sequence r) @ be_bytes 2 (req_message_count r)))"
  using assms by (simp add: encode_request_eq wire_header_def)

theorem encode_request_header_witness:
  "encode_request \<lparr>req_session = session_from_string (map ch ''TEST''), req_first_sequence = 77,
      req_message_count = 4\<rparr> =
    Inr (map ch ''TEST      '' @ be_bytes 8 (77 :: u64) @ be_bytes 2 (4 :: u16))"
proof -
  have s: "session_from_string (map ch ''TEST'') = map ch ''TEST      ''"
    by (simp add: session_from_string_def numeral_eq_Suc)
  show ?thesis
    unfolding s
    by (subst encode_request_header) simp_all
qed

end
