(* ===== verification/Protocolc.thy ===== *)
theory Protocolc
  imports Byte_Reader
begin

text \<open>
  \<^verbatim>\<open>tools/protocolc/main.cpp\<close>: the compiler from protocol schemas to C++ message views. Modelled are
  the lexer, the parser with its layout computation, and the code generator, whose output is
  rendered from an abstract syntax of the accessor expressions, so that what a generated accessor
  computes is the meaning of the expression the generator emitted. Characters are bytes; the
  character classes are those of the "C" locale. Whether a file can be opened is a parameter.
\<close>

section \<open>Lexer\<close>

datatype token_kind = Ident | String | Number | LBrace | RBrace | LBracket | RBracket | Colon | Semicolon | End

record token =
  tok_kind :: token_kind
  tok_text :: string
  tok_line :: nat

text \<open>The input from the current position on, and the line counter.\<close>

record lexer =
  lx_rest :: string
  lx_line :: nat

definition char_code :: "char \<Rightarrow> nat" where
  "char_code c = of_char c"

definition is_digit :: "char \<Rightarrow> bool" where
  "is_digit c \<longleftrightarrow> 48 \<le> char_code c \<and> char_code c \<le> 57"

definition is_alpha :: "char \<Rightarrow> bool" where
  "is_alpha c \<longleftrightarrow> 65 \<le> char_code c \<and> char_code c \<le> 90 \<or> 97 \<le> char_code c \<and> char_code c \<le> 122"

definition is_space :: "char \<Rightarrow> bool" where
  "is_space c \<longleftrightarrow> char_code c = 32 \<or> 9 \<le> char_code c \<and> char_code c \<le> 13"

definition ident_char :: "char \<Rightarrow> bool" where
  "ident_char c \<longleftrightarrow> is_alpha c \<or> is_digit c \<or> c = CHR ''_''"

text \<open>\<open>std::to_string\<close> of an unsigned number.\<close>

fun to_decimal :: "nat \<Rightarrow> string" where
  "to_decimal n =
     (if n < 10 then [char_of (48 + n)] else to_decimal (n div 10) @ [char_of (48 + n mod 10)])"

declare to_decimal.simps [simp del]

fun skip_line :: "string \<Rightarrow> string" where
  "skip_line [] = []"
| "skip_line (c # cs) = (if c = CHR 0x0A then c # cs else skip_line cs)"

lemma length_skip_line: "length (skip_line s) \<le> length s"
  by (induction s) auto

function skip_ws_comments :: "string \<Rightarrow> nat \<Rightarrow> string \<times> nat" where
  "skip_ws_comments s line =
     (case s of
        [] \<Rightarrow> ([], line)
      | c # cs \<Rightarrow>
          if c = CHR 0x0A then skip_ws_comments cs (line + 1)
          else if is_space c then skip_ws_comments cs line
          else if c = CHR ''/'' \<and> cs \<noteq> [] \<and> hd cs = CHR ''/'' then skip_ws_comments (skip_line (tl cs)) line
          else (s, line))"
  by pat_completeness auto
termination
proof (relation "measure (\<lambda>(s, line). length s)")
  fix s :: string and line c cs
  assume "s = c # cs" and "\<not> is_space c" and "c = CHR ''/'' \<and> cs \<noteq> [] \<and> hd cs = CHR ''/''"
  moreover have "length (skip_line (tl cs)) \<le> length (tl cs)" by (rule length_skip_line)
  ultimately show "((skip_line (tl cs), line), s, line) \<in> measure (\<lambda>(s, line). length s)" by simp
qed auto

declare skip_ws_comments.simps [simp del]

definition ident_token :: "lexer \<Rightarrow> token \<times> lexer" where
  "ident_token lx =
     (let s = lx_rest lx; text = hd s # takeWhile ident_char (tl s)
      in (\<lparr>tok_kind = Ident, tok_text = text, tok_line = lx_line lx\<rparr>,
          lx\<lparr>lx_rest := dropWhile ident_char (tl s)\<rparr>))"

definition number_token :: "lexer \<Rightarrow> token \<times> lexer" where
  "number_token lx =
     (let s = lx_rest lx; text = hd s # takeWhile is_digit (tl s)
      in (\<lparr>tok_kind = Number, tok_text = text, tok_line = lx_line lx\<rparr>,
          lx\<lparr>lx_rest := dropWhile is_digit (tl s)\<rparr>))"

text \<open>The loop of \<open>string_token\<close>, from after the opening quote.\<close>

fun string_body :: "string \<Rightarrow> (string \<times> string) res" where
  "string_body [] = Inl (RuntimeError ''lexer: unterminated string'')"
| "string_body (c # cs) =
     (if c = CHR 0x22 then Inr ([], cs)
      else if c = CHR 0x0A then Inl (RuntimeError ''lexer: newline in string literal'')
      else rbind (string_body cs) (\<lambda>(out, rest). Inr (c # out, rest)))"

definition string_token :: "lexer \<Rightarrow> (token \<times> lexer) res" where
  "string_token lx =
     rbind (string_body (tl (lx_rest lx))) (\<lambda>(out, rest).
     Inr (\<lparr>tok_kind = String, tok_text = out, tok_line = lx_line lx\<rparr>, lx\<lparr>lx_rest := rest\<rparr>))"

definition punct :: "char \<Rightarrow> token_kind option" where
  "punct c =
     (if c = CHR ''{'' then Some LBrace else if c = CHR ''}'' then Some RBrace
      else if c = CHR ''['' then Some LBracket else if c = CHR '']'' then Some RBracket
      else if c = CHR '':'' then Some Colon else if c = CHR '';'' then Some Semicolon else None)"

definition lex_next :: "lexer \<Rightarrow> (token \<times> lexer) res" where
  "lex_next lx0 =
     (let (s, line) = skip_ws_comments (lx_rest lx0) (lx_line lx0);
          lx = \<lparr>lx_rest = s, lx_line = line\<rparr>
      in case s of
           [] \<Rightarrow> Inr (\<lparr>tok_kind = End, tok_text = '''', tok_line = line\<rparr>, lx)
         | c # cs \<Rightarrow>
             (case punct c of
                Some k \<Rightarrow> Inr (\<lparr>tok_kind = k, tok_text = [c], tok_line = line\<rparr>, lx\<lparr>lx_rest := cs\<rparr>)
              | None \<Rightarrow>
                  if c = CHR 0x22 then string_token lx
                  else if is_digit c then Inr (number_token lx)
                  else if is_alpha c \<or> c = CHR ''_'' then Inr (ident_token lx)
                  else Inl (RuntimeError (''lexer: unexpected character at line '' @ to_decimal line))))"

section \<open>Schema\<close>

record field =
  f_name :: string
  f_type :: string
  f_width :: u64
  f_offset :: u64

record message =
  m_name :: string
  m_type :: char
  m_fields :: "field list"
  m_size :: u64

record protocol =
  p_name :: string
  p_messages :: "message list"

section \<open>Parser\<close>

record parser =
  ps_lexer :: lexer
  ps_current :: token

definition parser_init :: "string \<Rightarrow> parser res" where
  "parser_init input =
     rbind (lex_next \<lparr>lx_rest = input, lx_line = 1\<rparr>) (\<lambda>(tok, lx). Inr \<lparr>ps_lexer = lx, ps_current = tok\<rparr>)"

definition fail :: "parser \<Rightarrow> string \<Rightarrow> 'a res" where
  "fail ps msg = Inl (RuntimeError (''parser line '' @ to_decimal (tok_line (ps_current ps)) @ '': '' @ msg))"

definition expect :: "parser \<Rightarrow> token_kind \<Rightarrow> (string \<times> parser) res" where
  "expect ps k =
     (if tok_kind (ps_current ps) \<noteq> k
      then fail ps (''unexpected token '' @ [CHR 0x27] @ tok_text (ps_current ps) @ [CHR 0x27])
      else rbind (lex_next (ps_lexer ps)) (\<lambda>(tok, lx).
           Inr (tok_text (ps_current ps), \<lparr>ps_lexer = lx, ps_current = tok\<rparr>)))"

definition expect_ident :: "parser \<Rightarrow> string \<Rightarrow> parser res" where
  "expect_ident ps text =
     rbind (expect ps Ident) (\<lambda>(t, ps).
     if t \<noteq> text then fail ps (''expected '' @ [CHR 0x27] @ text @ [CHR 0x27]) else Inr ps)"

definition type_width :: "string \<Rightarrow> u64 res" where
  "type_width type =
     (if type = ''u8'' \<or> type = ''char'' then Inr 1
      else if type = ''u16_be'' then Inr 2
      else if type = ''u32_be'' \<or> type = ''price4'' then Inr 4
      else if type = ''u48_be'' then Inr 6
      else if type = ''u64_be'' \<or> type = ''price8'' then Inr 8
      else Inl (RuntimeError (''parser: unsupported type '' @ type)))"

text \<open>\<open>std::stoul\<close> on a run of digits: out of range above 64 bits.\<close>

definition digits_value :: "string \<Rightarrow> int" where
  "digits_value s = foldl (\<lambda>n c. n * 10 + (int (char_code c) - 48)) 0 s"

definition stoul :: "string \<Rightarrow> u64 res" where
  "stoul s =
     (if digits_value s < 0x10000000000000000 then Inr (word_of_int (digits_value s)) else Inl (OutOfRange ''stoul''))"

text \<open>The body of the field loop, given the message read so far.\<close>

definition field_width :: "parser \<Rightarrow> string \<Rightarrow> (u64 \<times> parser) res" where
  "field_width ps type =
     (if type = ''ascii'' then
        rbind (expect ps LBracket) (\<lambda>(_, ps).
        rbind (expect ps Number) (\<lambda>(num, ps).
        rbind (stoul num) (\<lambda>width.
        rbind (expect ps RBracket) (\<lambda>(_, ps).
        if width = 0 then fail ps ''ascii width must be > 0'' else Inr (width, ps)))))
      else rbind (type_width type) (\<lambda>width. Inr (width, ps)))"

definition parse_field :: "parser \<Rightarrow> message \<Rightarrow> (message \<times> parser) res" where
  "parse_field ps m =
     rbind (expect ps Ident) (\<lambda>(name, ps).
     if name \<in> set (map f_name (m_fields m)) then fail ps (''duplicate field: '' @ name)
     else
       rbind (expect ps Colon) (\<lambda>(_, ps).
       rbind (expect ps Ident) (\<lambda>(type, ps).
       rbind (field_width ps type) (\<lambda>(width, ps).
       rbind (expect ps Semicolon) (\<lambda>(_, ps).
       Inr (m\<lparr>m_size := m_size m + width,
              m_fields := m_fields m @ [\<lparr>f_name = name, f_type = type, f_width = width, f_offset = m_size m\<rparr>]\<rparr>, ps))))))"

section \<open>Progress of the parser\<close>

text \<open>Every token consumed shortens what is left, which is why the parser's loops end.\<close>

definition ps_left :: "parser \<Rightarrow> nat" where
  "ps_left ps = length (lx_rest (ps_lexer ps)) + (if tok_kind (ps_current ps) = End then 0 else 1)"

lemma length_skip_ws: "length (fst (skip_ws_comments s line)) \<le> length s"
proof (induction s line rule: skip_ws_comments.induct)
  case (1 s line)
  show ?case
  proof (cases s)
    case (Cons c cs)
    have "length (skip_line (tl cs)) \<le> length (c # cs)"
      using length_skip_line [of "tl cs"] by (cases cs) auto
    then show ?thesis
      using 1 [of c cs] Cons by (subst skip_ws_comments.simps) (auto intro: le_trans)
  qed (simp add: skip_ws_comments.simps)
qed

lemma string_body_shrinks: "string_body s = Inr (out, rest) \<Longrightarrow> length rest < length s"
  by (induction s arbitrary: out) (auto simp: res_simps less_SucI split: if_splits)

lemma lex_next_shrinks:
  assumes "lex_next lx = Inr (tok, lx')"
  shows "length (lx_rest lx') + (if tok_kind tok = End then 0 else 1) \<le> length (lx_rest lx)"
proof -
  obtain s line where sk: "skip_ws_comments (lx_rest lx) (lx_line lx) = (s, line)" by fastforce
  have le: "length s \<le> length (lx_rest lx)" using length_skip_ws [of "lx_rest lx" "lx_line lx"] sk by simp
  have dw: "length (dropWhile P xs) \<le> length xs" for P and xs :: string by (rule length_dropWhile_le)
  have "length (lx_rest lx') + (if tok_kind tok = End then 0 else 1) \<le> length s"
  proof (cases s)
    case Nil
    then show ?thesis using assms sk by (auto simp: lex_next_def)
  next
    case (Cons c cs)
    show ?thesis
    proof (cases "punct c")
      case (Some k)
      then show ?thesis using assms sk Cons by (auto simp: lex_next_def)
    next
      case None
      note lx = assms [unfolded lex_next_def sk, simplified, unfolded Cons, simplified, unfolded None, simplified]
      show ?thesis
        using lx dw [of ident_char cs] dw [of is_digit cs] string_body_shrinks [of cs] Cons
        by (auto simp: string_token_def number_token_def ident_token_def Let_def rbind_Inr_iff less_eq_Suc_le
            split: if_splits)
    qed
  qed
  with le show ?thesis by linarith
qed

lemma expect_shrinks: "expect ps k = Inr (t, ps') \<Longrightarrow> k \<noteq> End \<Longrightarrow> ps_left ps' < ps_left ps"
  using lex_next_shrinks [of "ps_lexer ps"]
  by (fastforce simp: expect_def fail_def ps_left_def res_simps split: if_splits)

lemma field_width_shrinks: "field_width ps type = Inr (w, ps') \<Longrightarrow> ps_left ps' \<le> ps_left ps"
  by (auto simp: field_width_def fail_def res_simps split: if_splits dest!: expect_shrinks)

lemma parse_field_shrinks: "parse_field ps m = Inr (m', ps') \<Longrightarrow> ps_left ps' < ps_left ps"
  by (auto simp: parse_field_def fail_def res_simps split: if_splits dest!: expect_shrinks field_width_shrinks)

function parse_fields :: "parser \<Rightarrow> message \<Rightarrow> (message \<times> parser) res" where
  "parse_fields ps m =
     (if tok_kind (ps_current ps) = RBrace then Inr (m, ps)
      else rbind (parse_field ps m) (\<lambda>x. parse_fields (snd x) (fst x)))"
  by pat_completeness auto
termination
  by (relation "measure (\<lambda>(ps, m). ps_left ps)") (auto dest: parse_field_shrinks)

declare parse_fields.simps [simp del]

text \<open>The body of the message loop, given the messages read so far.\<close>

definition parse_message :: "parser \<Rightarrow> message list \<Rightarrow> (message \<times> parser) res" where
  "parse_message ps msgs =
     rbind (expect_ident ps ''message'') (\<lambda>ps.
     rbind (expect ps Ident) (\<lambda>(name, ps).
     rbind (expect ps String) (\<lambda>(type, ps).
     if length type \<noteq> 1 then fail ps ''message type must be exactly one byte''
     else if hd type \<in> set (map m_type msgs) then fail ps ''duplicate message type''
     else if name \<in> set (map m_name msgs) then fail ps ''duplicate message name''
     else
       rbind (expect ps LBrace) (\<lambda>(_, ps).
       rbind (parse_fields ps \<lparr>m_name = name, m_type = hd type, m_fields = [], m_size = 1\<rparr>) (\<lambda>(m, ps).
       rbind (expect ps RBrace) (\<lambda>(_, ps). Inr (m, ps)))))))"

lemma parse_fields_shrinks: "parse_fields ps m = Inr (m', ps') \<Longrightarrow> ps_left ps' \<le> ps_left ps"
proof (induction ps m rule: parse_fields.induct)
  case (1 ps m)
  show ?case
    using "1.prems" "1.IH" parse_field_shrinks [of ps m]
    by (subst (asm) parse_fields.simps) (fastforce simp: res_simps split: if_splits)
qed

lemma parse_message_shrinks: "parse_message ps msgs = Inr (m, ps') \<Longrightarrow> ps_left ps' < ps_left ps"
  by (auto simp: parse_message_def expect_ident_def fail_def res_simps split: if_splits
      dest!: expect_shrinks parse_fields_shrinks)

function schema_messages :: "parser \<Rightarrow> message list \<Rightarrow> message list res" where
  "schema_messages ps msgs =
     (if tok_kind (ps_current ps) = End then Inr msgs
      else rbind (parse_message ps msgs) (\<lambda>x. schema_messages (snd x) (msgs @ [fst x])))"
  by pat_completeness auto
termination
  by (relation "measure (\<lambda>(ps, msgs). ps_left ps)") (auto dest: parse_message_shrinks)

declare schema_messages.simps [simp del]

definition parse_schema :: "string \<Rightarrow> protocol res" where
  "parse_schema input =
     rbind (parser_init input) (\<lambda>ps.
     rbind (expect_ident ps ''protocol'') (\<lambda>ps.
     rbind (expect ps Ident) (\<lambda>(name, ps).
     rbind (expect ps Semicolon) (\<lambda>(_, ps).
     rbind (schema_messages ps []) (\<lambda>msgs.
     Inr \<lparr>p_name = name, p_messages = msgs\<rparr>)))))"

section \<open>Code generator\<close>

text \<open>The expression an accessor returns: a call of one of the byte readers on the view's bytes.\<close>

datatype read_call =
    Read_U8 u64
  | Read_U16 u64
  | Read_U32 u64
  | Read_U48 u64
  | Read_U64 u64
  | Read_Char u64
  | Read_Ascii u64 u64

definition snake_namespace :: "string \<Rightarrow> string" where
  "snake_namespace name =
     map (\<lambda>c. if 65 \<le> char_code c \<and> char_code c \<le> 90 then char_of (char_code c + 32) else c) name"

definition accessor_type :: "field \<Rightarrow> string res" where
  "accessor_type f =
     (if f_type f = ''u8'' then Inr ''std::uint8_t''
      else if f_type f = ''u16_be'' then Inr ''std::uint16_t''
      else if f_type f = ''u32_be'' \<or> f_type f = ''price4'' then Inr ''std::uint32_t''
      else if f_type f = ''u48_be'' \<or> f_type f = ''u64_be'' \<or> f_type f = ''price8'' then Inr ''std::uint64_t''
      else if f_type f = ''char'' then Inr ''char''
      else if f_type f = ''ascii'' then Inr ''std::string_view''
      else Inl (RuntimeError (''codegen: unsupported type '' @ f_type f)))"

definition accessor_call :: "field \<Rightarrow> read_call res" where
  "accessor_call f =
     (if f_type f = ''u8'' then Inr (Read_U8 (f_offset f))
      else if f_type f = ''u16_be'' then Inr (Read_U16 (f_offset f))
      else if f_type f = ''u32_be'' \<or> f_type f = ''price4'' then Inr (Read_U32 (f_offset f))
      else if f_type f = ''u48_be'' then Inr (Read_U48 (f_offset f))
      else if f_type f = ''u64_be'' \<or> f_type f = ''price8'' then Inr (Read_U64 (f_offset f))
      else if f_type f = ''char'' then Inr (Read_Char (f_offset f))
      else if f_type f = ''ascii'' then Inr (Read_Ascii (f_offset f) (f_width f))
      else Inl (RuntimeError (''codegen: unsupported type '' @ f_type f)))"

definition reader_text :: "string \<Rightarrow> u64 \<Rightarrow> string" where
  "reader_text name off = ''efe::'' @ name @ ''(bytes_, '' @ to_decimal (unat off)"

fun call_text :: "read_call \<Rightarrow> string" where
  "call_text (Read_U8 off) = reader_text ''read_u8'' off @ '')''"
| "call_text (Read_U16 off) = reader_text ''read_u16_be'' off @ '')''"
| "call_text (Read_U32 off) = reader_text ''read_u32_be'' off @ '')''"
| "call_text (Read_U48 off) = reader_text ''read_u48_be'' off @ '')''"
| "call_text (Read_U64 off) = reader_text ''read_u64_be'' off @ '')''"
| "call_text (Read_Char off) = reader_text ''read_char'' off @ '')''"
| "call_text (Read_Ascii off width) =
     reader_text ''read_ascii_view'' off @ '', '' @ to_decimal (unat width) @ '')''"

definition accessor_expr :: "field \<Rightarrow> string res" where
  "accessor_expr f = rbind (accessor_call f) (\<lambda>call. Inr (call_text call))"

text \<open>A newline, a double and a single quote.\<close>

definition nl :: string where
  "nl = [CHR 0x0A]"

definition dq :: string where
  "dq = [CHR 0x22]"

definition sq :: string where
  "sq = [CHR 0x27]"

fun emit_accessors :: "field list \<Rightarrow> string res" where
  "emit_accessors [] = Inr []"
| "emit_accessors (f # fs) =
     rbind (accessor_type f) (\<lambda>ty.
     rbind (accessor_expr f) (\<lambda>ex.
     rbind (emit_accessors fs) (\<lambda>rest.
     Inr (''    [[nodiscard]] '' @ ty @ '' '' @ f_name f @ ''() const { return '' @ ex @ ''; }'' @ nl @ rest))))"

definition emit_view :: "message \<Rightarrow> string res" where
  "emit_view m =
     rbind (emit_accessors (m_fields m)) (\<lambda>accessors.
     Inr (''class '' @ m_name m @ ''View {'' @ nl @ ''public:'' @ nl @
       ''    static constexpr char message_type = '' @ sq @
         [if m_type m = CHR 0x27 then CHR 0x5C else m_type m] @ sq @ '';'' @ nl @
       ''    static constexpr std::size_t encoded_size = '' @ to_decimal (unat (m_size m)) @ '';'' @ nl @
       ''    explicit '' @ m_name m @ ''View(std::span<const std::uint8_t> bytes) : bytes_(bytes) {'' @ nl @
       ''        if (bytes_.size() != encoded_size || bytes_[0] != static_cast<std::uint8_t>(message_type)) throw efe::DecodeError('' @
         dq @ ''invalid '' @ m_name m @ '' message'' @ dq @ '');'' @ nl @
       ''    }'' @ nl @ accessors @
       ''private:'' @ nl @ ''    std::span<const std::uint8_t> bytes_;'' @ nl @ ''};'' @ nl @ nl))"

fun emit_views :: "message list \<Rightarrow> string res" where
  "emit_views [] = Inr []"
| "emit_views (m # ms) =
     rbind (emit_view m) (\<lambda>v. rbind (emit_views ms) (\<lambda>rest. Inr (v @ rest)))"

definition emit_size_case :: "message \<Rightarrow> string" where
  "emit_size_case m =
     ''        case '' @ sq @ [m_type m] @ sq @ '': return '' @ m_name m @ ''View::encoded_size;'' @ nl"

definition emit_name_case :: "message \<Rightarrow> string" where
  "emit_name_case m =
     ''        case '' @ sq @ [m_type m] @ sq @ '': return '' @ dq @ m_name m @ dq @ '';'' @ nl"

definition emit :: "protocol \<Rightarrow> string res" where
  "emit p =
     (let ns = snake_namespace (p_name p) in
      rbind (emit_views (p_messages p)) (\<lambda>views.
      Inr (''// AUTO-GENERATED by efe_protocolc. Do not edit by hand.'' @ nl @
        ''#pragma once'' @ nl @ nl @
        ''#include '' @ dq @ ''efe/byte_reader.hpp'' @ dq @ nl @
        ''#include <cstddef>'' @ nl @ ''#include <cstdint>'' @ nl @ ''#include <optional>'' @ nl @
        ''#include <span>'' @ nl @ ''#include <string_view>'' @ nl @ nl @
        ''namespace efe::generated::'' @ ns @ '' {'' @ nl @ nl @ views @
        ''inline std::optional<std::size_t> message_size(char type) noexcept {'' @ nl @ ''    switch (type) {'' @ nl @
        concat (map emit_size_case (p_messages p)) @
        ''        default: return std::nullopt;'' @ nl @ ''    }'' @ nl @ ''}'' @ nl @ nl @
        ''inline std::string_view message_name(char type) noexcept {'' @ nl @ ''    switch (type) {'' @ nl @
        concat (map emit_name_case (p_messages p)) @
        ''        default: return '' @ dq @ ''Unknown'' @ dq @ '';'' @ nl @ ''    }'' @ nl @ ''}'' @ nl @ nl @
        ''}  // namespace efe::generated::'' @ ns @ nl)))"

text \<open>
  The directory part of a path, as \<open>parent_path\<close> of a POSIX path: what precedes the last component, without
  the slashes that end it unless it is the root.
\<close>

definition parent_path :: "string \<Rightarrow> string" where
  "parent_path path =
     (let dir = rev (dropWhile (\<lambda>c. c \<noteq> CHR ''/'') (rev path))
      in if list_all (\<lambda>c. c = CHR ''/'') dir then dir else rev (dropWhile (\<lambda>c. c = CHR ''/'') (rev dir)))"

text \<open>
  The command: the contents of the schema file, if it can be opened, what \<open>create_directories\<close> does on a
  path, which for the empty path depends on the implementation (libstdc++ and libc++ throw), and
  whether the output can be opened; the result is the exit code and the text given to the output
  stream. The code does not test whether the stream took the text.
\<close>

definition slurp :: "string option \<Rightarrow> string \<Rightarrow> string res" where
  "slurp contents path =
     (case contents of None \<Rightarrow> Inl (RuntimeError (''cannot open input: '' @ path)) | Some s \<Rightarrow> Inr s)"

definition emit_file :: "(string \<Rightarrow> unit res) \<Rightarrow> protocol \<Rightarrow> bool \<Rightarrow> string \<Rightarrow> string res" where
  "emit_file create_directories p can_write path =
     rbind (create_directories (parent_path path)) (\<lambda>_.
     if \<not> can_write then Inl (RuntimeError (''cannot open output: '' @ path)) else emit p)"

definition protocolc_main :: "(string \<Rightarrow> unit res) \<Rightarrow> string list \<Rightarrow> string option \<Rightarrow> bool \<Rightarrow> nat \<times> string option" where
  "protocolc_main create_directories args contents can_write =
     (if length args \<noteq> 2 then (2, None)
      else case rbind (slurp contents (args ! 0)) (\<lambda>source.
                rbind (parse_schema source) (\<lambda>p. emit_file create_directories p can_write (args ! 1))) of
             Inl _ \<Rightarrow> (1, None)
           | Inr out \<Rightarrow> (0, Some out))"

section \<open>What the generated code computes\<close>

text \<open>
  The views, as C++ reads the emitted text. Message types that are a quote or a backslash are
  outside this reading: the character literals emitted for them do not compile.
\<close>

datatype field_value = Val_U8 u8 | Val_U16 u16 | Val_U32 u32 | Val_U64 u64 | Val_Char u8 | Val_Text "u8 list"

fun eval_call :: "read_call \<Rightarrow> u8 list \<Rightarrow> field_value res" where
  "eval_call (Read_U8 off) bytes = rbind (read_u8 bytes (unat off)) (\<lambda>v. Inr (Val_U8 v))"
| "eval_call (Read_U16 off) bytes = rbind (read_u16_be bytes (unat off)) (\<lambda>v. Inr (Val_U16 v))"
| "eval_call (Read_U32 off) bytes = rbind (read_u32_be bytes (unat off)) (\<lambda>v. Inr (Val_U32 v))"
| "eval_call (Read_U48 off) bytes = rbind (read_u48_be bytes (unat off)) (\<lambda>v. Inr (Val_U64 v))"
| "eval_call (Read_U64 off) bytes = rbind (read_u64_be bytes (unat off)) (\<lambda>v. Inr (Val_U64 v))"
| "eval_call (Read_Char off) bytes = rbind (read_char bytes (unat off)) (\<lambda>v. Inr (Val_Char v))"
| "eval_call (Read_Ascii off width) bytes = rbind (read_ascii_view bytes (unat off) (unat width)) (\<lambda>v. Inr (Val_Text v))"

text \<open>The constructor of a view: the size check, then the type byte.\<close>

definition view_ctor :: "message \<Rightarrow> u8 list \<Rightarrow> unit res" where
  "view_ctor m bytes =
     (if length bytes \<noteq> unat (m_size m) then Inl (DecodeError (''invalid '' @ m_name m @ '' message''))
      else rbind (span_at bytes 0) (\<lambda>b.
           if b \<noteq> ch (m_type m) then Inl (DecodeError (''invalid '' @ m_name m @ '' message'')) else Inr ()))"

definition view_get :: "field \<Rightarrow> u8 list \<Rightarrow> field_value res" where
  "view_get f bytes = rbind (accessor_call f) (\<lambda>call. eval_call call bytes)"

definition gen_message_size :: "protocol \<Rightarrow> u8 \<Rightarrow> nat option" where
  "gen_message_size p t = map_option (\<lambda>m. unat (m_size m)) (List.find (\<lambda>m. ch (m_type m) = t) (p_messages p))"

definition gen_message_name :: "protocol \<Rightarrow> u8 \<Rightarrow> string" where
  "gen_message_name p t =
     (case List.find (\<lambda>m. ch (m_type m) = t) (p_messages p) of None \<Rightarrow> ''Unknown'' | Some m \<Rightarrow> m_name m)"

end
