(* ===== verification/Schema_Text.thy ===== *)
theory Schema_Text
  imports Protocolc
begin

text \<open>
  What schemas the protocol compiler accepts and what it makes of them: a protocol it returns is
  well-formed, and a well-formed protocol written out as a schema is read back unchanged.
\<close>

section \<open>Well-formed protocols\<close>

definition is_ident :: "string \<Rightarrow> bool" where
  "is_ident s \<longleftrightarrow> s \<noteq> [] \<and> (is_alpha (hd s) \<or> hd s = CHR ''_'') \<and> list_all ident_char s"

definition field_ok :: "field \<Rightarrow> bool" where
  "field_ok f \<longleftrightarrow> is_ident (f_name f) \<and>
     (if f_type f = ''ascii'' then f_width f \<noteq> 0 else type_width (f_type f) = Inr (f_width f))"

text \<open>Fields follow each other without gaps; offsets and sizes are 64-bit sums.\<close>

fun layout_ok :: "u64 \<Rightarrow> field list \<Rightarrow> u64 \<Rightarrow> bool" where
  "layout_ok off [] sz \<longleftrightarrow> sz = off"
| "layout_ok off (f # fs) sz \<longleftrightarrow> f_offset f = off \<and> layout_ok (off + f_width f) fs sz"

definition message_ok :: "message \<Rightarrow> bool" where
  "message_ok m \<longleftrightarrow> is_ident (m_name m) \<and> m_type m \<noteq> CHR 0x22 \<and> m_type m \<noteq> CHR 0x0A \<and>
     list_all field_ok (m_fields m) \<and> distinct (map f_name (m_fields m)) \<and> layout_ok 1 (m_fields m) (m_size m)"

definition protocol_ok :: "protocol \<Rightarrow> bool" where
  "protocol_ok p \<longleftrightarrow> is_ident (p_name p) \<and> list_all message_ok (p_messages p) \<and>
     distinct (map m_type (p_messages p)) \<and> distinct (map m_name (p_messages p))"

section \<open>Schema text\<close>

definition unlines :: "string list \<Rightarrow> string" where
  "unlines ls = concat (map (\<lambda>l. l @ nl) ls)"

definition type_text :: "field \<Rightarrow> string" where
  "type_text f = (if f_type f = ''ascii'' then ''ascii['' @ to_decimal (unat (f_width f)) @ '']'' else f_type f)"

definition field_line :: "field \<Rightarrow> string" where
  "field_line f = ''    '' @ f_name f @ '': '' @ type_text f @ '';''"

definition message_lines :: "message \<Rightarrow> string list" where
  "message_lines m =
     [[], ''message '' @ m_name m @ '' '' @ dq @ [m_type m] @ dq @ '' {''] @ map field_line (m_fields m) @ [''}'']"

definition schema_text :: "protocol \<Rightarrow> string" where
  "schema_text p = unlines ((''protocol '' @ p_name p @ '';'') # concat (map message_lines (p_messages p)))"

section \<open>Lexing\<close>

text \<open>
  \<open>lexes s k t r\<close>: on input \<open>s\<close> the lexer returns a token of kind \<open>k\<close> and text \<open>t\<close> and stops before
  \<open>r\<close>. Lines are counted but do not matter.
\<close>

definition lexes :: "string \<Rightarrow> token_kind \<Rightarrow> string \<Rightarrow> string \<Rightarrow> bool" where
  "lexes s k t r \<longleftrightarrow> (\<forall>line. \<exists>line' ln. lex_next \<lparr>lx_rest = s, lx_line = line\<rparr> =
     Inr (\<lparr>tok_kind = k, tok_text = t, tok_line = ln\<rparr>, \<lparr>lx_rest = r, lx_line = line'\<rparr>))"

lemma lexes_skip:
  assumes "\<And>line. \<exists>line'. skip_ws_comments s line = skip_ws_comments s' line'" and "lexes s' k t r"
  shows "lexes s k t r"
proof -
  have "\<exists>line' ln. lex_next \<lparr>lx_rest = s, lx_line = line\<rparr> =
      Inr (\<lparr>tok_kind = k, tok_text = t, tok_line = ln\<rparr>, \<lparr>lx_rest = r, lx_line = line'\<rparr>)" for line
  proof -
    from assms(1) obtain line' where "skip_ws_comments s line = skip_ws_comments s' line'" by blast
    then have "lex_next \<lparr>lx_rest = s, lx_line = line\<rparr> = lex_next \<lparr>lx_rest = s', lx_line = line'\<rparr>"
      by (simp add: lex_next_def)
    then show ?thesis using assms(2) by (simp add: lexes_def)
  qed
  then show ?thesis by (simp add: lexes_def)
qed

lemma lexes_space [intro]: "lexes s k t r \<Longrightarrow> lexes (CHR '' '' # s) k t r"
  by (rule lexes_skip [of _ s], rule exI, subst skip_ws_comments.simps) (simp_all add: is_space_def char_code_def)

lemma lexes_newline [intro]: "lexes s k t r \<Longrightarrow> lexes (CHR 0x0A # s) k t r"
  by (rule lexes_skip [of _ s], rule exI, subst skip_ws_comments.simps) simp_all

lemma skip_none:
  "\<not> is_space c \<Longrightarrow> c \<noteq> CHR 0x0A \<Longrightarrow> c \<noteq> CHR ''/'' \<Longrightarrow> skip_ws_comments (c # s) line = (c # s, line)"
  by (subst skip_ws_comments.simps) simp

lemma char_code_inject: "char_code c = n \<longleftrightarrow> c = char_of n" if "n < 256" for n
  using that by (auto simp: char_code_def)

lemma punct_Some:
  "punct c = Some k \<Longrightarrow> \<not> is_space c \<and> c \<noteq> CHR 0x0A \<and> c \<noteq> CHR ''/''"
  by (auto simp: punct_def is_space_def char_code_def split: if_splits)

lemma lexes_punct [intro]: "punct c = Some k \<Longrightarrow> lexes (c # r) k [c] r"
  using punct_Some [of c k] by (auto simp: lexes_def lex_next_def skip_none)

lemma alpha_start:
  assumes "is_alpha c \<or> c = CHR ''_''"
  shows "punct c = None" "\<not> is_space c" "c \<noteq> CHR 0x0A" "c \<noteq> CHR ''/''" "c \<noteq> CHR 0x22" "\<not> is_digit c" "ident_char c"
  using assms by (auto simp: is_alpha_def is_space_def is_digit_def punct_def char_code_def ident_char_def)

lemma digit_start:
  assumes "is_digit c"
  shows "punct c = None" "\<not> is_space c" "c \<noteq> CHR 0x0A" "c \<noteq> CHR ''/''" "c \<noteq> CHR 0x22"
  using assms by (auto simp: is_space_def is_digit_def punct_def char_code_def)

lemma take_drop_while:
  assumes "list_all P t" and "r = [] \<or> \<not> P (hd r)"
  shows "takeWhile P (t @ r) = t" and "dropWhile P (t @ r) = r"
  using assms by (induction t; cases r; auto)+

lemma lexes_ident [intro]:
  assumes "is_ident t" and "r = [] \<or> \<not> ident_char (hd r)"
  shows "lexes (t @ r) Ident t r"
proof -
  from assms(1) obtain c cs where t: "t = c # cs" and c: "is_alpha c \<or> c = CHR ''_''" and cs: "list_all ident_char cs"
    by (cases t) (auto simp: is_ident_def)
  show ?thesis
    using c alpha_start [OF c] take_drop_while [OF cs assms(2)]
    by (simp add: lexes_def lex_next_def skip_none t ident_token_def)
qed

lemma lexes_number [intro]:
  assumes "t \<noteq> []" and "list_all is_digit t" and "r = [] \<or> \<not> is_digit (hd r)"
  shows "lexes (t @ r) Number t r"
proof -
  from assms(1,2) obtain c cs where t: "t = c # cs" and c: "is_digit c" and cs: "list_all is_digit cs"
    by (cases t) auto
  show ?thesis
    using c digit_start [OF c] take_drop_while [OF cs assms(3)]
    by (simp add: lexes_def lex_next_def skip_none t number_token_def)
qed

lemma lexes_string1 [intro]:
  assumes "c \<noteq> CHR 0x22" and "c \<noteq> CHR 0x0A"
  shows "lexes (CHR 0x22 # c # CHR 0x22 # r) String [c] r"
proof -
  have "\<not> is_space (CHR 0x22)" "punct (CHR 0x22) = None" by (simp_all add: is_space_def punct_def char_code_def)
  with assms show ?thesis by (simp add: lexes_def lex_next_def skip_none string_token_def)
qed

lemma lexes_end [intro]: "lexes [] End [] []"
  by (simp add: lexes_def lex_next_def skip_ws_comments.simps)

section \<open>Numbers\<close>

lemma char_code_digit: "d < 10 \<Longrightarrow> char_code (char_of (48 + d)) = 48 + d"
  by (simp add: char_code_def)

lemma is_digit_char: "(d :: nat) < 10 \<Longrightarrow> is_digit (char_of (48 + d))"
  by (simp add: is_digit_def char_code_digit)

lemma to_decimal_digits: "list_all is_digit (to_decimal n) \<and> to_decimal n \<noteq> []"
proof (induction n rule: to_decimal.induct)
  case (1 n)
  then show ?case
    using is_digit_char [of n] is_digit_char [of "n mod 10"] by (subst (1 2) to_decimal.simps) auto
qed

lemma digits_value_snoc: "digits_value (s @ [c]) = digits_value s * 10 + (int (char_code c) - 48)"
  by (simp add: digits_value_def)

lemma digits_value_decimal: "digits_value (to_decimal n) = int n"
proof (induction n rule: to_decimal.induct)
  case (1 n)
  show ?case
  proof (cases "n < 10")
    case True
    then show ?thesis by (subst to_decimal.simps) (simp add: digits_value_def char_code_digit)
  next
    case False
    then have "digits_value (to_decimal n) = int (n div 10) * 10 + int (n mod 10)"
      using 1 by (subst to_decimal.simps) (simp add: digits_value_snoc char_code_digit)
    also have "\<dots> = int (n div 10 * 10 + n mod 10)" by (simp only: of_nat_add of_nat_mult of_nat_numeral)
    finally show ?thesis by (simp only: div_mult_mod_eq)
  qed
qed

lemma stoul_decimal: "stoul (to_decimal (unat w)) = Inr w"
proof -
  have "int (unat w) < 0x10000000000000000" using unat_u64_less [of w] by linarith
  then show ?thesis by (simp add: stoul_def digits_value_decimal)
qed

section \<open>Parsing\<close>

definition cur :: "parser \<Rightarrow> token_kind \<Rightarrow> string \<Rightarrow> string \<Rightarrow> bool" where
  "cur ps k t r \<longleftrightarrow> tok_kind (ps_current ps) = k \<and> tok_text (ps_current ps) = t \<and> lx_rest (ps_lexer ps) = r"

lemma expect_cur:
  assumes "cur ps k t r" and "lexes r k' t' r'"
  shows "\<exists>ps'. expect ps k = Inr (t, ps') \<and> cur ps' k' t' r'"
proof -
  obtain line where l: "ps_lexer ps = \<lparr>lx_rest = r, lx_line = line\<rparr>"
    using assms(1) by (cases "ps_lexer ps") (auto simp: cur_def)
  from assms(2) obtain line' ln where "lex_next \<lparr>lx_rest = r, lx_line = line\<rparr> =
      Inr (\<lparr>tok_kind = k', tok_text = t', tok_line = ln\<rparr>, \<lparr>lx_rest = r', lx_line = line'\<rparr>)"
    unfolding lexes_def by blast
  with assms(1) l show ?thesis by (auto simp: expect_def cur_def)
qed

lemma parser_init_cur:
  assumes "lexes s k t r"
  shows "\<exists>ps. parser_init s = Inr ps \<and> cur ps k t r"
proof -
  from assms obtain line' ln where "lex_next \<lparr>lx_rest = s, lx_line = 1\<rparr> =
      Inr (\<lparr>tok_kind = k, tok_text = t, tok_line = ln\<rparr>, \<lparr>lx_rest = r, lx_line = line'\<rparr>)"
    unfolding lexes_def by blast
  then show ?thesis by (simp add: parser_init_def cur_def)
qed

lemma expect_ident_cur:
  assumes "cur ps Ident t r" and "lexes r k' t' r'"
  shows "\<exists>ps'. expect_ident ps t = Inr ps' \<and> cur ps' k' t' r'"
  using expect_cur [OF assms] by (auto simp: expect_ident_def)

text \<open>The text of a type, after the colon, up to and including the semicolon.\<close>

lemma type_idents:
  "is_ident ''u8''" "is_ident ''char''" "is_ident ''u16_be''" "is_ident ''u32_be''" "is_ident ''price4''"
  "is_ident ''u48_be''" "is_ident ''u64_be''" "is_ident ''price8''" "is_ident ''ascii''"
  by (simp_all add: is_ident_def ident_char_def is_alpha_def is_digit_def char_code_def)

lemma type_width_cases:
  "type_width t = Inr w \<Longrightarrow>
   t \<in> {''u8'', ''char'', ''u16_be'', ''u32_be'', ''price4'', ''u48_be'', ''u64_be'', ''price8''}"
  by (rule ccontr) (simp add: type_width_def)

lemma is_ident_type: "type_width t = Inr w \<Longrightarrow> is_ident t \<and> t \<noteq> ''ascii''"
  using type_width_cases [of t w] type_idents by auto

lemma not_ident_chars [simp]:
  "\<not> ident_char (CHR '';'')" "\<not> ident_char (CHR '':'')" "\<not> ident_char (CHR ''['')" "\<not> ident_char (CHR '' '')"
  "\<not> is_digit (CHR '']'')"
  by (simp_all add: ident_char_def is_alpha_def is_digit_def char_code_def)

lemma punct_chars [simp]:
  "punct (CHR ''{'') = Some LBrace" "punct (CHR ''}'') = Some RBrace" "punct (CHR ''['') = Some LBracket"
  "punct (CHR '']'') = Some RBracket" "punct (CHR '':'') = Some Colon" "punct (CHR '';'') = Some Semicolon"
  by (simp_all add: punct_def)

lemma field_type_cur:
  assumes ok: "field_ok f" and ps: "cur ps Colon [CHR '':''] (CHR '' '' # type_text f @ CHR '';'' # r)"
  shows "\<exists>ps1 ps2 ps3. expect ps Colon = Inr ([CHR '':''], ps1) \<and> expect ps1 Ident = Inr (f_type f, ps2) \<and>
    field_width ps2 (f_type f) = Inr (f_width f, ps3) \<and> cur ps3 Semicolon [CHR '';''] r"
proof (cases "f_type f = ''ascii''")
  case True
  let ?n = "to_decimal (unat (f_width f))"
  have tx: "type_text f = ''ascii'' @ CHR ''['' # ?n @ [CHR '']'']" using True by (simp add: type_text_def)
  have l1: "lexes (CHR '' '' # type_text f @ CHR '';'' # r) Ident ''ascii'' (CHR ''['' # ?n @ CHR '']'' # CHR '';'' # r)"
    using lexes_space [OF lexes_ident [OF type_idents(9), of "CHR ''['' # ?n @ CHR '']'' # CHR '';'' # r"]] unfolding tx by simp
  obtain ps1 where 1: "expect ps Colon = Inr ([CHR '':''], ps1)"
    "cur ps1 Ident ''ascii'' (CHR ''['' # ?n @ CHR '']'' # CHR '';'' # r)"
    using expect_cur [OF ps l1] by blast
  obtain ps2 where 2: "expect ps1 Ident = Inr (''ascii'', ps2)" "cur ps2 LBracket [CHR ''[''] (?n @ CHR '']'' # CHR '';'' # r)"
    using expect_cur [OF 1(2) lexes_punct] punct_chars(3) by blast
  have "lexes (?n @ CHR '']'' # CHR '';'' # r) Number ?n (CHR '']'' # CHR '';'' # r)"
    using to_decimal_digits by (intro lexes_number) auto
  then obtain ps3 where 3: "expect ps2 LBracket = Inr ([CHR ''[''], ps3)" "cur ps3 Number ?n (CHR '']'' # CHR '';'' # r)"
    using expect_cur [OF 2(2)] by blast
  obtain ps4 where 4: "expect ps3 Number = Inr (?n, ps4)" "cur ps4 RBracket [CHR '']''] (CHR '';'' # r)"
    using expect_cur [OF 3(2) lexes_punct] punct_chars(4) by blast
  obtain ps5 where 5: "expect ps4 RBracket = Inr ([CHR '']''], ps5)" "cur ps5 Semicolon [CHR '';''] r"
    using expect_cur [OF 4(2) lexes_punct] punct_chars(6) by blast
  have "f_width f \<noteq> 0" using ok True by (simp add: field_ok_def)
  then have "field_width ps2 (f_type f) = Inr (f_width f, ps5)"
    using True 3 4 5 by (simp add: field_width_def stoul_decimal)
  with 1 2 5 True show ?thesis by auto
next
  case False
  then have w: "type_width (f_type f) = Inr (f_width f)" and tx: "type_text f = f_type f"
    using ok by (simp_all add: field_ok_def type_text_def)
  have l1: "lexes (CHR '' '' # type_text f @ CHR '';'' # r) Ident (f_type f) (CHR '';'' # r)"
    unfolding tx using is_ident_type [OF w] by (intro lexes_space lexes_ident) auto
  obtain ps1 where 1: "expect ps Colon = Inr ([CHR '':''], ps1)" "cur ps1 Ident (f_type f) (CHR '';'' # r)"
    using expect_cur [OF ps l1] by blast
  obtain ps2 where 2: "expect ps1 Ident = Inr (f_type f, ps2)" "cur ps2 Semicolon [CHR '';''] r"
    using expect_cur [OF 1(2) lexes_punct] punct_chars(6) by blast
  have "field_width ps2 (f_type f) = Inr (f_width f, ps2)" using False w by (simp add: field_width_def)
  with 1 2 show ?thesis by blast
qed

text \<open>One field; the lexer is left on the token that follows, whatever it is.\<close>

lemma parse_field_cur:
  assumes ok: "field_ok f" and fresh: "f_name f \<notin> set (map f_name (m_fields m))" and off: "f_offset f = m_size m"
    and ps: "cur ps Ident (f_name f) (CHR '':'' # CHR '' '' # type_text f @ CHR '';'' # r)" and nxt: "lexes r k t r'"
  shows "\<exists>ps'. parse_field ps m = Inr (m\<lparr>m_size := m_size m + f_width f, m_fields := m_fields m @ [f]\<rparr>, ps') \<and> cur ps' k t r'"
proof -
  obtain ps1 where 1: "expect ps Ident = Inr (f_name f, ps1)" "cur ps1 Colon [CHR '':''] (CHR '' '' # type_text f @ CHR '';'' # r)"
    using expect_cur [OF ps lexes_punct] punct_chars(5) by blast
  obtain ps2 ps3 ps4 where 2: "expect ps1 Colon = Inr ([CHR '':''], ps2)" "expect ps2 Ident = Inr (f_type f, ps3)"
    "field_width ps3 (f_type f) = Inr (f_width f, ps4)" "cur ps4 Semicolon [CHR '';''] r"
    using field_type_cur [OF ok 1(2)] by blast
  obtain ps5 where 3: "expect ps4 Semicolon = Inr ([CHR '';''], ps5)" "cur ps5 k t r'"
    using expect_cur [OF 2(4) nxt] by blast
  have f: "\<lparr>f_name = f_name f, f_type = f_type f, f_width = f_width f, f_offset = m_size m\<rparr> = f" using off by (cases f) simp
  show ?thesis using 1 2 3 fresh by (simp add: parse_field_def f)
qed

text \<open>The text of the fields of a message, up to the closing brace, and its first token.\<close>

definition fields_text :: "field list \<Rightarrow> string \<Rightarrow> string" where
  "fields_text fs r = concat (map (\<lambda>f. field_line f @ nl) fs) @ CHR ''}'' # r"

fun fields_cur :: "parser \<Rightarrow> field list \<Rightarrow> string \<Rightarrow> bool" where
  "fields_cur ps [] r = cur ps RBrace [CHR ''}''] r"
| "fields_cur ps (f # fs) r =
     cur ps Ident (f_name f) (CHR '':'' # CHR '' '' # type_text f @ CHR '';'' # CHR 0x0A # fields_text fs r)"

lemma fields_text_Cons:
  "fields_text (f # fs) r = ''    '' @ f_name f @ CHR '':'' # CHR '' '' # type_text f @ CHR '';'' # CHR 0x0A # fields_text fs r"
  by (simp add: fields_text_def field_line_def nl_def)

lemma fields_lexes:
  assumes "list_all field_ok fs"
  obtains k t r' where "lexes (fields_text fs r) k t r'" "\<And>ps. cur ps k t r' \<Longrightarrow> fields_cur ps fs r"
proof (cases fs)
  case Nil
  have "lexes (CHR ''}'' # r) RBrace [CHR ''}''] r" by (intro lexes_punct) simp
  with Nil that [of RBrace "[CHR ''}'']" r] show ?thesis by (simp add: fields_text_def)
next
  case (Cons f fs')
  let ?r = "CHR '':'' # CHR '' '' # type_text f @ CHR '';'' # CHR 0x0A # fields_text fs' r"
  have "is_ident (f_name f)" using assms Cons by (simp add: field_ok_def)
  then have "lexes (f_name f @ ?r) Ident (f_name f) ?r" by (intro lexes_ident) auto
  then have "lexes (fields_text fs r) Ident (f_name f) ?r" unfolding Cons fields_text_Cons by (simp add: lexes_space)
  with Cons that [of Ident "f_name f" ?r] show ?thesis by simp
qed

lemma parse_fields_cur:
  "list_all field_ok fs \<Longrightarrow> distinct (map f_name (m_fields m @ fs)) \<Longrightarrow> layout_ok (m_size m) fs sz \<Longrightarrow>
   fields_cur ps fs r \<Longrightarrow>
   \<exists>ps'. parse_fields ps m = Inr (m\<lparr>m_fields := m_fields m @ fs, m_size := sz\<rparr>, ps') \<and> cur ps' RBrace [CHR ''}''] r"
proof (induction fs arbitrary: m ps)
  case Nil
  then show ?case by (subst parse_fields.simps) (simp add: cur_def)
next
  case (Cons f fs)
  have ok: "field_ok f" "list_all field_ok fs" "f_name f \<notin> set (map f_name (m_fields m))" "f_offset f = m_size m"
    using Cons.prems by auto
  obtain k t r' where l: "lexes (fields_text fs r) k t r'" "\<And>ps. cur ps k t r' \<Longrightarrow> fields_cur ps fs r"
    using fields_lexes [OF ok(2)] by blast
  let ?m = "m\<lparr>m_size := m_size m + f_width f, m_fields := m_fields m @ [f]\<rparr>"
  obtain ps' where ps': "parse_field ps m = Inr (?m, ps')" "cur ps' k t r'"
    using parse_field_cur [OF ok(1,3,4) _ lexes_newline [OF l(1)]] Cons.prems(4) by auto
  have "\<exists>ps''. parse_fields ps' ?m = Inr (?m\<lparr>m_fields := m_fields ?m @ fs, m_size := sz\<rparr>, ps'') \<and> cur ps'' RBrace [CHR ''}''] r"
    using Cons.prems ok(2) l(2) [OF ps'(2)] by (intro Cons.IH) auto
  moreover have "tok_kind (ps_current ps) \<noteq> RBrace" using Cons.prems(4) by (simp add: cur_def)
  ultimately show ?case using ps'(1) by (subst parse_fields.simps) auto
qed

text \<open>A message after its keyword, and the messages.\<close>

definition message_text :: "message \<Rightarrow> string \<Rightarrow> string" where
  "message_text m r =
     CHR '' '' # m_name m @ CHR '' '' # CHR 0x22 # m_type m # CHR 0x22 # CHR '' '' # CHR ''{'' # CHR 0x0A #
       fields_text (m_fields m) (CHR 0x0A # r)"

lemma parse_message_cur:
  assumes ok: "message_ok m" and fresh: "m_type m \<notin> set (map m_type msgs)" "m_name m \<notin> set (map m_name msgs)"
    and ps: "cur ps Ident ''message'' (message_text m r)" and nxt: "lexes r k t r'"
  shows "\<exists>ps'. parse_message ps msgs = Inr (m, ps') \<and> cur ps' k t r'"
proof -
  let ?r1 = "CHR '' '' # CHR 0x22 # m_type m # CHR 0x22 # CHR '' '' # CHR ''{'' # CHR 0x0A # fields_text (m_fields m) (CHR 0x0A # r)"
  let ?r2 = "CHR '' '' # CHR ''{'' # CHR 0x0A # fields_text (m_fields m) (CHR 0x0A # r)"
  let ?r3 = "CHR 0x0A # fields_text (m_fields m) (CHR 0x0A # r)"
  have mok: "is_ident (m_name m)" "m_type m \<noteq> CHR 0x22" "m_type m \<noteq> CHR 0x0A" "list_all field_ok (m_fields m)"
    "distinct (map f_name (m_fields m))" "layout_ok 1 (m_fields m) (m_size m)"
    using ok by (simp_all add: message_ok_def)
  have "lexes (message_text m r) Ident (m_name m) ?r1"
    unfolding message_text_def using mok(1) by (intro lexes_space lexes_ident) auto
  then obtain ps1 where 1: "expect_ident ps ''message'' = Inr ps1" "cur ps1 Ident (m_name m) ?r1"
    using expect_ident_cur [OF ps] by blast
  have "lexes ?r1 String [m_type m] ?r2" using mok by (intro lexes_space lexes_string1) auto
  then obtain ps2 where 2: "expect ps1 Ident = Inr (m_name m, ps2)" "cur ps2 String [m_type m] ?r2"
    using expect_cur [OF 1(2)] by blast
  have "lexes ?r2 LBrace [CHR ''{''] ?r3" by (intro lexes_space lexes_punct) simp
  then obtain ps3 where 3: "expect ps2 String = Inr ([m_type m], ps3)" "cur ps3 LBrace [CHR ''{''] ?r3"
    using expect_cur [OF 2(2)] by blast
  obtain k1 t1 r1 where l: "lexes (fields_text (m_fields m) (CHR 0x0A # r)) k1 t1 r1"
    "\<And>ps. cur ps k1 t1 r1 \<Longrightarrow> fields_cur ps (m_fields m) (CHR 0x0A # r)"
    using fields_lexes [OF mok(4)] by blast
  obtain ps4 where 4: "expect ps3 LBrace = Inr ([CHR ''{''], ps4)" "fields_cur ps4 (m_fields m) (CHR 0x0A # r)"
    using expect_cur [OF 3(2) lexes_newline [OF l(1)]] l(2) by blast
  let ?m = "\<lparr>m_name = m_name m, m_type = m_type m, m_fields = [], m_size = 1\<rparr>"
  obtain ps5 where 5: "parse_fields ps4 ?m = Inr (?m\<lparr>m_fields := m_fields m, m_size := m_size m\<rparr>, ps5)"
    "cur ps5 RBrace [CHR ''}''] (CHR 0x0A # r)"
    using parse_fields_cur [OF mok(4), of ?m "m_size m" ps4 "CHR 0x0A # r"] mok(5,6) 4(2) by auto
  obtain ps6 where 6: "expect ps5 RBrace = Inr ([CHR ''}''], ps6)" "cur ps6 k t r'"
    using expect_cur [OF 5(2) lexes_newline [OF nxt]] by blast
  have "?m\<lparr>m_fields := m_fields m, m_size := m_size m\<rparr> = m" by (cases m) simp
  then show ?thesis using 1 2 3 4 5 6 fresh by (simp add: parse_message_def)
qed

definition messages_text :: "message list \<Rightarrow> string" where
  "messages_text ms = unlines (concat (map message_lines ms))"

fun messages_cur :: "parser \<Rightarrow> message list \<Rightarrow> bool" where
  "messages_cur ps [] = cur ps End [] []"
| "messages_cur ps (m # ms) = cur ps Ident ''message'' (message_text m (messages_text ms))"

lemma messages_text_Cons:
  "messages_text (m # ms) = CHR 0x0A # ''message'' @ message_text m (messages_text ms)"
  by (simp add: messages_text_def unlines_def message_lines_def message_text_def nl_def dq_def fields_text_def o_def)

lemma messages_lexes:
  obtains k t r where "lexes (messages_text ms) k t r" "\<And>ps. cur ps k t r \<Longrightarrow> messages_cur ps ms"
proof (cases ms)
  case Nil
  with that [of End "[]" "[]"] show ?thesis by (simp add: messages_text_def unlines_def lexes_end)
next
  case (Cons m ms')
  have "is_ident ''message''" by (simp add: is_ident_def ident_char_def is_alpha_def is_digit_def char_code_def)
  then have "lexes (messages_text ms) Ident ''message'' (message_text m (messages_text ms'))"
    unfolding Cons messages_text_Cons by (intro lexes_newline lexes_ident) (auto simp: message_text_def)
  with Cons that show ?thesis by fastforce
qed

lemma schema_messages_cur:
  "list_all message_ok ms \<Longrightarrow> distinct (map m_type (msgs @ ms)) \<Longrightarrow> distinct (map m_name (msgs @ ms)) \<Longrightarrow>
   messages_cur ps ms \<Longrightarrow> schema_messages ps msgs = Inr (msgs @ ms)"
proof (induction ms arbitrary: msgs ps)
  case Nil
  then show ?case by (subst schema_messages.simps) (simp add: cur_def)
next
  case (Cons m ms)
  have fresh: "m_type m \<notin> set (map m_type msgs)" "m_name m \<notin> set (map m_name msgs)" "message_ok m"
    using Cons.prems(1-3) by auto
  obtain k t r where l: "lexes (messages_text ms) k t r" "\<And>ps. cur ps k t r \<Longrightarrow> messages_cur ps ms"
    using messages_lexes by blast
  obtain ps' where ps': "parse_message ps msgs = Inr (m, ps')" "cur ps' k t r"
    using parse_message_cur [OF fresh(3,1,2) _ l(1)] Cons.prems(4) by auto
  have "schema_messages ps' (msgs @ [m]) = Inr ((msgs @ [m]) @ ms)"
    using Cons.prems l(2) [OF ps'(2)] by (intro Cons.IH) auto
  moreover have "tok_kind (ps_current ps) \<noteq> End" using Cons.prems(4) by (simp add: cur_def)
  ultimately show ?case using ps'(1) by (subst schema_messages.simps) simp
qed

lemma parse_schema_text:
  assumes "protocol_ok p"
  shows "parse_schema (schema_text p) = Inr p"
proof -
  have ok: "is_ident (p_name p)" "list_all message_ok (p_messages p)" "distinct (map m_type (p_messages p))"
    "distinct (map m_name (p_messages p))"
    using assms by (simp_all add: protocol_ok_def)
  let ?r = "messages_text (p_messages p)"
  have tx: "schema_text p = ''protocol'' @ CHR '' '' # p_name p @ CHR '';'' # CHR 0x0A # ?r"
    by (simp add: schema_text_def messages_text_def unlines_def nl_def)
  have "is_ident ''protocol''" by (simp add: is_ident_def ident_char_def is_alpha_def is_digit_def char_code_def)
  then have "lexes (schema_text p) Ident ''protocol'' (CHR '' '' # p_name p @ CHR '';'' # CHR 0x0A # ?r)"
    unfolding tx by (intro lexes_ident) auto
  then obtain ps0 where 0: "parser_init (schema_text p) = Inr ps0"
    "cur ps0 Ident ''protocol'' (CHR '' '' # p_name p @ CHR '';'' # CHR 0x0A # ?r)"
    using parser_init_cur by blast
  have "lexes (CHR '' '' # p_name p @ CHR '';'' # CHR 0x0A # ?r) Ident (p_name p) (CHR '';'' # CHR 0x0A # ?r)"
    using ok(1) by (intro lexes_space lexes_ident) auto
  then obtain ps1 where 1: "expect_ident ps0 ''protocol'' = Inr ps1" "cur ps1 Ident (p_name p) (CHR '';'' # CHR 0x0A # ?r)"
    using expect_ident_cur [OF 0(2)] by blast
  obtain ps2 where 2: "expect ps1 Ident = Inr (p_name p, ps2)" "cur ps2 Semicolon [CHR '';''] (CHR 0x0A # ?r)"
    using expect_cur [OF 1(2) lexes_punct] punct_chars(6) by blast
  obtain k t r where l: "lexes ?r k t r" "\<And>ps. cur ps k t r \<Longrightarrow> messages_cur ps (p_messages p)"
    using messages_lexes by blast
  obtain ps3 where 3: "expect ps2 Semicolon = Inr ([CHR '';''], ps3)" "messages_cur ps3 (p_messages p)"
    using expect_cur [OF 2(2) lexes_newline [OF l(1)]] l(2) by blast
  have "schema_messages ps3 [] = Inr (p_messages p)"
    using schema_messages_cur [of "p_messages p" "[]" ps3] ok(2-4) 3(2) by simp
  with 0 1 2 3 show ?thesis by (simp add: parse_schema_def)
qed

section \<open>Accepted schemas\<close>

text \<open>What the text of a token can be, by its kind.\<close>

definition token_ok :: "token \<Rightarrow> bool" where
  "token_ok tok \<longleftrightarrow>
     (tok_kind tok = Ident \<longrightarrow> is_ident (tok_text tok)) \<and>
     (tok_kind tok = String \<longrightarrow> CHR 0x22 \<notin> set (tok_text tok) \<and> CHR 0x0A \<notin> set (tok_text tok))"

lemma string_body_chars: "string_body s = Inr (out, rest) \<Longrightarrow> CHR 0x22 \<notin> set out \<and> CHR 0x0A \<notin> set out"
  by (induction s arbitrary: out) (auto simp: res_simps split: if_splits)

lemma list_all_takeWhile: "list_all P (takeWhile P xs)"
  by (induction xs) auto

lemma lex_next_token_ok:
  assumes "lex_next lx = Inr (tok, lx')"
  shows "token_ok tok"
proof -
  obtain s line where sk: "skip_ws_comments (lx_rest lx) (lx_line lx) = (s, line)" by fastforce
  show ?thesis
  proof (cases s)
    case Nil
    then show ?thesis using assms sk by (auto simp: lex_next_def token_ok_def)
  next
    case (Cons c cs)
    note lx = assms [unfolded lex_next_def sk, simplified, unfolded Cons, simplified]
    show ?thesis
    proof (cases "punct c")
      case (Some k)
      then have "k \<noteq> Ident \<and> k \<noteq> String" by (auto simp: punct_def split: if_splits)
      with Some lx show ?thesis by (auto simp: token_ok_def)
    next
      case None
      have "is_ident (c # takeWhile ident_char cs)" if "is_alpha c \<or> c = CHR ''_''"
        using that alpha_start [OF that] by (simp add: is_ident_def list_all_takeWhile)
      with lx None string_body_chars [of cs] show ?thesis
        by (auto simp: string_token_def number_token_def ident_token_def Let_def rbind_Inr_iff token_ok_def split: if_splits)
    qed
  qed
qed

lemma expect_token_ok:
  assumes "expect ps k = Inr (t, ps')" and "token_ok (ps_current ps)"
  shows "token_ok (ps_current ps') \<and> (k = Ident \<longrightarrow> is_ident t) \<and>
    (k = String \<longrightarrow> CHR 0x22 \<notin> set t \<and> CHR 0x0A \<notin> set t)"
  using assms lex_next_token_ok [of "ps_lexer ps"]
  by (auto simp: expect_def fail_def rbind_Inr_iff token_ok_def split: if_splits)

lemma expect_ident_token_ok:
  assumes "expect_ident ps x = Inr ps'" and "token_ok (ps_current ps)"
  shows "token_ok (ps_current ps')"
  using assms expect_token_ok [of ps Ident] by (auto simp: expect_ident_def fail_def rbind_Inr_iff split: if_splits)

lemma layout_ok_snoc: "layout_ok off fs sz \<Longrightarrow> f_offset f = sz \<Longrightarrow> layout_ok off (fs @ [f]) (sz + f_width f)"
  by (induction fs arbitrary: off) auto

lemma field_width_ok:
  assumes "field_width ps type = Inr (w, ps')" and "token_ok (ps_current ps)"
  shows "token_ok (ps_current ps') \<and> (if type = ''ascii'' then w \<noteq> 0 else type_width type = Inr w)"
proof (cases "type = ''ascii''")
  case True
  with assms obtain ps1 ps2 ps3 num t1 t2 where
    "expect ps LBracket = Inr (t1, ps1)" "expect ps1 Number = Inr (num, ps2)" "expect ps2 RBracket = Inr (t2, ps3)"
    "w \<noteq> 0" "ps' = ps3"
    by (auto simp: field_width_def fail_def rbind_Inr_iff split: if_splits)
  with True assms(2) show ?thesis by (metis expect_token_ok)
next
  case False
  with assms show ?thesis by (auto simp: field_width_def rbind_Inr_iff)
qed

text \<open>The message under construction, and what a field adds to it.\<close>

definition message_part_ok :: "message \<Rightarrow> bool" where
  "message_part_ok m \<longleftrightarrow> list_all field_ok (m_fields m) \<and> distinct (map f_name (m_fields m)) \<and> layout_ok 1 (m_fields m) (m_size m)"

lemma parse_field_ok:
  assumes "parse_field ps m = Inr (m', ps')" and "token_ok (ps_current ps)" and "message_part_ok m"
  shows "token_ok (ps_current ps') \<and> message_part_ok m' \<and> m_name m' = m_name m \<and> m_type m' = m_type m"
proof -
  from assms(1) obtain name type w t1 t2 ps1 ps2 ps3 ps4 where
    e: "expect ps Ident = Inr (name, ps1)" "name \<notin> set (map f_name (m_fields m))" "expect ps1 Colon = Inr (t1, ps2)"
    "expect ps2 Ident = Inr (type, ps3)" "field_width ps3 type = Inr (w, ps4)" "expect ps4 Semicolon = Inr (t2, ps')"
    and m': "m' = m\<lparr>m_size := m_size m + w,
      m_fields := m_fields m @ [\<lparr>f_name = name, f_type = type, f_width = w, f_offset = m_size m\<rparr>]\<rparr>"
    unfolding parse_field_def by (auto simp: rbind_Inr_iff fail_def split: if_splits)
  have 1: "token_ok (ps_current ps1)" "is_ident name" using expect_token_ok [OF e(1) assms(2)] by auto
  have 2: "token_ok (ps_current ps2)" using expect_token_ok [OF e(3) 1(1)] by blast
  have 3: "token_ok (ps_current ps3)" using expect_token_ok [OF e(4) 2] by blast
  have 4: "token_ok (ps_current ps4)" "if type = ''ascii'' then w \<noteq> 0 else type_width type = Inr w"
    using field_width_ok [OF e(5) 3] by auto
  have 5: "token_ok (ps_current ps')" using expect_token_ok [OF e(6) 4(1)] by blast
  let ?f = "\<lparr>f_name = name, f_type = type, f_width = w, f_offset = m_size m\<rparr>"
  have "layout_ok 1 (m_fields m @ [?f]) (m_size m + f_width ?f)"
    using assms(3) by (intro layout_ok_snoc) (simp_all add: message_part_ok_def)
  moreover have "field_ok ?f" using 1 4 by (simp add: field_ok_def)
  ultimately show ?thesis using 5 e(2) assms(3) by (auto simp: message_part_ok_def m')
qed

lemma parse_fields_ok:
  "parse_fields ps m = Inr (m', ps') \<Longrightarrow> token_ok (ps_current ps) \<Longrightarrow> message_part_ok m \<Longrightarrow>
   token_ok (ps_current ps') \<and> message_part_ok m' \<and> m_name m' = m_name m \<and> m_type m' = m_type m"
proof (induction ps m rule: parse_fields.induct)
  case (1 ps m)
  show ?case
  proof (cases "tok_kind (ps_current ps) = RBrace")
    case True
    then show ?thesis using "1.prems" by (subst (asm) parse_fields.simps) simp
  next
    case False
    with "1.prems"(1) obtain m1 ps1 where p: "parse_field ps m = Inr (m1, ps1)" "parse_fields ps1 m1 = Inr (m', ps')"
      by (subst (asm) parse_fields.simps) (auto simp: rbind_Inr_iff)
    with parse_field_ok [OF p(1) "1.prems"(2,3)] "1.IH" [OF False p(1)] show ?thesis by simp
  qed
qed

lemma parse_message_ok:
  assumes "parse_message ps msgs = Inr (m, ps')" and "token_ok (ps_current ps)"
  shows "token_ok (ps_current ps') \<and> message_ok m \<and> m_type m \<notin> set (map m_type msgs) \<and> m_name m \<notin> set (map m_name msgs)"
proof -
  from assms(1) obtain name c t1 t2 ps1 ps2 ps3 ps4 ps5 where
    e: "expect_ident ps ''message'' = Inr ps1" "expect ps1 Ident = Inr (name, ps2)" "expect ps2 String = Inr ([c], ps3)"
    "expect ps3 LBrace = Inr (t1, ps4)"
    "parse_fields ps4 \<lparr>m_name = name, m_type = c, m_fields = [], m_size = 1\<rparr> = Inr (m, ps5)"
    "expect ps5 RBrace = Inr (t2, ps')"
    and fresh: "c \<notin> set (map m_type msgs)" "name \<notin> set (map m_name msgs)"
    unfolding parse_message_def by (auto simp: rbind_Inr_iff fail_def length_Suc_conv split: if_splits)
  have 1: "token_ok (ps_current ps1)" using expect_ident_token_ok [OF e(1) assms(2)] .
  have 2: "token_ok (ps_current ps2)" "is_ident name" using expect_token_ok [OF e(2) 1] by auto
  have 3: "token_ok (ps_current ps3)" "c \<noteq> CHR 0x22" "c \<noteq> CHR 0x0A" using expect_token_ok [OF e(3) 2(1)] by auto
  have 4: "token_ok (ps_current ps4)" using expect_token_ok [OF e(4) 3(1)] by blast
  have "message_part_ok \<lparr>m_name = name, m_type = c, m_fields = [], m_size = 1\<rparr>" by (simp add: message_part_ok_def)
  from parse_fields_ok [OF e(5) 4 this] have 5: "token_ok (ps_current ps5)" "message_part_ok m" "m_name m = name" "m_type m = c"
    by auto
  have "token_ok (ps_current ps')" using expect_token_ok [OF e(6) 5(1)] by blast
  with 2 3 5 fresh show ?thesis by (simp add: message_ok_def message_part_ok_def)
qed

lemma schema_messages_ok:
  "schema_messages ps msgs = Inr ms \<Longrightarrow> token_ok (ps_current ps) \<Longrightarrow>
   list_all message_ok msgs \<and> distinct (map m_type msgs) \<and> distinct (map m_name msgs) \<Longrightarrow>
   list_all message_ok ms \<and> distinct (map m_type ms) \<and> distinct (map m_name ms)"
proof (induction ps msgs rule: schema_messages.induct)
  case (1 ps msgs)
  show ?case
  proof (cases "tok_kind (ps_current ps) = End")
    case True
    then show ?thesis using "1.prems" by (subst (asm) schema_messages.simps) simp
  next
    case False
    with "1.prems"(1) obtain m ps1 where p: "parse_message ps msgs = Inr (m, ps1)" "schema_messages ps1 (msgs @ [m]) = Inr ms"
      by (subst (asm) schema_messages.simps) (auto simp: rbind_Inr_iff)
    with parse_message_ok [OF p(1) "1.prems"(2)] "1.IH" [OF False p(1)] "1.prems"(3) show ?thesis by auto
  qed
qed

lemma parse_schema_ok:
  assumes "parse_schema s = Inr p"
  shows "protocol_ok p"
proof -
  from assms obtain name ms t ps0 ps1 ps2 ps3 where
    e: "parser_init s = Inr ps0" "expect_ident ps0 ''protocol'' = Inr ps1" "expect ps1 Ident = Inr (name, ps2)"
    "expect ps2 Semicolon = Inr (t, ps3)" "schema_messages ps3 [] = Inr ms" and p: "p = \<lparr>p_name = name, p_messages = ms\<rparr>"
    unfolding parse_schema_def by (auto simp: rbind_Inr_iff)
  have 0: "token_ok (ps_current ps0)"
    using e(1) lex_next_token_ok [of "\<lparr>lx_rest = s, lx_line = 1\<rparr>"] by (auto simp: parser_init_def rbind_Inr_iff)
  have 1: "token_ok (ps_current ps1)" using expect_ident_token_ok [OF e(2) 0] .
  have 2: "token_ok (ps_current ps2)" "is_ident name" using expect_token_ok [OF e(3) 1] by auto
  have 3: "token_ok (ps_current ps3)" using expect_token_ok [OF e(4) 2(1)] by blast
  from schema_messages_ok [OF e(5) 3] 2(2) show ?thesis by (simp add: protocol_ok_def p)
qed

end
