(* ===== verification/Itch_Schema.thy ===== *)
theory Itch_Schema
  imports Schema_Text
begin

text \<open>
  The checked-in schema \<^verbatim>\<open>schemas/itch50.efe\<close>, line by line, the protocol it describes, and the
  proof that the protocol compiler reads the one from the other. The generated header
  \<^verbatim>\<open>efe/generated/itch50.hpp\<close> is a build product; its content is what the compiler emits for this
  protocol.
\<close>

section \<open>The schema file\<close>

definition itch50_schema :: string where
  "itch50_schema = unlines
    [''protocol NasdaqITCH50;'',
     '''',
     ''message SystemEvent \"S\" {'',
     ''    stock_locate: u16_be;'',
     ''    tracking_number: u16_be;'',
     ''    timestamp: u48_be;'',
     ''    event_code: char;'',
     ''}'',
     '''',
     ''message StockDirectory \"R\" {'',
     ''    stock_locate: u16_be;'',
     ''    tracking_number: u16_be;'',
     ''    timestamp: u48_be;'',
     ''    stock: ascii[8];'',
     ''    market_category: char;'',
     ''    financial_status_indicator: char;'',
     ''    round_lot_size: u32_be;'',
     ''    round_lots_only: char;'',
     ''    issue_classification: char;'',
     ''    issue_sub_type: ascii[2];'',
     ''    authenticity: char;'',
     ''    short_sale_threshold_indicator: char;'',
     ''    ipo_flag: char;'',
     ''    luld_reference_price_tier: char;'',
     ''    etp_flag: char;'',
     ''    etp_leverage_factor: u32_be;'',
     ''    inverse_indicator: char;'',
     ''}'',
     '''',
     ''message StockTradingAction \"H\" {'',
     ''    stock_locate: u16_be;'',
     ''    tracking_number: u16_be;'',
     ''    timestamp: u48_be;'',
     ''    stock: ascii[8];'',
     ''    trading_state: char;'',
     ''    reserved: char;'',
     ''    reason: ascii[4];'',
     ''}'',
     '''',
     ''message RegShoRestriction \"Y\" {'',
     ''    stock_locate: u16_be;'',
     ''    tracking_number: u16_be;'',
     ''    timestamp: u48_be;'',
     ''    stock: ascii[8];'',
     ''    reg_sho_action: char;'',
     ''}'',
     '''',
     ''message MarketParticipantPosition \"L\" {'',
     ''    stock_locate: u16_be;'',
     ''    tracking_number: u16_be;'',
     ''    timestamp: u48_be;'',
     ''    mpid: ascii[4];'',
     ''    stock: ascii[8];'',
     ''    primary_market_maker: char;'',
     ''    market_maker_mode: char;'',
     ''    market_participant_state: char;'',
     ''}'',
     '''',
     ''message MwcbDeclineLevel \"V\" {'',
     ''    stock_locate: u16_be;'',
     ''    tracking_number: u16_be;'',
     ''    timestamp: u48_be;'',
     ''    level1: price8;'',
     ''    level2: price8;'',
     ''    level3: price8;'',
     ''}'',
     '''',
     ''message MwcbStatus \"W\" {'',
     ''    stock_locate: u16_be;'',
     ''    tracking_number: u16_be;'',
     ''    timestamp: u48_be;'',
     ''    breached_level: char;'',
     ''}'',
     '''',
     ''message IpoQuotingPeriodUpdate \"K\" {'',
     ''    stock_locate: u16_be;'',
     ''    tracking_number: u16_be;'',
     ''    timestamp: u48_be;'',
     ''    stock: ascii[8];'',
     ''    ipo_quotation_release_time: u32_be;'',
     ''    ipo_quotation_release_qualifier: char;'',
     ''    ipo_price: price4;'',
     ''}'',
     '''',
     ''message LuldAuctionCollar \"J\" {'',
     ''    stock_locate: u16_be;'',
     ''    tracking_number: u16_be;'',
     ''    timestamp: u48_be;'',
     ''    stock: ascii[8];'',
     ''    auction_collar_reference_price: price4;'',
     ''    upper_auction_collar_price: price4;'',
     ''    lower_auction_collar_price: price4;'',
     ''    auction_collar_extension: u32_be;'',
     ''}'',
     '''',
     ''message OperationalHalt \"h\" {'',
     ''    stock_locate: u16_be;'',
     ''    tracking_number: u16_be;'',
     ''    timestamp: u48_be;'',
     ''    stock: ascii[8];'',
     ''    market_code: char;'',
     ''    operational_halt_action: char;'',
     ''}'',
     '''',
     ''message AddOrder \"A\" {'',
     ''    stock_locate: u16_be;'',
     ''    tracking_number: u16_be;'',
     ''    timestamp: u48_be;'',
     ''    order_reference: u64_be;'',
     ''    side: char;'',
     ''    shares: u32_be;'',
     ''    stock: ascii[8];'',
     ''    price: price4;'',
     ''}'',
     '''',
     ''message AddOrderWithMpid \"F\" {'',
     ''    stock_locate: u16_be;'',
     ''    tracking_number: u16_be;'',
     ''    timestamp: u48_be;'',
     ''    order_reference: u64_be;'',
     ''    side: char;'',
     ''    shares: u32_be;'',
     ''    stock: ascii[8];'',
     ''    price: price4;'',
     ''    attribution: ascii[4];'',
     ''}'',
     '''',
     ''message OrderExecuted \"E\" {'',
     ''    stock_locate: u16_be;'',
     ''    tracking_number: u16_be;'',
     ''    timestamp: u48_be;'',
     ''    order_reference: u64_be;'',
     ''    executed_shares: u32_be;'',
     ''    match_number: u64_be;'',
     ''}'',
     '''',
     ''message OrderExecutedWithPrice \"C\" {'',
     ''    stock_locate: u16_be;'',
     ''    tracking_number: u16_be;'',
     ''    timestamp: u48_be;'',
     ''    order_reference: u64_be;'',
     ''    executed_shares: u32_be;'',
     ''    match_number: u64_be;'',
     ''    printable: char;'',
     ''    execution_price: price4;'',
     ''}'',
     '''',
     ''message OrderCancel \"X\" {'',
     ''    stock_locate: u16_be;'',
     ''    tracking_number: u16_be;'',
     ''    timestamp: u48_be;'',
     ''    order_reference: u64_be;'',
     ''    canceled_shares: u32_be;'',
     ''}'',
     '''',
     ''message OrderDelete \"D\" {'',
     ''    stock_locate: u16_be;'',
     ''    tracking_number: u16_be;'',
     ''    timestamp: u48_be;'',
     ''    order_reference: u64_be;'',
     ''}'',
     '''',
     ''message OrderReplace \"U\" {'',
     ''    stock_locate: u16_be;'',
     ''    tracking_number: u16_be;'',
     ''    timestamp: u48_be;'',
     ''    original_order_reference: u64_be;'',
     ''    new_order_reference: u64_be;'',
     ''    shares: u32_be;'',
     ''    price: price4;'',
     ''}'',
     '''',
     ''message Trade \"P\" {'',
     ''    stock_locate: u16_be;'',
     ''    tracking_number: u16_be;'',
     ''    timestamp: u48_be;'',
     ''    order_reference: u64_be;'',
     ''    side: char;'',
     ''    shares: u32_be;'',
     ''    stock: ascii[8];'',
     ''    price: price4;'',
     ''    match_number: u64_be;'',
     ''}'',
     '''',
     ''message CrossTrade \"Q\" {'',
     ''    stock_locate: u16_be;'',
     ''    tracking_number: u16_be;'',
     ''    timestamp: u48_be;'',
     ''    shares: u64_be;'',
     ''    stock: ascii[8];'',
     ''    cross_price: price4;'',
     ''    match_number: u64_be;'',
     ''    cross_type: char;'',
     ''}'',
     '''',
     ''message BrokenTrade \"B\" {'',
     ''    stock_locate: u16_be;'',
     ''    tracking_number: u16_be;'',
     ''    timestamp: u48_be;'',
     ''    match_number: u64_be;'',
     ''}'',
     '''',
     ''message Noii \"I\" {'',
     ''    stock_locate: u16_be;'',
     ''    tracking_number: u16_be;'',
     ''    timestamp: u48_be;'',
     ''    paired_shares: u64_be;'',
     ''    imbalance_shares: u64_be;'',
     ''    imbalance_direction: char;'',
     ''    stock: ascii[8];'',
     ''    far_price: price4;'',
     ''    near_price: price4;'',
     ''    current_reference_price: price4;'',
     ''    cross_type: char;'',
     ''    price_variation_indicator: char;'',
     ''}'',
     '''',
     ''message RetailInterest \"N\" {'',
     ''    stock_locate: u16_be;'',
     ''    tracking_number: u16_be;'',
     ''    timestamp: u48_be;'',
     ''    stock: ascii[8];'',
     ''    interest_flag: char;'',
     ''}'',
     '''',
     ''message DirectListingCapitalRaise \"O\" {'',
     ''    stock_locate: u16_be;'',
     ''    tracking_number: u16_be;'',
     ''    timestamp: u48_be;'',
     ''    stock: ascii[8];'',
     ''    open_eligibility_status: char;'',
     ''    minimum_allowable_price: price4;'',
     ''    maximum_allowable_price: price4;'',
     ''    near_execution_price: price4;'',
     ''    near_execution_time: u64_be;'',
     ''    lower_price_range_collar: price4;'',
     ''    upper_price_range_collar: price4;'',
     ''}'']"

section \<open>The protocol\<close>

text \<open>
  Fields are given by name, type and width; offsets are the running sum from the type byte on.
  Every message starts with the same three fields.
\<close>

fun lay :: "u64 \<Rightarrow> (string \<times> string \<times> u64) list \<Rightarrow> field list" where
  "lay off [] = []"
| "lay off ((n, t, w) # fs) = \<lparr>f_name = n, f_type = t, f_width = w, f_offset = off\<rparr> # lay (off + w) fs"

definition header_fields :: "(string \<times> string \<times> u64) list" where
  "header_fields = [(''stock_locate'', ''u16_be'', 2), (''tracking_number'', ''u16_be'', 2), (''timestamp'', ''u48_be'', 6)]"

definition mk_message :: "string \<Rightarrow> char \<Rightarrow> (string \<times> string \<times> u64) list \<Rightarrow> message" where
  "mk_message n t fs =
     \<lparr>m_name = n, m_type = t, m_fields = lay 1 (header_fields @ fs),
      m_size = foldl (\<lambda>s (n, t, w). s + w) 1 (header_fields @ fs)\<rparr>"

definition msg_SystemEvent :: message where
  "msg_SystemEvent = mk_message ''SystemEvent'' (CHR ''S'')
     [(''event_code'', ''char'', 1)]"

definition msg_StockDirectory :: message where
  "msg_StockDirectory = mk_message ''StockDirectory'' (CHR ''R'')
     [(''stock'', ''ascii'', 8),
      (''market_category'', ''char'', 1),
      (''financial_status_indicator'', ''char'', 1),
      (''round_lot_size'', ''u32_be'', 4),
      (''round_lots_only'', ''char'', 1),
      (''issue_classification'', ''char'', 1),
      (''issue_sub_type'', ''ascii'', 2),
      (''authenticity'', ''char'', 1),
      (''short_sale_threshold_indicator'', ''char'', 1),
      (''ipo_flag'', ''char'', 1),
      (''luld_reference_price_tier'', ''char'', 1),
      (''etp_flag'', ''char'', 1),
      (''etp_leverage_factor'', ''u32_be'', 4),
      (''inverse_indicator'', ''char'', 1)]"

definition msg_StockTradingAction :: message where
  "msg_StockTradingAction = mk_message ''StockTradingAction'' (CHR ''H'')
     [(''stock'', ''ascii'', 8),
      (''trading_state'', ''char'', 1),
      (''reserved'', ''char'', 1),
      (''reason'', ''ascii'', 4)]"

definition msg_RegShoRestriction :: message where
  "msg_RegShoRestriction = mk_message ''RegShoRestriction'' (CHR ''Y'')
     [(''stock'', ''ascii'', 8),
      (''reg_sho_action'', ''char'', 1)]"

definition msg_MarketParticipantPosition :: message where
  "msg_MarketParticipantPosition = mk_message ''MarketParticipantPosition'' (CHR ''L'')
     [(''mpid'', ''ascii'', 4),
      (''stock'', ''ascii'', 8),
      (''primary_market_maker'', ''char'', 1),
      (''market_maker_mode'', ''char'', 1),
      (''market_participant_state'', ''char'', 1)]"

definition msg_MwcbDeclineLevel :: message where
  "msg_MwcbDeclineLevel = mk_message ''MwcbDeclineLevel'' (CHR ''V'')
     [(''level1'', ''price8'', 8),
      (''level2'', ''price8'', 8),
      (''level3'', ''price8'', 8)]"

definition msg_MwcbStatus :: message where
  "msg_MwcbStatus = mk_message ''MwcbStatus'' (CHR ''W'')
     [(''breached_level'', ''char'', 1)]"

definition msg_IpoQuotingPeriodUpdate :: message where
  "msg_IpoQuotingPeriodUpdate = mk_message ''IpoQuotingPeriodUpdate'' (CHR ''K'')
     [(''stock'', ''ascii'', 8),
      (''ipo_quotation_release_time'', ''u32_be'', 4),
      (''ipo_quotation_release_qualifier'', ''char'', 1),
      (''ipo_price'', ''price4'', 4)]"

definition msg_LuldAuctionCollar :: message where
  "msg_LuldAuctionCollar = mk_message ''LuldAuctionCollar'' (CHR ''J'')
     [(''stock'', ''ascii'', 8),
      (''auction_collar_reference_price'', ''price4'', 4),
      (''upper_auction_collar_price'', ''price4'', 4),
      (''lower_auction_collar_price'', ''price4'', 4),
      (''auction_collar_extension'', ''u32_be'', 4)]"

definition msg_OperationalHalt :: message where
  "msg_OperationalHalt = mk_message ''OperationalHalt'' (CHR ''h'')
     [(''stock'', ''ascii'', 8),
      (''market_code'', ''char'', 1),
      (''operational_halt_action'', ''char'', 1)]"

definition msg_AddOrder :: message where
  "msg_AddOrder = mk_message ''AddOrder'' (CHR ''A'')
     [(''order_reference'', ''u64_be'', 8),
      (''side'', ''char'', 1),
      (''shares'', ''u32_be'', 4),
      (''stock'', ''ascii'', 8),
      (''price'', ''price4'', 4)]"

definition msg_AddOrderWithMpid :: message where
  "msg_AddOrderWithMpid = mk_message ''AddOrderWithMpid'' (CHR ''F'')
     [(''order_reference'', ''u64_be'', 8),
      (''side'', ''char'', 1),
      (''shares'', ''u32_be'', 4),
      (''stock'', ''ascii'', 8),
      (''price'', ''price4'', 4),
      (''attribution'', ''ascii'', 4)]"

definition msg_OrderExecuted :: message where
  "msg_OrderExecuted = mk_message ''OrderExecuted'' (CHR ''E'')
     [(''order_reference'', ''u64_be'', 8),
      (''executed_shares'', ''u32_be'', 4),
      (''match_number'', ''u64_be'', 8)]"

definition msg_OrderExecutedWithPrice :: message where
  "msg_OrderExecutedWithPrice = mk_message ''OrderExecutedWithPrice'' (CHR ''C'')
     [(''order_reference'', ''u64_be'', 8),
      (''executed_shares'', ''u32_be'', 4),
      (''match_number'', ''u64_be'', 8),
      (''printable'', ''char'', 1),
      (''execution_price'', ''price4'', 4)]"

definition msg_OrderCancel :: message where
  "msg_OrderCancel = mk_message ''OrderCancel'' (CHR ''X'')
     [(''order_reference'', ''u64_be'', 8),
      (''canceled_shares'', ''u32_be'', 4)]"

definition msg_OrderDelete :: message where
  "msg_OrderDelete = mk_message ''OrderDelete'' (CHR ''D'')
     [(''order_reference'', ''u64_be'', 8)]"

definition msg_OrderReplace :: message where
  "msg_OrderReplace = mk_message ''OrderReplace'' (CHR ''U'')
     [(''original_order_reference'', ''u64_be'', 8),
      (''new_order_reference'', ''u64_be'', 8),
      (''shares'', ''u32_be'', 4),
      (''price'', ''price4'', 4)]"

definition msg_Trade :: message where
  "msg_Trade = mk_message ''Trade'' (CHR ''P'')
     [(''order_reference'', ''u64_be'', 8),
      (''side'', ''char'', 1),
      (''shares'', ''u32_be'', 4),
      (''stock'', ''ascii'', 8),
      (''price'', ''price4'', 4),
      (''match_number'', ''u64_be'', 8)]"

definition msg_CrossTrade :: message where
  "msg_CrossTrade = mk_message ''CrossTrade'' (CHR ''Q'')
     [(''shares'', ''u64_be'', 8),
      (''stock'', ''ascii'', 8),
      (''cross_price'', ''price4'', 4),
      (''match_number'', ''u64_be'', 8),
      (''cross_type'', ''char'', 1)]"

definition msg_BrokenTrade :: message where
  "msg_BrokenTrade = mk_message ''BrokenTrade'' (CHR ''B'')
     [(''match_number'', ''u64_be'', 8)]"

definition msg_Noii :: message where
  "msg_Noii = mk_message ''Noii'' (CHR ''I'')
     [(''paired_shares'', ''u64_be'', 8),
      (''imbalance_shares'', ''u64_be'', 8),
      (''imbalance_direction'', ''char'', 1),
      (''stock'', ''ascii'', 8),
      (''far_price'', ''price4'', 4),
      (''near_price'', ''price4'', 4),
      (''current_reference_price'', ''price4'', 4),
      (''cross_type'', ''char'', 1),
      (''price_variation_indicator'', ''char'', 1)]"

definition msg_RetailInterest :: message where
  "msg_RetailInterest = mk_message ''RetailInterest'' (CHR ''N'')
     [(''stock'', ''ascii'', 8),
      (''interest_flag'', ''char'', 1)]"

definition msg_DirectListingCapitalRaise :: message where
  "msg_DirectListingCapitalRaise = mk_message ''DirectListingCapitalRaise'' (CHR ''O'')
     [(''stock'', ''ascii'', 8),
      (''open_eligibility_status'', ''char'', 1),
      (''minimum_allowable_price'', ''price4'', 4),
      (''maximum_allowable_price'', ''price4'', 4),
      (''near_execution_price'', ''price4'', 4),
      (''near_execution_time'', ''u64_be'', 8),
      (''lower_price_range_collar'', ''price4'', 4),
      (''upper_price_range_collar'', ''price4'', 4)]"

definition itch50 :: protocol where
  "itch50 = \<lparr>p_name = ''NasdaqITCH50'', p_messages =
     [msg_SystemEvent,
      msg_StockDirectory,
      msg_StockTradingAction,
      msg_RegShoRestriction,
      msg_MarketParticipantPosition,
      msg_MwcbDeclineLevel,
      msg_MwcbStatus,
      msg_IpoQuotingPeriodUpdate,
      msg_LuldAuctionCollar,
      msg_OperationalHalt,
      msg_AddOrder,
      msg_AddOrderWithMpid,
      msg_OrderExecuted,
      msg_OrderExecutedWithPrice,
      msg_OrderCancel,
      msg_OrderDelete,
      msg_OrderReplace,
      msg_Trade,
      msg_CrossTrade,
      msg_BrokenTrade,
      msg_Noii,
      msg_RetailInterest,
      msg_DirectListingCapitalRaise]\<rparr>"

section \<open>The text of the protocol is the schema\<close>

named_theorems itch_msgs \<open>definitions of the messages\<close>
named_theorems itch_lines \<open>the schema lines of each message\<close>

declare msg_SystemEvent_def [itch_msgs] msg_StockDirectory_def [itch_msgs] msg_StockTradingAction_def [itch_msgs] msg_RegShoRestriction_def [itch_msgs] msg_MarketParticipantPosition_def [itch_msgs] msg_MwcbDeclineLevel_def [itch_msgs] msg_MwcbStatus_def [itch_msgs] msg_IpoQuotingPeriodUpdate_def [itch_msgs] msg_LuldAuctionCollar_def [itch_msgs] msg_OperationalHalt_def [itch_msgs] msg_AddOrder_def [itch_msgs] msg_AddOrderWithMpid_def [itch_msgs] msg_OrderExecuted_def [itch_msgs] msg_OrderExecutedWithPrice_def [itch_msgs] msg_OrderCancel_def [itch_msgs] msg_OrderDelete_def [itch_msgs] msg_OrderReplace_def [itch_msgs] msg_Trade_def [itch_msgs] msg_CrossTrade_def [itch_msgs] msg_BrokenTrade_def [itch_msgs] msg_Noii_def [itch_msgs] msg_RetailInterest_def [itch_msgs] msg_DirectListingCapitalRaise_def [itch_msgs]

lemma decimal_widths: "to_decimal 2 = ''2''" "to_decimal 4 = ''4''" "to_decimal 8 = ''8''"
  by code_simp+

lemmas message_lines_simps = mk_message_def header_fields_def message_lines_def field_line_def type_text_def dq_def decimal_widths

lemma lines_SystemEvent [itch_lines]:
  "message_lines msg_SystemEvent =
     ['''',
      ''message SystemEvent \"S\" {'',
      ''    stock_locate: u16_be;'',
      ''    tracking_number: u16_be;'',
      ''    timestamp: u48_be;'',
      ''    event_code: char;'',
      ''}'']"
  by (simp add: msg_SystemEvent_def message_lines_simps)

lemma lines_StockDirectory [itch_lines]:
  "message_lines msg_StockDirectory =
     ['''',
      ''message StockDirectory \"R\" {'',
      ''    stock_locate: u16_be;'',
      ''    tracking_number: u16_be;'',
      ''    timestamp: u48_be;'',
      ''    stock: ascii[8];'',
      ''    market_category: char;'',
      ''    financial_status_indicator: char;'',
      ''    round_lot_size: u32_be;'',
      ''    round_lots_only: char;'',
      ''    issue_classification: char;'',
      ''    issue_sub_type: ascii[2];'',
      ''    authenticity: char;'',
      ''    short_sale_threshold_indicator: char;'',
      ''    ipo_flag: char;'',
      ''    luld_reference_price_tier: char;'',
      ''    etp_flag: char;'',
      ''    etp_leverage_factor: u32_be;'',
      ''    inverse_indicator: char;'',
      ''}'']"
  by (simp add: msg_StockDirectory_def message_lines_simps)

lemma lines_StockTradingAction [itch_lines]:
  "message_lines msg_StockTradingAction =
     ['''',
      ''message StockTradingAction \"H\" {'',
      ''    stock_locate: u16_be;'',
      ''    tracking_number: u16_be;'',
      ''    timestamp: u48_be;'',
      ''    stock: ascii[8];'',
      ''    trading_state: char;'',
      ''    reserved: char;'',
      ''    reason: ascii[4];'',
      ''}'']"
  by (simp add: msg_StockTradingAction_def message_lines_simps)

lemma lines_RegShoRestriction [itch_lines]:
  "message_lines msg_RegShoRestriction =
     ['''',
      ''message RegShoRestriction \"Y\" {'',
      ''    stock_locate: u16_be;'',
      ''    tracking_number: u16_be;'',
      ''    timestamp: u48_be;'',
      ''    stock: ascii[8];'',
      ''    reg_sho_action: char;'',
      ''}'']"
  by (simp add: msg_RegShoRestriction_def message_lines_simps)

lemma lines_MarketParticipantPosition [itch_lines]:
  "message_lines msg_MarketParticipantPosition =
     ['''',
      ''message MarketParticipantPosition \"L\" {'',
      ''    stock_locate: u16_be;'',
      ''    tracking_number: u16_be;'',
      ''    timestamp: u48_be;'',
      ''    mpid: ascii[4];'',
      ''    stock: ascii[8];'',
      ''    primary_market_maker: char;'',
      ''    market_maker_mode: char;'',
      ''    market_participant_state: char;'',
      ''}'']"
  by (simp add: msg_MarketParticipantPosition_def message_lines_simps)

lemma lines_MwcbDeclineLevel [itch_lines]:
  "message_lines msg_MwcbDeclineLevel =
     ['''',
      ''message MwcbDeclineLevel \"V\" {'',
      ''    stock_locate: u16_be;'',
      ''    tracking_number: u16_be;'',
      ''    timestamp: u48_be;'',
      ''    level1: price8;'',
      ''    level2: price8;'',
      ''    level3: price8;'',
      ''}'']"
  by (simp add: msg_MwcbDeclineLevel_def message_lines_simps)

lemma lines_MwcbStatus [itch_lines]:
  "message_lines msg_MwcbStatus =
     ['''',
      ''message MwcbStatus \"W\" {'',
      ''    stock_locate: u16_be;'',
      ''    tracking_number: u16_be;'',
      ''    timestamp: u48_be;'',
      ''    breached_level: char;'',
      ''}'']"
  by (simp add: msg_MwcbStatus_def message_lines_simps)

lemma lines_IpoQuotingPeriodUpdate [itch_lines]:
  "message_lines msg_IpoQuotingPeriodUpdate =
     ['''',
      ''message IpoQuotingPeriodUpdate \"K\" {'',
      ''    stock_locate: u16_be;'',
      ''    tracking_number: u16_be;'',
      ''    timestamp: u48_be;'',
      ''    stock: ascii[8];'',
      ''    ipo_quotation_release_time: u32_be;'',
      ''    ipo_quotation_release_qualifier: char;'',
      ''    ipo_price: price4;'',
      ''}'']"
  by (simp add: msg_IpoQuotingPeriodUpdate_def message_lines_simps)

lemma lines_LuldAuctionCollar [itch_lines]:
  "message_lines msg_LuldAuctionCollar =
     ['''',
      ''message LuldAuctionCollar \"J\" {'',
      ''    stock_locate: u16_be;'',
      ''    tracking_number: u16_be;'',
      ''    timestamp: u48_be;'',
      ''    stock: ascii[8];'',
      ''    auction_collar_reference_price: price4;'',
      ''    upper_auction_collar_price: price4;'',
      ''    lower_auction_collar_price: price4;'',
      ''    auction_collar_extension: u32_be;'',
      ''}'']"
  by (simp add: msg_LuldAuctionCollar_def message_lines_simps)

lemma lines_OperationalHalt [itch_lines]:
  "message_lines msg_OperationalHalt =
     ['''',
      ''message OperationalHalt \"h\" {'',
      ''    stock_locate: u16_be;'',
      ''    tracking_number: u16_be;'',
      ''    timestamp: u48_be;'',
      ''    stock: ascii[8];'',
      ''    market_code: char;'',
      ''    operational_halt_action: char;'',
      ''}'']"
  by (simp add: msg_OperationalHalt_def message_lines_simps)

lemma lines_AddOrder [itch_lines]:
  "message_lines msg_AddOrder =
     ['''',
      ''message AddOrder \"A\" {'',
      ''    stock_locate: u16_be;'',
      ''    tracking_number: u16_be;'',
      ''    timestamp: u48_be;'',
      ''    order_reference: u64_be;'',
      ''    side: char;'',
      ''    shares: u32_be;'',
      ''    stock: ascii[8];'',
      ''    price: price4;'',
      ''}'']"
  by (simp add: msg_AddOrder_def message_lines_simps)

lemma lines_AddOrderWithMpid [itch_lines]:
  "message_lines msg_AddOrderWithMpid =
     ['''',
      ''message AddOrderWithMpid \"F\" {'',
      ''    stock_locate: u16_be;'',
      ''    tracking_number: u16_be;'',
      ''    timestamp: u48_be;'',
      ''    order_reference: u64_be;'',
      ''    side: char;'',
      ''    shares: u32_be;'',
      ''    stock: ascii[8];'',
      ''    price: price4;'',
      ''    attribution: ascii[4];'',
      ''}'']"
  by (simp add: msg_AddOrderWithMpid_def message_lines_simps)

lemma lines_OrderExecuted [itch_lines]:
  "message_lines msg_OrderExecuted =
     ['''',
      ''message OrderExecuted \"E\" {'',
      ''    stock_locate: u16_be;'',
      ''    tracking_number: u16_be;'',
      ''    timestamp: u48_be;'',
      ''    order_reference: u64_be;'',
      ''    executed_shares: u32_be;'',
      ''    match_number: u64_be;'',
      ''}'']"
  by (simp add: msg_OrderExecuted_def message_lines_simps)

lemma lines_OrderExecutedWithPrice [itch_lines]:
  "message_lines msg_OrderExecutedWithPrice =
     ['''',
      ''message OrderExecutedWithPrice \"C\" {'',
      ''    stock_locate: u16_be;'',
      ''    tracking_number: u16_be;'',
      ''    timestamp: u48_be;'',
      ''    order_reference: u64_be;'',
      ''    executed_shares: u32_be;'',
      ''    match_number: u64_be;'',
      ''    printable: char;'',
      ''    execution_price: price4;'',
      ''}'']"
  by (simp add: msg_OrderExecutedWithPrice_def message_lines_simps)

lemma lines_OrderCancel [itch_lines]:
  "message_lines msg_OrderCancel =
     ['''',
      ''message OrderCancel \"X\" {'',
      ''    stock_locate: u16_be;'',
      ''    tracking_number: u16_be;'',
      ''    timestamp: u48_be;'',
      ''    order_reference: u64_be;'',
      ''    canceled_shares: u32_be;'',
      ''}'']"
  by (simp add: msg_OrderCancel_def message_lines_simps)

lemma lines_OrderDelete [itch_lines]:
  "message_lines msg_OrderDelete =
     ['''',
      ''message OrderDelete \"D\" {'',
      ''    stock_locate: u16_be;'',
      ''    tracking_number: u16_be;'',
      ''    timestamp: u48_be;'',
      ''    order_reference: u64_be;'',
      ''}'']"
  by (simp add: msg_OrderDelete_def message_lines_simps)

lemma lines_OrderReplace [itch_lines]:
  "message_lines msg_OrderReplace =
     ['''',
      ''message OrderReplace \"U\" {'',
      ''    stock_locate: u16_be;'',
      ''    tracking_number: u16_be;'',
      ''    timestamp: u48_be;'',
      ''    original_order_reference: u64_be;'',
      ''    new_order_reference: u64_be;'',
      ''    shares: u32_be;'',
      ''    price: price4;'',
      ''}'']"
  by (simp add: msg_OrderReplace_def message_lines_simps)

lemma lines_Trade [itch_lines]:
  "message_lines msg_Trade =
     ['''',
      ''message Trade \"P\" {'',
      ''    stock_locate: u16_be;'',
      ''    tracking_number: u16_be;'',
      ''    timestamp: u48_be;'',
      ''    order_reference: u64_be;'',
      ''    side: char;'',
      ''    shares: u32_be;'',
      ''    stock: ascii[8];'',
      ''    price: price4;'',
      ''    match_number: u64_be;'',
      ''}'']"
  by (simp add: msg_Trade_def message_lines_simps)

lemma lines_CrossTrade [itch_lines]:
  "message_lines msg_CrossTrade =
     ['''',
      ''message CrossTrade \"Q\" {'',
      ''    stock_locate: u16_be;'',
      ''    tracking_number: u16_be;'',
      ''    timestamp: u48_be;'',
      ''    shares: u64_be;'',
      ''    stock: ascii[8];'',
      ''    cross_price: price4;'',
      ''    match_number: u64_be;'',
      ''    cross_type: char;'',
      ''}'']"
  by (simp add: msg_CrossTrade_def message_lines_simps)

lemma lines_BrokenTrade [itch_lines]:
  "message_lines msg_BrokenTrade =
     ['''',
      ''message BrokenTrade \"B\" {'',
      ''    stock_locate: u16_be;'',
      ''    tracking_number: u16_be;'',
      ''    timestamp: u48_be;'',
      ''    match_number: u64_be;'',
      ''}'']"
  by (simp add: msg_BrokenTrade_def message_lines_simps)

lemma lines_Noii [itch_lines]:
  "message_lines msg_Noii =
     ['''',
      ''message Noii \"I\" {'',
      ''    stock_locate: u16_be;'',
      ''    tracking_number: u16_be;'',
      ''    timestamp: u48_be;'',
      ''    paired_shares: u64_be;'',
      ''    imbalance_shares: u64_be;'',
      ''    imbalance_direction: char;'',
      ''    stock: ascii[8];'',
      ''    far_price: price4;'',
      ''    near_price: price4;'',
      ''    current_reference_price: price4;'',
      ''    cross_type: char;'',
      ''    price_variation_indicator: char;'',
      ''}'']"
  by (simp add: msg_Noii_def message_lines_simps)

lemma lines_RetailInterest [itch_lines]:
  "message_lines msg_RetailInterest =
     ['''',
      ''message RetailInterest \"N\" {'',
      ''    stock_locate: u16_be;'',
      ''    tracking_number: u16_be;'',
      ''    timestamp: u48_be;'',
      ''    stock: ascii[8];'',
      ''    interest_flag: char;'',
      ''}'']"
  by (simp add: msg_RetailInterest_def message_lines_simps)

lemma lines_DirectListingCapitalRaise [itch_lines]:
  "message_lines msg_DirectListingCapitalRaise =
     ['''',
      ''message DirectListingCapitalRaise \"O\" {'',
      ''    stock_locate: u16_be;'',
      ''    tracking_number: u16_be;'',
      ''    timestamp: u48_be;'',
      ''    stock: ascii[8];'',
      ''    open_eligibility_status: char;'',
      ''    minimum_allowable_price: price4;'',
      ''    maximum_allowable_price: price4;'',
      ''    near_execution_price: price4;'',
      ''    near_execution_time: u64_be;'',
      ''    lower_price_range_collar: price4;'',
      ''    upper_price_range_collar: price4;'',
      ''}'']"
  by (simp add: msg_DirectListingCapitalRaise_def message_lines_simps)

lemma itch50_text: "schema_text itch50 = itch50_schema"
  unfolding schema_text_def itch50_schema_def itch50_def
  by (simp only: protocol.simps list.map concat.simps append.simps itch_lines)

section \<open>The protocol is well-formed\<close>

named_theorems itch_ok \<open>the messages are well-formed\<close>

lemma layout_lay: "layout_ok off (lay off fs) (foldl (\<lambda>s (n, t, w). s + w) off fs)"
  by (induction off fs rule: lay.induct) auto

definition entry_ok :: "string \<times> string \<times> u64 \<Rightarrow> bool" where
  "entry_ok = (\<lambda>(n, t, w). is_ident n \<and> (if t = ''ascii'' then w \<noteq> 0 else type_width t = Inr w))"

lemma lay_fields: "list_all field_ok (lay off fs) \<longleftrightarrow> list_all entry_ok fs" "map f_name (lay off fs) = map fst fs"
  by (induction off fs rule: lay.induct) (auto simp: field_ok_def entry_ok_def)

lemma mk_message_ok:
  assumes "is_ident n" and "t \<noteq> CHR 0x22" and "t \<noteq> CHR 0x0A"
    and "list_all entry_ok (header_fields @ fs)" and "distinct (map fst (header_fields @ fs))"
  shows "message_ok (mk_message n t fs)"
  using assms layout_lay [of 1 "header_fields @ fs"] by (simp add: mk_message_def message_ok_def lay_fields)

lemmas ident_simps = is_ident_def ident_char_def is_alpha_def is_digit_def char_code_def

lemma header_fields_ok: "list_all entry_ok header_fields"
  by (simp add: header_fields_def entry_ok_def ident_simps type_width_def)

lemma ok_SystemEvent [itch_ok]: "message_ok msg_SystemEvent"
  unfolding msg_SystemEvent_def
  by (rule mk_message_ok) (simp_all add: header_fields_ok, simp_all add: entry_ok_def ident_simps type_width_def header_fields_def)

lemma ok_StockDirectory [itch_ok]: "message_ok msg_StockDirectory"
  unfolding msg_StockDirectory_def
  by (rule mk_message_ok) (simp_all add: header_fields_ok, simp_all add: entry_ok_def ident_simps type_width_def header_fields_def)

lemma ok_StockTradingAction [itch_ok]: "message_ok msg_StockTradingAction"
  unfolding msg_StockTradingAction_def
  by (rule mk_message_ok) (simp_all add: header_fields_ok, simp_all add: entry_ok_def ident_simps type_width_def header_fields_def)

lemma ok_RegShoRestriction [itch_ok]: "message_ok msg_RegShoRestriction"
  unfolding msg_RegShoRestriction_def
  by (rule mk_message_ok) (simp_all add: header_fields_ok, simp_all add: entry_ok_def ident_simps type_width_def header_fields_def)

lemma ok_MarketParticipantPosition [itch_ok]: "message_ok msg_MarketParticipantPosition"
  unfolding msg_MarketParticipantPosition_def
  by (rule mk_message_ok) (simp_all add: header_fields_ok, simp_all add: entry_ok_def ident_simps type_width_def header_fields_def)

lemma ok_MwcbDeclineLevel [itch_ok]: "message_ok msg_MwcbDeclineLevel"
  unfolding msg_MwcbDeclineLevel_def
  by (rule mk_message_ok) (simp_all add: header_fields_ok, simp_all add: entry_ok_def ident_simps type_width_def header_fields_def)

lemma ok_MwcbStatus [itch_ok]: "message_ok msg_MwcbStatus"
  unfolding msg_MwcbStatus_def
  by (rule mk_message_ok) (simp_all add: header_fields_ok, simp_all add: entry_ok_def ident_simps type_width_def header_fields_def)

lemma ok_IpoQuotingPeriodUpdate [itch_ok]: "message_ok msg_IpoQuotingPeriodUpdate"
  unfolding msg_IpoQuotingPeriodUpdate_def
  by (rule mk_message_ok) (simp_all add: header_fields_ok, simp_all add: entry_ok_def ident_simps type_width_def header_fields_def)

lemma ok_LuldAuctionCollar [itch_ok]: "message_ok msg_LuldAuctionCollar"
  unfolding msg_LuldAuctionCollar_def
  by (rule mk_message_ok) (simp_all add: header_fields_ok, simp_all add: entry_ok_def ident_simps type_width_def header_fields_def)

lemma ok_OperationalHalt [itch_ok]: "message_ok msg_OperationalHalt"
  unfolding msg_OperationalHalt_def
  by (rule mk_message_ok) (simp_all add: header_fields_ok, simp_all add: entry_ok_def ident_simps type_width_def header_fields_def)

lemma ok_AddOrder [itch_ok]: "message_ok msg_AddOrder"
  unfolding msg_AddOrder_def
  by (rule mk_message_ok) (simp_all add: header_fields_ok, simp_all add: entry_ok_def ident_simps type_width_def header_fields_def)

lemma ok_AddOrderWithMpid [itch_ok]: "message_ok msg_AddOrderWithMpid"
  unfolding msg_AddOrderWithMpid_def
  by (rule mk_message_ok) (simp_all add: header_fields_ok, simp_all add: entry_ok_def ident_simps type_width_def header_fields_def)

lemma ok_OrderExecuted [itch_ok]: "message_ok msg_OrderExecuted"
  unfolding msg_OrderExecuted_def
  by (rule mk_message_ok) (simp_all add: header_fields_ok, simp_all add: entry_ok_def ident_simps type_width_def header_fields_def)

lemma ok_OrderExecutedWithPrice [itch_ok]: "message_ok msg_OrderExecutedWithPrice"
  unfolding msg_OrderExecutedWithPrice_def
  by (rule mk_message_ok) (simp_all add: header_fields_ok, simp_all add: entry_ok_def ident_simps type_width_def header_fields_def)

lemma ok_OrderCancel [itch_ok]: "message_ok msg_OrderCancel"
  unfolding msg_OrderCancel_def
  by (rule mk_message_ok) (simp_all add: header_fields_ok, simp_all add: entry_ok_def ident_simps type_width_def header_fields_def)

lemma ok_OrderDelete [itch_ok]: "message_ok msg_OrderDelete"
  unfolding msg_OrderDelete_def
  by (rule mk_message_ok) (simp_all add: header_fields_ok, simp_all add: entry_ok_def ident_simps type_width_def header_fields_def)

lemma ok_OrderReplace [itch_ok]: "message_ok msg_OrderReplace"
  unfolding msg_OrderReplace_def
  by (rule mk_message_ok) (simp_all add: header_fields_ok, simp_all add: entry_ok_def ident_simps type_width_def header_fields_def)

lemma ok_Trade [itch_ok]: "message_ok msg_Trade"
  unfolding msg_Trade_def
  by (rule mk_message_ok) (simp_all add: header_fields_ok, simp_all add: entry_ok_def ident_simps type_width_def header_fields_def)

lemma ok_CrossTrade [itch_ok]: "message_ok msg_CrossTrade"
  unfolding msg_CrossTrade_def
  by (rule mk_message_ok) (simp_all add: header_fields_ok, simp_all add: entry_ok_def ident_simps type_width_def header_fields_def)

lemma ok_BrokenTrade [itch_ok]: "message_ok msg_BrokenTrade"
  unfolding msg_BrokenTrade_def
  by (rule mk_message_ok) (simp_all add: header_fields_ok, simp_all add: entry_ok_def ident_simps type_width_def header_fields_def)

lemma ok_Noii [itch_ok]: "message_ok msg_Noii"
  unfolding msg_Noii_def
  by (rule mk_message_ok) (simp_all add: header_fields_ok, simp_all add: entry_ok_def ident_simps type_width_def header_fields_def)

lemma ok_RetailInterest [itch_ok]: "message_ok msg_RetailInterest"
  unfolding msg_RetailInterest_def
  by (rule mk_message_ok) (simp_all add: header_fields_ok, simp_all add: entry_ok_def ident_simps type_width_def header_fields_def)

lemma ok_DirectListingCapitalRaise [itch_ok]: "message_ok msg_DirectListingCapitalRaise"
  unfolding msg_DirectListingCapitalRaise_def
  by (rule mk_message_ok) (simp_all add: header_fields_ok, simp_all add: entry_ok_def ident_simps type_width_def header_fields_def)

lemma itch50_names: "map m_name (p_messages itch50) = [''SystemEvent'', ''StockDirectory'', ''StockTradingAction'', ''RegShoRestriction'', ''MarketParticipantPosition'', ''MwcbDeclineLevel'', ''MwcbStatus'', ''IpoQuotingPeriodUpdate'', ''LuldAuctionCollar'', ''OperationalHalt'', ''AddOrder'', ''AddOrderWithMpid'', ''OrderExecuted'', ''OrderExecutedWithPrice'', ''OrderCancel'', ''OrderDelete'', ''OrderReplace'', ''Trade'', ''CrossTrade'', ''BrokenTrade'', ''Noii'', ''RetailInterest'', ''DirectListingCapitalRaise'']"
  by (simp add: itch50_def itch_msgs mk_message_def)

lemma itch50_ok: "protocol_ok itch50"
proof -
  have "list_all message_ok (p_messages itch50)" by (simp add: itch50_def itch_ok)
  moreover have "distinct (map m_type (p_messages itch50))" by (simp add: itch50_def itch_msgs mk_message_def)
  moreover have "distinct (map m_name (p_messages itch50))" unfolding itch50_names by simp
  moreover have "is_ident (p_name itch50)" by (simp add: itch50_def ident_simps)
  ultimately show ?thesis by (simp add: protocol_ok_def)
qed

text \<open>
  C31: the protocol compiler reads the checked-in ITCH 5.0 schema as the protocol the decoder's views
  are built from; its 23 messages have the lengths of the ITCH 5.0 specification.
\<close>

theorem itch50_compiled:
  "parse_schema itch50_schema = Inr itch50 \<and>
   map (\<lambda>m. (m_type m, unat (m_size m))) (p_messages itch50) =
     [(CHR ''S'', 12), (CHR ''R'', 39), (CHR ''H'', 25), (CHR ''Y'', 20), (CHR ''L'', 26), (CHR ''V'', 35), (CHR ''W'', 12),
      (CHR ''K'', 28), (CHR ''J'', 35), (CHR ''h'', 21), (CHR ''A'', 36), (CHR ''F'', 40), (CHR ''E'', 31), (CHR ''C'', 36),
      (CHR ''X'', 23), (CHR ''D'', 19), (CHR ''U'', 35), (CHR ''P'', 44), (CHR ''Q'', 40), (CHR ''B'', 19), (CHR ''I'', 50),
      (CHR ''N'', 20), (CHR ''O'', 48)]"
proof
  show "parse_schema itch50_schema = Inr itch50"
    using parse_schema_text [OF itch50_ok] by (simp only: itch50_text)
qed (simp add: itch50_def itch_msgs mk_message_def header_fields_def)

end
