(* ===== verification/Schema_Views.thy ===== *)
theory Schema_Views
  imports Schema_Text
begin

text \<open>
  What the protocol compiler guarantees of the views it generates: accepted schemas compile, the
  fields of a view tile the message, accessors of an accepted message never fail; and what it does
  not guarantee, since sizes are summed without an overflow check.
\<close>

section \<open>Errors of the compiler\<close>

definition schema_outcome :: "'a res \<Rightarrow> bool" where
  "schema_outcome r = (case r of Inl (RuntimeError _) \<Rightarrow> True | Inl (OutOfRange _) \<Rightarrow> True | Inl _ \<Rightarrow> False | Inr _ \<Rightarrow> True)"

lemma schema_outcome_simps [simp]:
  "schema_outcome (Inr x)" "schema_outcome (Inl (RuntimeError s))" "schema_outcome (Inl (OutOfRange s))"
  "schema_outcome (fail ps msg)"
  by (simp_all add: schema_outcome_def fail_def)

lemma schema_outcome_rbind:
  "schema_outcome m \<Longrightarrow> (\<And>x. m = Inr x \<Longrightarrow> schema_outcome (f x)) \<Longrightarrow> schema_outcome (rbind m f)"
  by (cases m) (auto simp: schema_outcome_def split: exn.splits)

lemma string_body_outcome: "schema_outcome (string_body s)"
  by (induction s) (auto intro!: schema_outcome_rbind split: prod.splits)

lemma lex_next_outcome: "schema_outcome (lex_next lx)"
  unfolding lex_next_def string_token_def Let_def
  by (auto simp: string_body_outcome intro!: schema_outcome_rbind split: prod.splits list.splits option.splits)

lemma expect_outcome: "schema_outcome (expect ps k)"
  unfolding expect_def by (auto simp: lex_next_outcome intro!: schema_outcome_rbind split: prod.splits)

lemma stoul_outcome: "schema_outcome (stoul s)"
  by (simp add: stoul_def)

lemma type_width_outcome: "schema_outcome (type_width t)"
  by (simp add: type_width_def)

lemma field_width_outcome: "schema_outcome (field_width ps t)"
  unfolding field_width_def split_beta
  by (auto simp: expect_outcome stoul_outcome type_width_outcome intro!: schema_outcome_rbind)

lemma parse_field_outcome: "schema_outcome (parse_field ps m)"
  unfolding parse_field_def split_beta
  by (auto simp: expect_outcome field_width_outcome intro!: schema_outcome_rbind)

lemma parse_fields_outcome: "schema_outcome (parse_fields ps m)"
proof (induction ps m rule: parse_fields.induct)
  case (1 ps m)
  then show ?case
    by (subst parse_fields.simps) (auto simp: parse_field_outcome intro!: schema_outcome_rbind)
qed

lemma parse_message_outcome: "schema_outcome (parse_message ps ms)"
  unfolding parse_message_def expect_ident_def split_beta
  by (auto simp: expect_outcome parse_fields_outcome intro!: schema_outcome_rbind)

lemma schema_messages_outcome: "schema_outcome (schema_messages ps ms)"
proof (induction ps ms rule: schema_messages.induct)
  case (1 ps ms)
  then show ?case
    by (subst schema_messages.simps) (auto simp: parse_message_outcome intro!: schema_outcome_rbind)
qed

text \<open>
  C27: the protocol compiler's parser always terminates; on every input it returns a protocol or
  throws one of its own errors (a lexer or parser error, or a number out of range).
\<close>

theorem parse_schema_total: "schema_outcome (parse_schema s)"
  unfolding parse_schema_def parser_init_def expect_ident_def split_beta
  by (auto simp: lex_next_outcome expect_outcome schema_messages_outcome intro!: schema_outcome_rbind)

section \<open>Accepted schemas compile\<close>

lemma accessor_ok:
  assumes "field_ok f"
  shows "\<exists>ty call. accessor_type f = Inr ty \<and> accessor_call f = Inr call"
proof (cases "f_type f = ''ascii''")
  case True
  then show ?thesis by (simp add: accessor_type_def accessor_call_def)
next
  case False
  with assms have "type_width (f_type f) = Inr (f_width f)" by (simp add: field_ok_def)
  from type_width_cases [OF this] show ?thesis by (auto simp: accessor_type_def accessor_call_def)
qed

lemma emit_accessors_ok: "list_all field_ok fs \<Longrightarrow> \<exists>t. emit_accessors fs = Inr t"
proof (induction fs)
  case (Cons f fs)
  then show ?case using accessor_ok [of f] by (auto simp: accessor_expr_def)
qed simp

lemma emit_views_ok: "list_all message_ok ms \<Longrightarrow> \<exists>t. emit_views ms = Inr t"
proof (induction ms)
  case (Cons m ms)
  then show ?case using emit_accessors_ok [of "m_fields m"] by (auto simp: emit_view_def message_ok_def)
qed simp

lemma emit_ok:
  assumes "protocol_ok p"
  shows "\<exists>out. emit p = Inr out"
proof -
  from assms obtain v where "emit_views (p_messages p) = Inr v"
    using emit_views_ok [of "p_messages p"] by (auto simp: protocol_ok_def)
  then show ?thesis unfolding emit_def Let_def by (simp only: rbind.simps) blast
qed

text \<open>
  C25: a schema the parser accepts is well-formed (distinct message types, message names and field
  names, known field types, no empty text field, consecutive field offsets after the type byte, as
  64-bit sums) and the code generator turns it into code. The command exits with 0, having given this code
  to the output stream, if the directory of the output could be created, or existed, and the output could be
  opened; otherwise it exits with 1 and writes nothing.
\<close>

theorem accepted_schema_compiles:
  assumes "parse_schema s = Inr p"
  shows "protocol_ok p \<and> (\<exists>out. emit p = Inr out \<and>
    protocolc_main create_directories [schema, header] (Some s) can_write =
      (if create_directories (parent_path header) = Inr () \<and> can_write then (0, Some out) else (1, None)))"
proof -
  have ok: "protocol_ok p" using assms by (rule parse_schema_ok)
  from emit_ok [OF ok] obtain out where "emit p = Inr out" by blast
  with ok assms show ?thesis
    by (cases "create_directories (parent_path header)") (simp_all add: protocolc_main_def slurp_def emit_file_def)
qed

definition sample_protocol :: protocol where
  "sample_protocol = \<lparr>p_name = ''T'', p_messages =
     [\<lparr>m_name = ''M'', m_type = CHR ''m'', m_fields =
        [\<lparr>f_name = ''a'', f_type = ''u16_be'', f_width = 2, f_offset = 1\<rparr>,
         \<lparr>f_name = ''b'', f_type = ''ascii'', f_width = 3, f_offset = 3\<rparr>], m_size = 6\<rparr>]\<rparr>"

lemma sample_protocol_ok: "protocol_ok sample_protocol"
  by (simp add: sample_protocol_def protocol_ok_def message_ok_def field_ok_def is_ident_def ident_char_def
      is_alpha_def is_digit_def char_code_def type_width_def)

text \<open>A file system on which every directory can be created, but the empty path is not a directory.\<close>

theorem accepted_schema_compiles_witness:
  "\<exists>out. emit sample_protocol = Inr out \<and>
    (let mkdirs = (\<lambda>d. if d = [] then Inl (RuntimeError ''invalid argument'') else Inr ()) in
     protocolc_main mkdirs [''t.efe'', ''gen/t.hpp''] (Some (schema_text sample_protocol)) True = (0, Some out) \<and>
     protocolc_main mkdirs [''t.efe'', ''t.hpp''] (Some (schema_text sample_protocol)) True = (1, None))"
proof -
  let ?mkdirs = "\<lambda>d. if d = [] then Inl (RuntimeError ''invalid argument'') else Inr () :: unit res"
  have "parent_path ''gen/t.hpp'' = ''gen''" "parent_path ''t.hpp'' = []" by (simp_all add: parent_path_def)
  then show ?thesis
    using accepted_schema_compiles [OF parse_schema_text [OF sample_protocol_ok], of ?mkdirs "''t.efe''" "''gen/t.hpp''" True]
      accepted_schema_compiles [OF parse_schema_text [OF sample_protocol_ok], of ?mkdirs "''t.efe''" "''t.hpp''" True]
    by auto
qed

text \<open>
  C24: reading back a printed schema. Every well-formed protocol, written out in the layout of the
  checked-in schema, is parsed to exactly that protocol, offsets and sizes included.
\<close>

theorem schema_roundtrip:
  assumes "protocol_ok p"
  shows "parse_schema (schema_text p) = Inr p"
  using assms by (rule parse_schema_text)

theorem schema_roundtrip_witness: "parse_schema (schema_text sample_protocol) = Inr sample_protocol"
  by (rule schema_roundtrip [OF sample_protocol_ok])

section \<open>Fields of a view\<close>

text \<open>The size of a message before it is reduced to 64 bits, and the bytes of one field.\<close>

definition full_size :: "message \<Rightarrow> nat" where
  "full_size m = 1 + sum_list (map (unat \<circ> f_width) (m_fields m))"

definition field_bytes :: "u8 list \<Rightarrow> field \<Rightarrow> u8 list" where
  "field_bytes bytes f = subspan bytes (unat (f_offset f)) (unat (f_width f))"

definition field_val :: "string \<Rightarrow> u8 list \<Rightarrow> field_value" where
  "field_val t bs =
     (if t = ''u8'' then Val_U8 (hd bs) else if t = ''u16_be'' then Val_U16 (be_word bs)
      else if t = ''u32_be'' \<or> t = ''price4'' then Val_U32 (be_word bs)
      else if t = ''char'' then Val_Char (hd bs) else if t = ''ascii'' then Val_Text bs else Val_U64 (be_word bs))"

lemma field_widths:
  assumes "type_width (f_type f) = Inr (f_width f)"
  shows "f_type f = ''u8'' \<Longrightarrow> f_width f = 1" "f_type f = ''char'' \<Longrightarrow> f_width f = 1"
    "f_type f = ''u16_be'' \<Longrightarrow> f_width f = 2" "f_type f = ''u32_be'' \<Longrightarrow> f_width f = 4" "f_type f = ''price4'' \<Longrightarrow> f_width f = 4"
    "f_type f = ''u48_be'' \<Longrightarrow> f_width f = 6" "f_type f = ''u64_be'' \<Longrightarrow> f_width f = 8" "f_type f = ''price8'' \<Longrightarrow> f_width f = 8"
  using assms by (simp_all add: type_width_def)

lemma view_get_in_range:
  assumes "field_ok f" and "unat (f_offset f) + unat (f_width f) \<le> length bytes"
  shows "view_get f bytes = Inr (field_val (f_type f) (field_bytes bytes f))"
proof (cases "f_type f = ''ascii''")
  case True
  then show ?thesis
    using assms(2) by (simp add: view_get_def accessor_call_def field_val_def rascii.in_range field_bytes_def)
next
  case False
  with assms(1) have w: "type_width (f_type f) = Inr (f_width f)" by (simp add: field_ok_def)
  note r = field_widths [OF w]
  from type_width_cases [OF w] show ?thesis
    using assms(2)
    by (elim insertE emptyE)
      (simp_all add: r view_get_def accessor_call_def field_val_def field_bytes_def ru8.in_range ru16.in_range
        ru32.in_range ru48.in_range ru64.in_range rchar.in_range)
qed

lemma view_get_short:
  assumes "field_ok f" and "length bytes < unat (f_offset f) + unat (f_width f)"
  shows "view_get f bytes = Inl (DecodeError ''truncated binary message'')"
proof (cases "f_type f = ''ascii''")
  case True
  then show ?thesis using assms(2) by (simp add: view_get_def accessor_call_def rascii.short)
next
  case False
  with assms(1) have w: "type_width (f_type f) = Inr (f_width f)" by (simp add: field_ok_def)
  from type_width_cases [OF w] show ?thesis
    using assms(2) field_widths [OF w]
    by (elim insertE emptyE)
      (simp_all add: view_get_def accessor_call_def ru8.short ru16.short ru32.short ru48.short ru64.short rchar.short)
qed

lemma subspan_split: "subspan xs off (m + n) = subspan xs off m @ subspan xs (off + m) n"
  by (simp add: subspan_def take_add add.commute)

lemma layout_bounds:
  assumes "layout_ok off fs sz" and "unat off + sum_list (map (unat \<circ> f_width) fs) < 2 ^ 64"
  shows "unat sz = unat off + sum_list (map (unat \<circ> f_width) fs) \<and>
    (\<forall>f \<in> set fs. unat (f_offset f) + unat (f_width f) \<le> unat sz) \<and>
    concat (map (field_bytes bytes) fs) = subspan bytes (unat off) (sum_list (map (unat \<circ> f_width) fs))"
  using assms
proof (induction fs arbitrary: off)
  case Nil
  then show ?case by simp
next
  case (Cons f fs)
  have "unat (off + f_width f) = unat off + unat (f_width f)"
    using Cons.prems(2) by (intro unat_add_lem [THEN iffD1]) simp
  with Cons.prems Cons.IH [of "off + f_width f"] show ?case
    by (auto simp: subspan_split field_bytes_def)
qed

text \<open>
  C23: a view over a message its constructor accepts. If the widths of an accepted message do not
  exceed the 64-bit size, then the constructor either accepts a buffer or throws DecodeError, and on
  a buffer it accepts every accessor returns the value of the bytes of its field, and the fields
  together are exactly the bytes after the type byte: none overlaps, none is skipped.
\<close>

theorem view_fields_tile:
  assumes "parse_schema s = Inr p" and "m \<in> set (p_messages p)" and "full_size m < 2 ^ 64"
  shows "decode_outcome (view_ctor m bytes) \<and>
    (view_ctor m bytes = Inr () \<longrightarrow>
      (\<forall>f \<in> set (m_fields m). view_get f bytes = Inr (field_val (f_type f) (field_bytes bytes f))) \<and>
      concat (map (field_bytes bytes) (m_fields m)) = tl bytes)"
proof (intro conjI impI)
  have ok: "message_ok m" using parse_schema_ok [OF assms(1)] assms(2) by (auto simp: protocol_ok_def list_all_iff)
  have l: "unat (m_size m) = full_size m" "\<forall>f \<in> set (m_fields m). unat (f_offset f) + unat (f_width f) \<le> unat (m_size m)"
    "concat (map (field_bytes bytes) (m_fields m)) = subspan bytes 1 (full_size m - 1)"
    using layout_bounds [of 1 "m_fields m" "m_size m" bytes] ok assms(3) by (auto simp: message_ok_def full_size_def)
  have pos: "0 < unat (m_size m)" using l(1) by (simp add: full_size_def)
  then show "decode_outcome (view_ctor m bytes)" by (auto simp: view_ctor_def)
  assume "view_ctor m bytes = Inr ()"
  then have len: "length bytes = unat (m_size m)" by (auto simp: view_ctor_def split: if_splits)
  show "\<forall>f \<in> set (m_fields m). view_get f bytes = Inr (field_val (f_type f) (field_bytes bytes f))"
    using l(2) len ok by (auto intro!: view_get_in_range simp: message_ok_def list_all_iff)
  show "concat (map (field_bytes bytes) (m_fields m)) = tl bytes"
    using l(1,3) len by (simp add: subspan_def drop_Suc)
qed

theorem view_fields_tile_witness:
  "view_get \<lparr>f_name = ''b'', f_type = ''ascii'', f_width = 3, f_offset = 3\<rparr> [109, 1, 2, 65, 66, 67] = Inr (Val_Text [65, 66, 67])"
proof -
  let ?m = "hd (p_messages sample_protocol)"
  have "view_ctor ?m [109, 1, 2, 65, 66, 67] = Inr ()"
    by (simp add: sample_protocol_def view_ctor_def of_char_def)
  then show ?thesis
    using view_fields_tile [OF parse_schema_text [OF sample_protocol_ok], of ?m "[109, 1, 2, 65, 66, 67]"]
    by (simp add: sample_protocol_def full_size_def field_val_def field_bytes_def subspan_def)
qed

section \<open>Sizes that wrap around\<close>

lemma layout_size: "layout_ok off fs sz \<Longrightarrow> unat sz = (unat off + sum_list (map (unat \<circ> f_width) fs)) mod 2 ^ 64"
proof (induction fs arbitrary: off)
  case (Cons f fs)
  then show ?case using Cons.IH [of "off + f_width f"] by (simp add: unat_word_ariths mod_add_left_eq add.assoc)
qed (use unat_u64_less in simp)

lemma layout_wraps:
  assumes "layout_ok off fs sz" and "2 ^ 64 \<le> unat off + sum_list (map (unat \<circ> f_width) fs)"
  shows "\<exists>f \<in> set fs. 2 ^ 64 \<le> unat (f_offset f) + unat (f_width f)"
  using assms
proof (induction fs arbitrary: off)
  case Nil
  then show ?case using unat_u64_less [of off] by simp
next
  case (Cons f fs)
  show ?case
  proof (cases "2 ^ 64 \<le> unat off + unat (f_width f)")
    case False
    then have "unat (off + f_width f) = unat off + unat (f_width f)" by (intro unat_add_lem [THEN iffD1]) simp
    with Cons.IH [of "off + f_width f"] Cons.prems show ?thesis by auto
  qed (use Cons.prems in auto)
qed

definition wrapping_protocol :: protocol where
  "wrapping_protocol = \<lparr>p_name = ''T'', p_messages =
     [\<lparr>m_name = ''M'', m_type = CHR ''m'', m_fields =
        [\<lparr>f_name = ''a'', f_type = ''ascii'', f_width = max_u64, f_offset = 1\<rparr>], m_size = 0\<rparr>]\<rparr>"

lemma wrapping_protocol_ok: "protocol_ok wrapping_protocol"
  by (simp add: wrapping_protocol_def protocol_ok_def message_ok_def field_ok_def is_ident_def ident_char_def
      is_alpha_def is_digit_def char_code_def)

text \<open>
  C26: sizes are summed modulo \<open>2 ^ 64\<close>, and the compiler does not check it. An accepted message's encoded size is
  the sum of its widths reduced to 64 bits. If the sum does not fit, the message is useless: on every buffer
  the constructor of its view accepts some accessor throws, and if the reduced size is 0 the constructor
  reads the first byte of an empty buffer.
\<close>

theorem schema_size_wraps:
  assumes "parse_schema s = Inr p" and "m \<in> set (p_messages p)"
  shows "unat (m_size m) = full_size m mod 2 ^ 64 \<and>
    (2 ^ 64 \<le> full_size m \<longrightarrow>
      (\<forall>bytes. view_ctor m bytes = Inr () \<longrightarrow>
        (\<exists>f \<in> set (m_fields m). view_get f bytes = Inl (DecodeError ''truncated binary message''))) \<and>
      (m_size m = 0 \<longrightarrow> view_ctor m [] = Inl (Undefined ''index out of range'')))"
proof (intro conjI impI allI)
  have ok: "message_ok m" using parse_schema_ok [OF assms(1)] assms(2) by (auto simp: protocol_ok_def list_all_iff)
  then have lay: "layout_ok 1 (m_fields m) (m_size m)" by (simp add: message_ok_def)
  show "unat (m_size m) = full_size m mod 2 ^ 64" using layout_size [OF lay] by (simp add: full_size_def)
  assume big: "2 ^ 64 \<le> full_size m"
  {
    fix bytes
    assume "view_ctor m bytes = Inr ()"
    then have len: "length bytes < 2 ^ 64" using unat_u64_less [of "m_size m"] by (auto simp: view_ctor_def split: if_splits)
    from layout_wraps [OF lay] big obtain f where "f \<in> set (m_fields m)" "2 ^ 64 \<le> unat (f_offset f) + unat (f_width f)"
      by (auto simp: full_size_def)
    with len ok show "\<exists>f \<in> set (m_fields m). view_get f bytes = Inl (DecodeError ''truncated binary message'')"
      by (intro bexI [of _ f] view_get_short) (auto simp: message_ok_def list_all_iff)
  }
  assume "m_size m = 0"
  then show "view_ctor m [] = Inl (Undefined ''index out of range'')" by (simp add: view_ctor_def span_at_def)
qed

theorem schema_size_wraps_witness:
  "view_ctor (hd (p_messages wrapping_protocol)) [] = Inl (Undefined ''index out of range'')"
  using schema_size_wraps [OF parse_schema_text [OF wrapping_protocol_ok], of "hd (p_messages wrapping_protocol)"]
  by (simp add: wrapping_protocol_def full_size_def)

end
