(* ===== verification/Itch_Decoder.thy ===== *)
theory Itch_Decoder
  imports Itch_Schema Schema_Views Types
begin

text \<open>
  \<^verbatim>\<open>src/itch_decoder.cpp\<close>: the decoder built on the generated views, and the handwritten reference
  decoder it is tested against. Both are instances of one contract, stated over the byte layout of
  the seven book messages.
\<close>

section \<open>Generated views\<close>

text \<open>
  A call of a generated accessor: the member is found by name, its result has the C++ type of the
  field. A missing member or a type that does not fit would not compile; the model marks both as
  undefined and the lemmas below show that neither occurs.
\<close>

definition accessor :: "message \<Rightarrow> string \<Rightarrow> u8 list \<Rightarrow> field_value res" where
  "accessor m name bytes =
     (case List.find (\<lambda>f. f_name f = name) (m_fields m) of
        None \<Rightarrow> Inl (Undefined ''no such accessor'')
      | Some f \<Rightarrow> view_get f bytes)"

definition get_u16 :: "message \<Rightarrow> string \<Rightarrow> u8 list \<Rightarrow> u16 res" where
  "get_u16 m name bytes = rbind (accessor m name bytes) (\<lambda>v.
     case v of Val_U16 x \<Rightarrow> Inr x | _ \<Rightarrow> Inl (Undefined ''accessor type''))"

definition get_u32 :: "message \<Rightarrow> string \<Rightarrow> u8 list \<Rightarrow> u32 res" where
  "get_u32 m name bytes = rbind (accessor m name bytes) (\<lambda>v.
     case v of Val_U32 x \<Rightarrow> Inr x | _ \<Rightarrow> Inl (Undefined ''accessor type''))"

definition get_u64 :: "message \<Rightarrow> string \<Rightarrow> u8 list \<Rightarrow> u64 res" where
  "get_u64 m name bytes = rbind (accessor m name bytes) (\<lambda>v.
     case v of Val_U64 x \<Rightarrow> Inr x | _ \<Rightarrow> Inl (Undefined ''accessor type''))"

definition get_char :: "message \<Rightarrow> string \<Rightarrow> u8 list \<Rightarrow> u8 res" where
  "get_char m name bytes = rbind (accessor m name bytes) (\<lambda>v.
     case v of Val_Char x \<Rightarrow> Inr x | _ \<Rightarrow> Inl (Undefined ''accessor type''))"

definition get_text :: "message \<Rightarrow> string \<Rightarrow> u8 list \<Rightarrow> u8 list res" where
  "get_text m name bytes = rbind (accessor m name bytes) (\<lambda>v.
     case v of Val_Text x \<Rightarrow> Inr x | _ \<Rightarrow> Inl (Undefined ''accessor type''))"

section \<open>The decoder on generated views\<close>

definition meta :: "u16 \<Rightarrow> u16 \<Rightarrow> u64 \<Rightarrow> event_meta" where
  "meta locate tracking ts = \<lparr>stock_locate = locate, tracking_number = tracking, timestamp_ns = ts\<rparr>"

definition side_from_char :: "u8 \<Rightarrow> side res" where
  "side_from_char c =
     (if c = ch CHR ''B'' then Inr Buy
      else if c = ch CHR ''S'' then Inr Sell
      else Inl (DecodeError ''invalid ITCH side''))"

definition symbol_from_view :: "u8 list \<Rightarrow> symbol" where
  "symbol_from_view s = from_padded s"

definition require_exact :: "u8 list \<Rightarrow> nat \<Rightarrow> char \<Rightarrow> unit res" where
  "require_exact bytes n type =
     (if length bytes \<noteq> n \<or> bytes = [] then Inl (DecodeError ''invalid ITCH message size/type'')
      else rbind (span_at bytes 0) (\<lambda>b.
           if b \<noteq> ch type then Inl (DecodeError ''invalid ITCH message size/type'') else Inr ()))"

definition validate :: "u8 list \<Rightarrow> unit res" where
  "validate bytes =
     (if bytes = [] then Inl (DecodeError ''empty ITCH message'')
      else rbind (span_at bytes 0) (\<lambda>type.
           case gen_message_size itch50 type of
             None \<Rightarrow> Inl (DecodeError ''unsupported ITCH message type'')
           | Some expected \<Rightarrow>
               if length bytes \<noteq> expected then Inl (DecodeError ''ITCH message length mismatch'') else Inr ()))"

definition message_name :: "u8 list \<Rightarrow> string res" where
  "message_name bytes =
     (if bytes = [] then Inr ''Empty''
      else rbind (span_at bytes 0) (\<lambda>type. Inr (gen_message_name itch50 type)))"

text \<open>The metadata common to all messages, and the body of the cases 'A' and 'F'.\<close>

definition view_meta :: "message \<Rightarrow> u8 list \<Rightarrow> event_meta res" where
  "view_meta v b =
     rbind (get_u16 v ''stock_locate'' b) (\<lambda>locate.
     rbind (get_u16 v ''tracking_number'' b) (\<lambda>tracking.
     rbind (get_u64 v ''timestamp'' b) (\<lambda>ts.
     Inr (meta locate tracking ts))))"

definition view_add :: "message \<Rightarrow> u8 list \<Rightarrow> market_event res" where
  "view_add v b =
     rbind (view_ctor v b) (\<lambda>_.
     rbind (view_meta v b) (\<lambda>m.
     rbind (get_u64 v ''order_reference'' b) (\<lambda>id.
     rbind (get_text v ''stock'' b) (\<lambda>stock.
     rbind (get_char v ''side'' b) (\<lambda>c.
     rbind (side_from_char c) (\<lambda>sd.
     rbind (get_u32 v ''shares'' b) (\<lambda>shares.
     rbind (get_u32 v ''price'' b) (\<lambda>price.
     Inr (AddEvent \<lparr>add_meta = m, add_order = \<lparr>ord_id = id, ord_symbol = symbol_from_view stock,
            ord_side = sd, ord_quantity = shares, ord_price = price\<rparr>\<rparr>)))))))))"

definition view_execute :: "u8 list \<Rightarrow> market_event res" where
  "view_execute b =
     (let v = msg_OrderExecuted in
      rbind (view_ctor v b) (\<lambda>_.
      rbind (view_meta v b) (\<lambda>m.
      rbind (get_u64 v ''order_reference'' b) (\<lambda>id.
      rbind (get_u32 v ''executed_shares'' b) (\<lambda>shares.
      rbind (get_u64 v ''match_number'' b) (\<lambda>mn.
      Inr (ExecuteEvent \<lparr>exec_meta = m, exec_order_id = id, executed_shares = shares, match_number = mn,
             has_execution_price = False, execution_price = 0, printable = True\<rparr>)))))))"

definition view_execute_price :: "u8 list \<Rightarrow> market_event res" where
  "view_execute_price b =
     (let v = msg_OrderExecutedWithPrice in
      rbind (view_ctor v b) (\<lambda>_.
      rbind (view_meta v b) (\<lambda>m.
      rbind (get_u64 v ''order_reference'' b) (\<lambda>id.
      rbind (get_u32 v ''executed_shares'' b) (\<lambda>shares.
      rbind (get_u64 v ''match_number'' b) (\<lambda>mn.
      rbind (get_u32 v ''execution_price'' b) (\<lambda>price.
      rbind (get_char v ''printable'' b) (\<lambda>c.
      Inr (ExecuteEvent \<lparr>exec_meta = m, exec_order_id = id, executed_shares = shares, match_number = mn,
             has_execution_price = True, execution_price = price, printable = (c = ch CHR ''Y'')\<rparr>)))))))))"

definition view_cancel :: "u8 list \<Rightarrow> market_event res" where
  "view_cancel b =
     (let v = msg_OrderCancel in
      rbind (view_ctor v b) (\<lambda>_.
      rbind (view_meta v b) (\<lambda>m.
      rbind (get_u64 v ''order_reference'' b) (\<lambda>id.
      rbind (get_u32 v ''canceled_shares'' b) (\<lambda>shares.
      Inr (CancelEvent \<lparr>cancel_meta = m, cancel_order_id = id, canceled_shares = shares\<rparr>))))))"

definition view_delete :: "u8 list \<Rightarrow> market_event res" where
  "view_delete b =
     (let v = msg_OrderDelete in
      rbind (view_ctor v b) (\<lambda>_.
      rbind (view_meta v b) (\<lambda>m.
      rbind (get_u64 v ''order_reference'' b) (\<lambda>id.
      Inr (DeleteEvent \<lparr>delete_meta = m, delete_order_id = id\<rparr>)))))"

definition view_replace :: "u8 list \<Rightarrow> market_event res" where
  "view_replace b =
     (let v = msg_OrderReplace in
      rbind (view_ctor v b) (\<lambda>_.
      rbind (view_meta v b) (\<lambda>m.
      rbind (get_u64 v ''original_order_reference'' b) (\<lambda>old_id.
      rbind (get_u64 v ''new_order_reference'' b) (\<lambda>new_id.
      rbind (get_u32 v ''shares'' b) (\<lambda>shares.
      rbind (get_u32 v ''price'' b) (\<lambda>price.
      Inr (ReplaceEvent \<lparr>replace_meta = m, old_order_id = old_id, new_order_id = new_id,
             new_quantity = shares, new_price = price\<rparr>))))))))"

definition decode_book_event :: "u8 list \<Rightarrow> market_event option res" where
  "decode_book_event bytes =
     rbind (validate bytes) (\<lambda>_.
     rbind (span_at bytes 0) (\<lambda>type.
       if type = ch CHR ''A'' then rbind (view_add msg_AddOrder bytes) (\<lambda>e. Inr (Some e))
       else if type = ch CHR ''F'' then rbind (view_add msg_AddOrderWithMpid bytes) (\<lambda>e. Inr (Some e))
       else if type = ch CHR ''E'' then rbind (view_execute bytes) (\<lambda>e. Inr (Some e))
       else if type = ch CHR ''C'' then rbind (view_execute_price bytes) (\<lambda>e. Inr (Some e))
       else if type = ch CHR ''X'' then rbind (view_cancel bytes) (\<lambda>e. Inr (Some e))
       else if type = ch CHR ''D'' then rbind (view_delete bytes) (\<lambda>e. Inr (Some e))
       else if type = ch CHR ''U'' then rbind (view_replace bytes) (\<lambda>e. Inr (Some e))
       else Inr None))"

section \<open>The reference decoder\<close>

definition ref_meta :: "u8 list \<Rightarrow> event_meta res" where
  "ref_meta b =
     rbind (read_u16_be b 1) (\<lambda>locate.
     rbind (read_u16_be b 3) (\<lambda>tracking.
     rbind (read_u48_be b 5) (\<lambda>ts.
     Inr (meta locate tracking ts))))"

definition ref_add :: "u8 list \<Rightarrow> market_event res" where
  "ref_add b =
     rbind (ref_meta b) (\<lambda>m.
     rbind (read_u64_be b 11) (\<lambda>id.
     rbind (read_ascii_view b 24 8) (\<lambda>stock.
     rbind (read_char b 19) (\<lambda>c.
     rbind (side_from_char c) (\<lambda>sd.
     rbind (read_u32_be b 20) (\<lambda>shares.
     rbind (read_u32_be b 32) (\<lambda>price.
     Inr (AddEvent \<lparr>add_meta = m, add_order = \<lparr>ord_id = id, ord_symbol = from_padded stock,
            ord_side = sd, ord_quantity = shares, ord_price = price\<rparr>\<rparr>))))))))"

definition reference_decode_book_event :: "u8 list \<Rightarrow> market_event option res" where
  "reference_decode_book_event b =
     (if b = [] then Inl (DecodeError ''empty ITCH message'')
      else rbind (span_at b 0) (\<lambda>t.
        if t = ch CHR ''A'' then
          rbind (require_exact b 36 (CHR ''A'')) (\<lambda>_. rbind (ref_add b) (\<lambda>e. Inr (Some e)))
        else if t = ch CHR ''F'' then
          rbind (require_exact b 40 (CHR ''F'')) (\<lambda>_. rbind (ref_add b) (\<lambda>e. Inr (Some e)))
        else if t = ch CHR ''E'' then
          rbind (require_exact b 31 (CHR ''E'')) (\<lambda>_.
          rbind (ref_meta b) (\<lambda>m.
          rbind (read_u64_be b 11) (\<lambda>id.
          rbind (read_u32_be b 19) (\<lambda>shares.
          rbind (read_u64_be b 23) (\<lambda>mn.
          Inr (Some (ExecuteEvent \<lparr>exec_meta = m, exec_order_id = id, executed_shares = shares, match_number = mn,
            has_execution_price = False, execution_price = 0, printable = True\<rparr>)))))))
        else if t = ch CHR ''C'' then
          rbind (require_exact b 36 (CHR ''C'')) (\<lambda>_.
          rbind (ref_meta b) (\<lambda>m.
          rbind (read_u64_be b 11) (\<lambda>id.
          rbind (read_u32_be b 19) (\<lambda>shares.
          rbind (read_u64_be b 23) (\<lambda>mn.
          rbind (read_u32_be b 32) (\<lambda>price.
          rbind (read_char b 31) (\<lambda>c.
          Inr (Some (ExecuteEvent \<lparr>exec_meta = m, exec_order_id = id, executed_shares = shares, match_number = mn,
            has_execution_price = True, execution_price = price, printable = (c = ch CHR ''Y'')\<rparr>)))))))))
        else if t = ch CHR ''X'' then
          rbind (require_exact b 23 (CHR ''X'')) (\<lambda>_.
          rbind (ref_meta b) (\<lambda>m.
          rbind (read_u64_be b 11) (\<lambda>id.
          rbind (read_u32_be b 19) (\<lambda>shares.
          Inr (Some (CancelEvent \<lparr>cancel_meta = m, cancel_order_id = id, canceled_shares = shares\<rparr>))))))
        else if t = ch CHR ''D'' then
          rbind (require_exact b 19 (CHR ''D'')) (\<lambda>_.
          rbind (ref_meta b) (\<lambda>m.
          rbind (read_u64_be b 11) (\<lambda>id.
          Inr (Some (DeleteEvent \<lparr>delete_meta = m, delete_order_id = id\<rparr>)))))
        else if t = ch CHR ''U'' then
          rbind (require_exact b 35 (CHR ''U'')) (\<lambda>_.
          rbind (ref_meta b) (\<lambda>m.
          rbind (read_u64_be b 11) (\<lambda>old_id.
          rbind (read_u64_be b 19) (\<lambda>new_id.
          rbind (read_u32_be b 27) (\<lambda>shares.
          rbind (read_u32_be b 31) (\<lambda>price.
          Inr (Some (ReplaceEvent \<lparr>replace_meta = m, old_order_id = old_id, new_order_id = new_id,
            new_quantity = shares, new_price = price\<rparr>))))))))
        else Inr None))"

section \<open>The byte layout of the book messages\<close>

definition book_size :: "u8 \<Rightarrow> nat option" where
  "book_size t =
     (if t = ch CHR ''A'' then Some 36 else if t = ch CHR ''F'' then Some 40 else if t = ch CHR ''E'' then Some 31
      else if t = ch CHR ''C'' then Some 36 else if t = ch CHR ''X'' then Some 23 else if t = ch CHR ''D'' then Some 19
      else if t = ch CHR ''U'' then Some 35 else None)"

definition wire_meta :: "u8 list \<Rightarrow> event_meta" where
  "wire_meta b = \<lparr>stock_locate = be_word (subspan b 1 2), tracking_number = be_word (subspan b 3 2),
     timestamp_ns = be_word (subspan b 5 6)\<rparr>"

definition wire_order :: "u8 list \<Rightarrow> side \<Rightarrow> order" where
  "wire_order b sd = \<lparr>ord_id = be_word (subspan b 11 8), ord_symbol = Symbol (subspan b 24 8), ord_side = sd,
     ord_quantity = be_word (subspan b 20 4), ord_price = be_word (subspan b 32 4)\<rparr>"

definition wire_event :: "u8 list \<Rightarrow> market_event res" where
  "wire_event b =
     (let t = hd b; m = wire_meta b; id = be_word (subspan b 11 8); shares = be_word (subspan b 19 4) in
      if t = ch CHR ''A'' \<or> t = ch CHR ''F'' then
        rbind (side_from_char (b ! 19)) (\<lambda>sd. Inr (AddEvent \<lparr>add_meta = m, add_order = wire_order b sd\<rparr>))
      else if t = ch CHR ''E'' then
        Inr (ExecuteEvent \<lparr>exec_meta = m, exec_order_id = id, executed_shares = shares, match_number = be_word (subspan b 23 8),
          has_execution_price = False, execution_price = 0, printable = True\<rparr>)
      else if t = ch CHR ''C'' then
        Inr (ExecuteEvent \<lparr>exec_meta = m, exec_order_id = id, executed_shares = shares, match_number = be_word (subspan b 23 8),
          has_execution_price = True, execution_price = be_word (subspan b 32 4), printable = (b ! 31 = ch CHR ''Y'')\<rparr>)
      else if t = ch CHR ''X'' then
        Inr (CancelEvent \<lparr>cancel_meta = m, cancel_order_id = id, canceled_shares = shares\<rparr>)
      else if t = ch CHR ''D'' then Inr (DeleteEvent \<lparr>delete_meta = m, delete_order_id = id\<rparr>)
      else
        Inr (ReplaceEvent \<lparr>replace_meta = m, old_order_id = id, new_order_id = be_word (subspan b 19 8),
          new_quantity = be_word (subspan b 27 4), new_price = be_word (subspan b 31 4)\<rparr>))"

text \<open>The contract of a decoder of book events.\<close>

locale book_decoder =
  fixes decode :: "u8 list \<Rightarrow> market_event option res"
  assumes decode_empty: "decode [] = Inl (DecodeError ''empty ITCH message'')"
    and decode_exact: "b \<noteq> [] \<Longrightarrow> book_size (hd b) = Some (length b) \<Longrightarrow>
      decode b = rbind (wire_event b) (\<lambda>e. Inr (Some e))"
    and decode_inexact: "b \<noteq> [] \<Longrightarrow> book_size (hd b) = Some n \<Longrightarrow> length b \<noteq> n \<Longrightarrow> \<exists>s. decode b = Inl (DecodeError s)"
    and decode_other: "b \<noteq> [] \<Longrightarrow> book_size (hd b) = None \<Longrightarrow> decode b = Inr None \<or> (\<exists>s. decode b = Inl (DecodeError s))"
begin

lemma decode_total: "decode_outcome (decode b)"
proof (cases "b = []")
  case False
  show ?thesis
  proof (cases "book_size (hd b)")
    case None
    with False show ?thesis using decode_other [of b] by auto
  next
    case (Some n)
    have w: "decode_outcome (wire_event b)"
      by (auto simp: wire_event_def Let_def side_from_char_def)
    show ?thesis
      using False Some decode_exact [of b] decode_inexact [of b n] w
      by (cases "length b = n") (auto intro: decode_outcome_rbind)
  qed
qed (simp add: decode_empty)

lemma decode_Some_iff:
  "decode b = Inr (Some e) \<longleftrightarrow> b \<noteq> [] \<and> book_size (hd b) = Some (length b) \<and> wire_event b = Inr e"
proof (cases "b \<noteq> [] \<and> book_size (hd b) = Some (length b)")
  case True
  then show ?thesis using decode_exact [of b] by (cases "wire_event b") auto
next
  case False
  then show ?thesis
    using decode_empty decode_other [of b] decode_inexact [of b]
    by (cases "b = []"; cases "book_size (hd b)") fastforce+
qed

end

section \<open>Both decoders satisfy the contract\<close>

lemma ch_codes:
  "ch CHR ''A'' = 65" "ch CHR ''F'' = 70" "ch CHR ''E'' = 69" "ch CHR ''C'' = 67" "ch CHR ''X'' = 88" "ch CHR ''D'' = 68"
  "ch CHR ''U'' = 85" "ch CHR ''B'' = 66" "ch CHR ''S'' = 83" "ch CHR ''Y'' = 89" "ch CHR ''N'' = 78"
  by (simp_all add: of_char_def)

lemma nth_0_hd: "b \<noteq> [] \<Longrightarrow> b ! 0 = hd b"
  by (simp add: hd_conv_nth)

lemma hd_subspan_1: "i < length b \<Longrightarrow> hd (subspan b i (Suc 0)) = b ! i"
  by (simp add: subspan_Suc)

lemma ref_meta_eq: "11 \<le> length b \<Longrightarrow> ref_meta b = Inr (wire_meta b)"
  by (simp add: ref_meta_def wire_meta_def meta_def read_in_range)

lemma ref_add_eq:
  "36 \<le> length b \<Longrightarrow> ref_add b = rbind (side_from_char (b ! 19)) (\<lambda>sd. Inr (AddEvent \<lparr>add_meta = wire_meta b, add_order = wire_order b sd\<rparr>))"
  by (simp add: ref_add_def wire_order_def ref_meta_eq read_in_range hd_subspan_1 from_padded_exact)

lemma require_exact_eq:
  "b \<noteq> [] \<Longrightarrow> hd b = ch t \<Longrightarrow> require_exact b n t =
     (if length b = n then Inr () else Inl (DecodeError ''invalid ITCH message size/type''))"
  by (auto simp: require_exact_def span_at_def nth_0_hd)

lemma book_size_cases:
  assumes "book_size t = Some n"
  obtains "t = ch CHR ''A''" "n = 36" | "t = ch CHR ''F''" "n = 40" | "t = ch CHR ''E''" "n = 31" | "t = ch CHR ''C''" "n = 36"
    | "t = ch CHR ''X''" "n = 23" | "t = ch CHR ''D''" "n = 19" | "t = ch CHR ''U''" "n = 35"
  using assms by (auto simp: book_size_def split: if_splits)

interpretation ref: book_decoder reference_decode_book_event
proof
  show "reference_decode_book_event [] = Inl (DecodeError ''empty ITCH message'')"
    by (simp add: reference_decode_book_event_def)
next
  fix b assume b: "b \<noteq> []" and n: "book_size (hd b) = Some (length b)"
  from n show "reference_decode_book_event b = rbind (wire_event b) (\<lambda>e. Inr (Some e))"
    by (rule book_size_cases)
      (use b in \<open>simp_all add: reference_decode_book_event_def wire_event_def nth_0_hd require_exact_eq Let_def
        ref_add_eq ref_meta_eq read_in_range hd_subspan_1 ch_codes rbind_assoc\<close>)
next
  fix b n assume b: "b \<noteq> []" and n: "book_size (hd b) = Some n" and l: "length b \<noteq> n"
  from n show "\<exists>s. reference_decode_book_event b = Inl (DecodeError s)"
    by (rule book_size_cases)
      (use b l in \<open>simp_all add: reference_decode_book_event_def nth_0_hd require_exact_eq ch_codes\<close>)
next
  fix b assume "b \<noteq> []" and "book_size (hd b) = None"
  then show "reference_decode_book_event b = Inr None \<or> (\<exists>s. reference_decode_book_event b = Inl (DecodeError s))"
    by (simp add: reference_decode_book_event_def nth_0_hd book_size_def split: if_splits)
qed

text \<open>The generated sizes agree with the layout, and the fields are where the layout has them.\<close>

lemma itch50_sizes:
  "map (\<lambda>m. (ch (m_type m), unat (m_size m))) (p_messages itch50) =
     [(83, 12), (82, 39), (72, 25), (89, 20), (76, 26), (86, 35), (87, 12), (75, 28), (74, 35), (104, 21), (65, 36), (70, 40),
      (69, 31), (67, 36), (88, 23), (68, 19), (85, 35), (80, 44), (81, 40), (66, 19), (73, 50), (78, 20), (79, 48)]"
  by (simp add: itch50_def itch_msgs mk_message_def header_fields_def of_char_def)

lemma find_map_fst: "map_option g (List.find (\<lambda>m. f m = t) ms) = map_of (map (\<lambda>m. (f m, g m)) ms) t"
  by (induction ms) auto

lemma gen_message_size_itch50: "gen_message_size itch50 t = map_of (map (\<lambda>m. (ch (m_type m), unat (m_size m))) (p_messages itch50)) t"
  unfolding gen_message_size_def by (rule find_map_fst)

lemma gen_size_book: "book_size t = Some n \<Longrightarrow> gen_message_size itch50 t = Some n"
  unfolding gen_message_size_itch50 itch50_sizes by (erule book_size_cases) (simp_all add: ch_codes)

lemmas accessor_simps = accessor_def get_u16_def get_u32_def get_u64_def get_char_def get_text_def mk_message_def header_fields_def
  view_get_def accessor_call_def

lemma view_meta_eq:
  assumes "11 \<le> length b"
  shows "view_meta (mk_message n t fs) b = Inr (wire_meta b)"
  using assms by (simp add: view_meta_def accessor_simps wire_meta_def meta_def read_in_range)

lemma view_ctor_eq:
  "b \<noteq> [] \<Longrightarrow> hd b = ch (m_type m) \<Longrightarrow> length b = unat (m_size m) \<Longrightarrow> view_ctor m b = Inr ()"
  by (simp add: view_ctor_def span_at_def nth_0_hd flip: length_greater_0_conv)

lemma view_add_eq:
  assumes "b \<noteq> []" and "hd b = ch CHR ''A'' \<and> length b = 36 \<and> v = msg_AddOrder \<or> hd b = ch CHR ''F'' \<and> length b = 40 \<and> v = msg_AddOrderWithMpid"
  shows "view_add v b = wire_event b"
proof -
  have "view_ctor v b = Inr ()"
    using assms by (intro view_ctor_eq) (auto simp: itch_msgs mk_message_def header_fields_def)
  moreover have "view_meta v b = Inr (wire_meta b)" using assms(2) by (auto simp: itch_msgs view_meta_eq)
  moreover have "get_u64 v ''order_reference'' b = Inr (be_word (subspan b 11 8))"
    "get_text v ''stock'' b = Inr (subspan b 24 8)" "get_char v ''side'' b = Inr (b ! 19)"
    "get_u32 v ''shares'' b = Inr (be_word (subspan b 20 4))" "get_u32 v ''price'' b = Inr (be_word (subspan b 32 4))"
    using assms(2) by (auto simp: itch_msgs accessor_simps read_in_range hd_subspan_1)
  ultimately show ?thesis
    using assms(2) by (auto simp: view_add_def wire_event_def Let_def wire_order_def symbol_from_view_def from_padded_exact)
qed

lemma view_execute_eq:
  assumes "b \<noteq> []" and "hd b = ch CHR ''E''" and "length b = 31"
  shows "view_execute b = wire_event b"
proof -
  have "view_ctor msg_OrderExecuted b = Inr ()"
    using assms by (intro view_ctor_eq) (auto simp: itch_msgs mk_message_def header_fields_def)
  moreover have "view_meta msg_OrderExecuted b = Inr (wire_meta b)" using assms by (simp add: itch_msgs view_meta_eq)
  ultimately show ?thesis
    using assms(2,3) by (simp add: view_execute_def wire_event_def Let_def ch_codes)
      (simp add: itch_msgs accessor_simps read_in_range)
qed

lemma view_execute_price_eq:
  assumes "b \<noteq> []" and "hd b = ch CHR ''C''" and "length b = 36"
  shows "view_execute_price b = wire_event b"
proof -
  have "view_ctor msg_OrderExecutedWithPrice b = Inr ()"
    using assms by (intro view_ctor_eq) (auto simp: itch_msgs mk_message_def header_fields_def)
  moreover have "view_meta msg_OrderExecutedWithPrice b = Inr (wire_meta b)" using assms by (simp add: itch_msgs view_meta_eq)
  ultimately show ?thesis
    using assms(2,3) by (simp add: view_execute_price_def wire_event_def Let_def ch_codes)
      (simp add: itch_msgs accessor_simps read_in_range hd_subspan_1)
qed

lemma view_cancel_eq:
  assumes "b \<noteq> []" and "hd b = ch CHR ''X''" and "length b = 23"
  shows "view_cancel b = wire_event b"
proof -
  have "view_ctor msg_OrderCancel b = Inr ()"
    using assms by (intro view_ctor_eq) (auto simp: itch_msgs mk_message_def header_fields_def)
  moreover have "view_meta msg_OrderCancel b = Inr (wire_meta b)" using assms by (simp add: itch_msgs view_meta_eq)
  ultimately show ?thesis
    using assms(2,3) by (simp add: view_cancel_def wire_event_def Let_def ch_codes)
      (simp add: itch_msgs accessor_simps read_in_range)
qed

lemma view_delete_eq:
  assumes "b \<noteq> []" and "hd b = ch CHR ''D''" and "length b = 19"
  shows "view_delete b = wire_event b"
proof -
  have "view_ctor msg_OrderDelete b = Inr ()"
    using assms by (intro view_ctor_eq) (auto simp: itch_msgs mk_message_def header_fields_def)
  moreover have "view_meta msg_OrderDelete b = Inr (wire_meta b)" using assms by (simp add: itch_msgs view_meta_eq)
  ultimately show ?thesis
    using assms(2,3) by (simp add: view_delete_def wire_event_def Let_def ch_codes)
      (simp add: itch_msgs accessor_simps read_in_range)
qed

lemma view_replace_eq:
  assumes "b \<noteq> []" and "hd b = ch CHR ''U''" and "length b = 35"
  shows "view_replace b = wire_event b"
proof -
  have "view_ctor msg_OrderReplace b = Inr ()"
    using assms by (intro view_ctor_eq) (auto simp: itch_msgs mk_message_def header_fields_def)
  moreover have "view_meta msg_OrderReplace b = Inr (wire_meta b)" using assms by (simp add: itch_msgs view_meta_eq)
  ultimately show ?thesis
    using assms(2,3) by (simp add: view_replace_def wire_event_def Let_def ch_codes)
      (simp add: itch_msgs accessor_simps read_in_range)
qed

lemmas view_eqs = view_add_eq view_execute_eq view_execute_price_eq view_cancel_eq view_delete_eq view_replace_eq

lemma validate_eq:
  "validate b = (if b = [] then Inl (DecodeError ''empty ITCH message'') else
     case gen_message_size itch50 (hd b) of None \<Rightarrow> Inl (DecodeError ''unsupported ITCH message type'')
     | Some n \<Rightarrow> if length b \<noteq> n then Inl (DecodeError ''ITCH message length mismatch'') else Inr ())"
  by (simp add: validate_def nth_0_hd)

text \<open>The decoder on generated views promises more: every other message type is checked as well.\<close>

locale strict_decoder = book_decoder +
  assumes decode_checked: "b \<noteq> [] \<Longrightarrow> book_size (hd b) = None \<Longrightarrow>
    decode b = (case gen_message_size itch50 (hd b) of None \<Rightarrow> Inl (DecodeError ''unsupported ITCH message type'')
      | Some n \<Rightarrow> if length b \<noteq> n then Inl (DecodeError ''ITCH message length mismatch'') else Inr None)"
begin

lemma accepts_iff_framed: "(\<exists>r. decode b = Inr r) \<longleftrightarrow> b \<noteq> [] \<and> gen_message_size itch50 (hd b) = Some (length b) \<and>
    (book_size (hd b) \<noteq> None \<longrightarrow> (\<exists>e. wire_event b = Inr e))"
proof (cases "b = []")
  case True
  then show ?thesis by (simp add: decode_empty)
next
  case False
  show ?thesis
  proof (cases "book_size (hd b)")
    case None
    with False show ?thesis using decode_checked [of b] by (auto split: option.splits)
  next
    case (Some n)
    with False show ?thesis
      using decode_exact [of b] decode_inexact [of b n] gen_size_book [OF Some]
      by (cases "length b = n"; cases "wire_event b") auto
  qed
qed

end

interpretation itch: strict_decoder decode_book_event
proof
  show "decode_book_event [] = Inl (DecodeError ''empty ITCH message'')"
    by (simp add: decode_book_event_def validate_def)
next
  fix b assume b: "b \<noteq> []" and n: "book_size (hd b) = Some (length b)"
  have v: "validate b = Inr ()" using b gen_size_book [OF n] by (simp add: validate_eq)
  from n show "decode_book_event b = rbind (wire_event b) (\<lambda>e. Inr (Some e))"
    by (rule book_size_cases) (use b v in \<open>simp_all add: decode_book_event_def nth_0_hd view_eqs ch_codes\<close>)
next
  fix b n assume "b \<noteq> []" and n: "book_size (hd b) = Some n" and "length b \<noteq> n"
  then show "\<exists>s. decode_book_event b = Inl (DecodeError s)"
    using gen_size_book [OF n] by (simp add: decode_book_event_def validate_eq)
next
  fix b assume b: "b \<noteq> []" and n: "book_size (hd b) = None"
  from n have "hd b \<noteq> ch CHR ''A''" "hd b \<noteq> ch CHR ''F''" "hd b \<noteq> ch CHR ''E''" "hd b \<noteq> ch CHR ''C''" "hd b \<noteq> ch CHR ''X''"
    "hd b \<noteq> ch CHR ''D''" "hd b \<noteq> ch CHR ''U''"
    by (simp_all add: book_size_def split: if_splits)
  with b show c: "decode_book_event b = (case gen_message_size itch50 (hd b) of None \<Rightarrow> Inl (DecodeError ''unsupported ITCH message type'')
      | Some n \<Rightarrow> if length b \<noteq> n then Inl (DecodeError ''ITCH message length mismatch'') else Inr None)"
    by (simp add: decode_book_event_def validate_eq nth_0_hd split: option.split)
  then show "decode_book_event b = Inr None \<or> (\<exists>s. decode_book_event b = Inl (DecodeError s))"
    by (auto split: option.splits)
qed

section \<open>Encoding and decoding\<close>

text \<open>
  The messages of the exchange, written byte by byte; an event is encodable when its timestamp has
  48 bits, its symbol 8 bytes, and an execution without a price the defaults the message lacks.
\<close>

definition encode_head :: "char \<Rightarrow> event_meta \<Rightarrow> order_id \<Rightarrow> u8 list" where
  "encode_head t m oid =
     [ch t] @ be_bytes 2 (stock_locate m) @ be_bytes 2 (tracking_number m) @ be_bytes 6 (timestamp_ns m) @ be_bytes 8 oid"

definition meta_ok :: "event_meta \<Rightarrow> bool" where
  "meta_ok m \<longleftrightarrow> timestamp_ns m < 2 ^ 48"

definition side_char :: "side \<Rightarrow> u8" where
  "side_char s = (case s of Buy \<Rightarrow> ch CHR ''B'' | Sell \<Rightarrow> ch CHR ''S'')"

fun encode_event :: "market_event \<Rightarrow> u8 list" where
  "encode_event (AddEvent e) =
     encode_head CHR ''A'' (add_meta e) (ord_id (add_order e)) @ [side_char (ord_side (add_order e))] @
     be_bytes 4 (ord_quantity (add_order e)) @ sym_bytes (ord_symbol (add_order e)) @ be_bytes 4 (ord_price (add_order e))"
| "encode_event (ExecuteEvent e) =
     (if has_execution_price e
      then encode_head CHR ''C'' (exec_meta e) (exec_order_id e) @ be_bytes 4 (executed_shares e) @ be_bytes 8 (match_number e) @
        [if printable e then ch CHR ''Y'' else ch CHR ''N''] @ be_bytes 4 (execution_price e)
      else encode_head CHR ''E'' (exec_meta e) (exec_order_id e) @ be_bytes 4 (executed_shares e) @ be_bytes 8 (match_number e))"
| "encode_event (CancelEvent e) =
     encode_head CHR ''X'' (cancel_meta e) (cancel_order_id e) @ be_bytes 4 (canceled_shares e)"
| "encode_event (DeleteEvent e) = encode_head CHR ''D'' (delete_meta e) (delete_order_id e)"
| "encode_event (ReplaceEvent e) =
     encode_head CHR ''U'' (replace_meta e) (old_order_id e) @ be_bytes 8 (new_order_id e) @ be_bytes 4 (new_quantity e) @
     be_bytes 4 (new_price e)"

fun event_wf :: "market_event \<Rightarrow> bool" where
  "event_wf (AddEvent e) \<longleftrightarrow> meta_ok (add_meta e) \<and> length (sym_bytes (ord_symbol (add_order e))) = 8"
| "event_wf (ExecuteEvent e) \<longleftrightarrow> meta_ok (exec_meta e) \<and>
     (has_execution_price e \<or> execution_price e = 0 \<and> printable e)"
| "event_wf (CancelEvent e) \<longleftrightarrow> meta_ok (cancel_meta e)"
| "event_wf (DeleteEvent e) \<longleftrightarrow> meta_ok (delete_meta e)"
| "event_wf (ReplaceEvent e) \<longleftrightarrow> meta_ok (replace_meta e)"

lemma length_encode_head [simp]: "length (encode_head t m oid) = 19"
  by (simp add: encode_head_def)

lemma encode_head_hd [simp]: "hd (encode_head t m oid @ xs) = ch t" "hd (encode_head t m oid) = ch t" "encode_head t m oid \<noteq> []"
  by (simp_all add: encode_head_def)

lemma be_word_timestamp: "(v :: u64) < 2 ^ 48 \<Longrightarrow> be_word (be_bytes 6 v) = v"
proof (rule word_eq_iff_unsigned [THEN iffD2])
  assume "v < 2 ^ 48"
  then have "unat v < 256 ^ 6" by (simp add: word_less_nat_alt)
  then show "unat (be_word (be_bytes 6 v) :: u64) = unat v" by (simp add: unat_be_word be_nat_be_bytes)
qed

lemma wire_meta_encode: "meta_ok m \<Longrightarrow> wire_meta (encode_head t m oid @ xs) = m"
  by (simp add: wire_meta_def encode_head_def subspan_def be_word_timestamp meta_ok_def)

lemma subspan_encode_head:
  "subspan (encode_head t m oid @ xs) 11 8 = be_bytes 8 oid"
  "subspan (encode_head t m oid) 11 8 = be_bytes 8 oid"
  by (simp_all add: encode_head_def subspan_def)

lemma subspan_after_head: "19 \<le> off \<Longrightarrow> subspan (encode_head t m oid @ xs) off n = subspan xs (off - 19) n"
  by (simp add: subspan_append_right)

lemma nth_after_head: "19 \<le> i \<Longrightarrow> (encode_head t m oid @ xs) ! i = xs ! (i - 19)"
  by (simp add: nth_append)

lemma wire_event_encode: "event_wf e \<Longrightarrow> wire_event (encode_event e) = Inr e"
proof (cases e)
  case (AddEvent a)
  moreover assume "event_wf e"
  ultimately show ?thesis
    by (cases "ord_side (add_order a)"; cases "ord_symbol (add_order a)")
      (simp_all add: wire_event_def Let_def wire_order_def wire_meta_encode subspan_encode_head subspan_after_head nth_after_head
        side_from_char_def side_char_def ch_codes, simp_all add: subspan_def)
next
  case (ExecuteEvent x)
  moreover assume "event_wf e"
  ultimately show ?thesis
    by (simp add: wire_event_def Let_def wire_meta_encode subspan_encode_head subspan_after_head nth_after_head ch_codes)
      (cases x, auto simp: subspan_def nth_append)
qed (simp_all add: wire_event_def Let_def subspan_encode_head subspan_after_head ch_codes
    wire_meta_encode wire_meta_encode [where xs = "[]", simplified], simp_all add: subspan_def)

lemma book_size_encode: "event_wf e \<Longrightarrow> book_size (hd (encode_event e)) = Some (length (encode_event e)) \<and> encode_event e \<noteq> []"
  by (cases e) (simp_all add: book_size_def ch_codes)

lemma wire_meta_ok:
  assumes "11 \<le> length b"
  shows "meta_ok (wire_meta b)"
proof -
  have "length (subspan b 5 6) = 6" using assms by simp
  then have "be_nat (subspan b 5 6) < 2 ^ 48" using be_nat_bound [of "subspan b 5 6"] by simp
  then show ?thesis
    using assms by (simp add: meta_ok_def wire_meta_def word_less_nat_alt unat_be_word)
qed

lemma wire_event_wf:
  assumes "book_size (hd b) = Some (length b)" and "wire_event b = Inr e"
  shows "event_wf e"
  using assms(1)
  by (rule book_size_cases)
    (use assms(2) wire_meta_ok [of b] in \<open>auto simp: wire_event_def Let_def wire_order_def res_simps ch_codes\<close>)

context book_decoder
begin

lemma decode_encode: "event_wf e \<Longrightarrow> decode (encode_event e) = Inr (Some e)"
  using book_size_encode [of e] wire_event_encode [of e] by (simp add: decode_Some_iff)

lemma decoded_wf: "decode b = Inr (Some e) \<Longrightarrow> event_wf e"
  by (auto simp: decode_Some_iff intro: wire_event_wf)

end

section \<open>Properties\<close>

definition sample_add :: market_event where
  "sample_add = AddEvent \<lparr>add_meta = \<lparr>stock_locate = 1, tracking_number = 2, timestamp_ns = 1000\<rparr>,
     add_order = \<lparr>ord_id = 7, ord_symbol = from_string (map of_char ''AAPL''), ord_side = Sell, ord_quantity = 100, ord_price = 2000000\<rparr>\<rparr>"

lemma sample_add_wf: "event_wf sample_add"
  by (simp add: sample_add_def meta_ok_def from_string_def)

text \<open>
  C28: the decoder on generated views and the handwritten reference decoder return the same event
  on the same messages; on a message of a book type (or an empty one) they return the same value or
  both throw DecodeError; and whatever the generated decoder accepts without an event, the reference
  decoder passes over too.
\<close>

theorem decoders_agree:
  "(decode_book_event b = Inr (Some e) \<longleftrightarrow> reference_decode_book_event b = Inr (Some e)) \<and>
   (b = [] \<or> book_size (hd b) \<noteq> None \<longrightarrow> decode_book_event b = reference_decode_book_event b \<or>
     (\<exists>s s'. decode_book_event b = Inl (DecodeError s) \<and> reference_decode_book_event b = Inl (DecodeError s'))) \<and>
   (decode_book_event b = Inr None \<longrightarrow> reference_decode_book_event b = Inr None)"
proof (cases "b = []")
  case True
  then show ?thesis by (simp add: itch.decode_empty ref.decode_empty)
next
  case False
  show ?thesis
  proof (cases "book_size (hd b)")
    case None
    from False None show ?thesis
      using itch.decode_Some_iff [of b e] ref.decode_Some_iff [of b e]
      by (auto simp: reference_decode_book_event_def nth_0_hd book_size_def split: if_splits)
  next
    case (Some n)
    with False show ?thesis
      using itch.decode_exact [of b] ref.decode_exact [of b] itch.decode_inexact [of b n] ref.decode_inexact [of b n]
      by (cases "length b = n"; cases "wire_event b") auto
  qed
qed

theorem decoders_agree_witness:
  "decode_book_event (encode_event sample_add) = reference_decode_book_event (encode_event sample_add)"
  using decoders_agree [of "encode_event sample_add" sample_add] itch.decode_encode [OF sample_add_wf] by simp

text \<open>
  C30: decoding is total and strict. On every byte sequence the decoder returns or throws DecodeError
  (no view accessor fails and no byte outside the message is read), and it returns exactly for the
  messages of a type in the schema that have the length of that type and, for additions, a valid side.
\<close>

theorem decode_strict:
  "decode_outcome (decode_book_event b) \<and>
   ((\<exists>r. decode_book_event b = Inr r) \<longleftrightarrow> b \<noteq> [] \<and> gen_message_size itch50 (hd b) = Some (length b) \<and>
     (hd b \<in> {ch CHR ''A'', ch CHR ''F''} \<longrightarrow> b ! 19 \<in> {ch CHR ''B'', ch CHR ''S''}))"
proof -
  have "(\<exists>e. wire_event b = Inr e) \<longleftrightarrow>
      (hd b \<in> {ch CHR ''A'', ch CHR ''F''} \<longrightarrow> b ! 19 \<in> {ch CHR ''B'', ch CHR ''S''})"
    by (simp add: wire_event_def Let_def side_from_char_def)
  moreover have "book_size (hd b) = None \<Longrightarrow> hd b \<notin> {ch CHR ''A'', ch CHR ''F''}"
    by (auto simp: book_size_def)
  ultimately show ?thesis
    using itch.decode_total [of b] itch.accepts_iff_framed [of b] by blast
qed

theorem decode_strict_witness:
  "gen_message_size itch50 (ch CHR ''D'') = Some 19 \<and>
   (\<exists>r. decode_book_event (encode_event (DeleteEvent \<lparr>delete_meta = meta 1 2 3, delete_order_id = 4\<rparr>)) = Inr r)"
  using decode_strict [of "encode_event (DeleteEvent \<lparr>delete_meta = meta 1 2 3, delete_order_id = 4\<rparr>)"]
    gen_size_book [of "ch CHR ''D''" 19] by (simp add: book_size_def ch_codes)

text \<open>
  C29: decoding inverts encoding. Every encodable event, written in the wire format of its message,
  is decoded to exactly that event, by the generated and by the reference decoder; and every event
  either decoder returns is encodable.
\<close>

theorem decode_encode_event:
  "(event_wf e \<longrightarrow> decode_book_event (encode_event e) = Inr (Some e) \<and> reference_decode_book_event (encode_event e) = Inr (Some e)) \<and>
   (decode_book_event b = Inr (Some e) \<or> reference_decode_book_event b = Inr (Some e) \<longrightarrow> event_wf e)"
  using itch.decode_encode ref.decode_encode itch.decoded_wf ref.decoded_wf by blast

theorem decode_encode_event_witness:
  "decode_book_event (encode_event sample_add) = Inr (Some sample_add)"
  using decode_encode_event [of sample_add] sample_add_wf by blast

end
