(* ===== verification/Feed_Messages.thy ===== *)
theory Feed_Messages
  imports Mold_Udp Itch_Decoder
begin

text \<open>
  The message builders of \<^verbatim>\<open>src/main.cpp\<close>: the encoders of integers and text into a byte vector, of two
  ITCH messages and of a MoldUDP64 packet, which the demonstration and the sample capture use. A
  store outside a vector is undefined behaviour; the lemmas show that none happens and that the
  results are the wire formats the decoders are specified by.
\<close>

section \<open>Builders\<close>

text \<open>Stores of several bytes in order; \<open>put_u16\<close>, \<open>put_u32\<close> and the loops of the others.\<close>

fun put_bytes :: "u8 list \<Rightarrow> nat \<Rightarrow> u8 list \<Rightarrow> u8 list res" where
  "put_bytes b off [] = Inr b"
| "put_bytes b off (v # vs) = rbind (span_set b off v) (\<lambda>b. put_bytes b (off + 1) vs)"

definition put_u32 :: "u8 list \<Rightarrow> nat \<Rightarrow> u32 \<Rightarrow> u8 list res" where
  "put_u32 b off v = put_bytes b off [ucast (drop_bit 24 v), ucast (drop_bit 16 v), ucast (drop_bit 8 v), ucast v]"

definition put_u64 :: "u8 list \<Rightarrow> nat \<Rightarrow> u64 \<Rightarrow> u8 list res" where
  "put_u64 b off v = put_bytes b off (map (\<lambda>i. ucast (drop_bit (i * 8) v)) [7, 6, 5, 4, 3, 2, 1, 0])"

definition put_u16 :: "u8 list \<Rightarrow> nat \<Rightarrow> u16 \<Rightarrow> u8 list res" where
  "put_u16 b off v = put_bytes b off [ucast (drop_bit 8 v), ucast v]"

definition put_u48 :: "u8 list \<Rightarrow> nat \<Rightarrow> u64 \<Rightarrow> u8 list res" where
  "put_u48 b off v = put_bytes b off (map (\<lambda>i. ucast (drop_bit (i * 8) v)) [5, 4, 3, 2, 1, 0])"

definition put_ascii :: "u8 list \<Rightarrow> nat \<Rightarrow> nat \<Rightarrow> u8 list \<Rightarrow> u8 list res" where
  "put_ascii b off n s = put_bytes b off (map (\<lambda>i. if i < length s then s ! i else ch CHR '' '') [0..<n])"

definition add_msg :: "u64 \<Rightarrow> u8 \<Rightarrow> u32 \<Rightarrow> u8 list \<Rightarrow> u32 \<Rightarrow> u8 list res" where
  "add_msg oid sd qty sy price =
     rbind (span_set (replicate 36 0) 0 (ch CHR ''A'')) (\<lambda>b.
     rbind (put_u16 b 1 1) (\<lambda>b.
     rbind (put_u16 b 3 1) (\<lambda>b.
     rbind (put_u48 b 5 1000000) (\<lambda>b.
     rbind (put_u64 b 11 oid) (\<lambda>b.
     rbind (span_set b 19 sd) (\<lambda>b.
     rbind (put_u32 b 20 qty) (\<lambda>b.
     rbind (put_ascii b 24 8 sy) (\<lambda>b.
     put_u32 b 32 price))))))))"

definition cancel_msg :: "u64 \<Rightarrow> u32 \<Rightarrow> u8 list res" where
  "cancel_msg oid qty =
     rbind (span_set (replicate 23 0) 0 (ch CHR ''X'')) (\<lambda>b.
     rbind (put_u16 b 1 1) (\<lambda>b.
     rbind (put_u16 b 3 2) (\<lambda>b.
     rbind (put_u48 b 5 1000100) (\<lambda>b.
     rbind (put_u64 b 11 oid) (\<lambda>b.
     put_u32 b 19 qty)))))"

text \<open>The loop of \<open>mold_packet\<close> over the messages; the \<open>memcpy\<close> stores the message's bytes.\<close>

fun put_messages :: "u8 list \<Rightarrow> nat \<Rightarrow> u8 list list \<Rightarrow> u8 list res" where
  "put_messages d off [] = Inr d"
| "put_messages d off (m # ms) =
     rbind (put_u16 d off (of_nat (length m))) (\<lambda>d.
     rbind (put_bytes d (off + 2) m) (\<lambda>d.
     put_messages d (off + 2 + length m) ms))"

definition mold_packet :: "u8 list \<Rightarrow> seqno \<Rightarrow> u8 list list \<Rightarrow> u8 list res" where
  "mold_packet session first messages =
     (let d = replicate (20 + sum_list (map (\<lambda>m. 2 + length m) messages)) 0 in
      rbind (put_bytes d 0 (map (\<lambda>i. if i < length session then session ! i else ch CHR '' '') [0..<10])) (\<lambda>d.
      rbind (put_u64 d 10 first) (\<lambda>d.
      rbind (put_u16 d 18 (of_nat (length messages))) (\<lambda>d.
      put_messages d 20 messages))))"

section \<open>What the builders store\<close>

lemma put_bytes_eq:
  "off + length vs \<le> length b \<Longrightarrow> put_bytes b off vs = Inr (take off b @ vs @ drop (off + length vs) b)"
proof (induction vs arbitrary: b off)
  case (Cons v vs)
  have "take (Suc off) (b[off := v]) = take off b @ [v]"
    using Cons.prems by (simp add: take_Suc_conv_app_nth)
  with Cons show ?case by simp
qed simp

text \<open>A vector of \<open>n\<close> bytes whose first bytes are written; a store that continues the written part.\<close>

definition filled :: "nat \<Rightarrow> u8 list \<Rightarrow> u8 list" where
  "filled n xs = xs @ replicate (n - length xs) 0"

lemma put_bytes_filled:
  "off = length xs \<Longrightarrow> length xs + length vs \<le> n \<Longrightarrow> put_bytes (filled n xs) off vs = Inr (filled n (xs @ vs))"
  by (simp add: put_bytes_eq filled_def)

lemma filled_empty: "replicate n 0 = filled n []"
  by (simp add: filled_def)

lemma filled_full: "length xs = n \<Longrightarrow> filled n xs = xs"
  by (simp add: filled_def)

declare put_bytes.simps [simp del]

lemma put_int_bytes:
  "put_u16 b off v = put_bytes b off (be_bytes 2 v)"
  "put_u32 b off w = put_bytes b off (be_bytes 4 w)"
  "put_u48 b off x = put_bytes b off (be_bytes 6 x)"
  "put_u64 b off x = put_bytes b off (be_bytes 8 x)"
  by (simp_all add: put_u16_def put_u32_def put_u48_def put_u64_def be_bytes_def upt_rec)

lemma blank_padded: "map (\<lambda>i. if i < length s then s ! i else c) [0..<n] = take n s @ replicate (n - length s) c"
  by (rule nth_equalityI) (auto simp: nth_append)

lemma pad_bytes_alt: "pad_bytes s = take 8 s @ replicate (8 - length s) (ch CHR '' '')"
  by (simp add: pad_bytes_def Let_def)

lemma session_from_string_alt: "session_from_string s = take 10 s @ replicate (10 - length s) (ch CHR '' '')"
  by (auto simp: session_from_string_def Let_def min_def drop_replicate)

lemma span_set_put: "span_set b off v = put_bytes b off [v]"
  by (simp add: put_bytes.simps)

lemmas put_simps = span_set_put put_int_bytes put_ascii_def blank_padded filled_empty

lemma add_msg_eq:
  "add_msg oid (side_char sd) qty sy price = Inr (encode_event (AddEvent
     \<lparr>add_meta = \<lparr>stock_locate = 1, tracking_number = 1, timestamp_ns = 1000000\<rparr>,
      add_order = \<lparr>ord_id = oid, ord_symbol = from_string sy, ord_side = sd, ord_quantity = qty, ord_price = price\<rparr>\<rparr>))"
  unfolding add_msg_def put_simps
  by (simp add: put_bytes_filled filled_full encode_head_def from_string_def pad_bytes_alt)

lemma cancel_msg_eq:
  "cancel_msg oid qty = Inr (encode_event (CancelEvent
     \<lparr>cancel_meta = \<lparr>stock_locate = 1, tracking_number = 2, timestamp_ns = 1000100\<rparr>, cancel_order_id = oid, canceled_shares = qty\<rparr>))"
  unfolding cancel_msg_def put_simps
  by (simp add: put_bytes_filled filled_full encode_head_def)

lemma put_messages_filled:
  "off = length xs \<Longrightarrow> length xs + sum_list (map (\<lambda>m. 2 + length m) ms) \<le> n \<Longrightarrow>
   put_messages (filled n xs) off ms = Inr (filled n (xs @ concat (map wire_message ms)))"
proof (induction ms arbitrary: xs off)
  case (Cons m ms)
  then show ?case
    using Cons.IH [of "length xs + 2 + length m" "xs @ wire_message m"]
    by (simp add: put_int_bytes put_bytes_filled wire_message_def)
qed simp

lemma length_wire_messages: "length (concat (map wire_message ms)) = sum_list (map (\<lambda>m. 2 + length m) ms)"
  by (induction ms) simp_all

lemma mold_packet_eq:
  "mold_packet session first ms =
     Inr (wire_header (session_from_string session) first (of_nat (length ms)) @ concat (map wire_message ms))"
  unfolding mold_packet_def Let_def put_simps
  by (simp add: put_bytes_filled put_messages_filled filled_full length_wire_messages wire_header_def session_from_string_alt)

lemma mold_packet_data:
  "mold_packet session first ms = Inr (wire_packet (data_packet (session_from_string session) first ms))"
  by (simp add: mold_packet_eq wire_packet_def data_packet_def flip: map_map)

end
