(* ===== verification/Std_Map.thy ===== *)
theory Std_Map
  imports Main "HOL-Library.Word"
begin

text \<open>
  The part of \<open>std::map\<close> the sources use: an association list kept strictly ascending in the
  map's comparator, so that iteration order, \<open>begin()\<close> and \<open>size()\<close> are those of the C++
  container. The comparator is an argument (\<open>std::less\<close>, \<open>std::greater\<close>, \<open>operator<\<close> of a
  user type), and what the container relies on is the locale \<open>strict_order\<close>.
\<close>

type_synonym ('k, 'v) std_map = "('k \<times> 'v) list"

abbreviation map_find :: "('k, 'v) std_map \<Rightarrow> 'k \<Rightarrow> 'v option" where
  "map_find m k \<equiv> map_of m k"

fun map_put :: "('k \<Rightarrow> 'k \<Rightarrow> bool) \<Rightarrow> 'k \<Rightarrow> 'v \<Rightarrow> ('k, 'v) std_map \<Rightarrow> ('k, 'v) std_map" where
  "map_put lt k v [] = [(k, v)]"
| "map_put lt k v ((a, b) # m) =
     (if lt k a then (k, v) # (a, b) # m
      else if a = k then (k, v) # m
      else (a, b) # map_put lt k v m)"

definition try_emplace ::
  "('k \<Rightarrow> 'k \<Rightarrow> bool) \<Rightarrow> 'k \<Rightarrow> 'v \<Rightarrow> ('k, 'v) std_map \<Rightarrow> ('k, 'v) std_map \<times> bool" where
  "try_emplace lt k v m =
     (case map_find m k of Some _ \<Rightarrow> (m, False) | None \<Rightarrow> (map_put lt k v m, True))"

definition map_erase :: "'k \<Rightarrow> ('k, 'v) std_map \<Rightarrow> ('k, 'v) std_map" where
  "map_erase k m = filter (\<lambda>e. fst e \<noteq> k) m"

definition map_sorted :: "('k \<Rightarrow> 'k \<Rightarrow> bool) \<Rightarrow> ('k, 'v) std_map \<Rightarrow> bool" where
  "map_sorted lt m = sorted_wrt lt (map fst m)"

lemma map_of_map_put [simp]: "map_of (map_put lt k v m) = (map_of m)(k \<mapsto> v)"
  by (induction m) (auto simp: fun_eq_iff)

lemma keys_map_put [simp]: "fst ` set (map_put lt k v m) = insert k (fst ` set m)"
  by (induction lt k v m rule: map_put.induct) (simp_all add: insert_commute)

lemma map_put_subset: "set (map_put lt k v m) \<subseteq> insert (k, v) (set m)"
  by (induction lt k v m rule: map_put.induct) auto

lemma try_emplace_subset: "set (fst (try_emplace lt k v m)) \<subseteq> insert (k, v) (set m)"
  using map_put_subset [of lt k v m] by (auto simp: try_emplace_def split: option.splits)

lemma keys_try_emplace [simp]: "fst ` set (fst (try_emplace lt k v m)) = insert k (fst ` set m)"
  by (auto simp: try_emplace_def map_of_eq_None_iff split: option.splits dest!: map_of_SomeD
      intro: rev_image_eqI)

lemma map_of_map_erase [simp]: "map_of (map_erase k m) = (map_of m)(k := None)"
  by (induction m) (auto simp: map_erase_def fun_eq_iff)

lemma keys_map_erase [simp]: "fst ` set (map_erase k m) = fst ` set m - {k}"
  by (auto simp: map_erase_def)

lemma map_of_try_emplace:
  "map_of (fst (try_emplace lt k v m)) = (map_of m)(k \<mapsto> (case map_of m k of None \<Rightarrow> v | Some w \<Rightarrow> w))"
  by (auto simp: try_emplace_def fun_eq_iff split: option.splits)

text \<open>Erasing what an insertion added, and only that, restores the map.\<close>

lemma map_of_undo_emplace:
  "map_of (if snd (try_emplace lt k v m) then map_erase k (fst (try_emplace lt k v m))
           else fst (try_emplace lt k v m)) = map_of m"
  by (auto simp: try_emplace_def fun_eq_iff split: option.splits)

lemma map_put_not_Nil [simp]: "map_put lt k v m \<noteq> []"
  by (cases "(lt, k, v, m)" rule: map_put.cases) simp_all

lemma map_sorted_Nil [simp]: "map_sorted lt []"
  by (simp add: map_sorted_def)

lemma map_erase_eq_Nil_iff: "map_erase k m = [] \<longleftrightarrow> fst ` set m \<subseteq> {k}"
  by (auto simp: map_erase_def filter_empty_conv)

lemma map_of_empty_iff: "m = [] \<longleftrightarrow> (\<forall>k. map_of m k = None)"
  by (cases m) (auto intro!: exI [of _ "fst (hd m)"])

section \<open>Comparators\<close>

locale strict_order =
  fixes lt :: "'k \<Rightarrow> 'k \<Rightarrow> bool"
  assumes irrefl: "\<not> lt a a"
    and trans: "lt a b \<Longrightarrow> lt b c \<Longrightarrow> lt a c"
    and total: "a \<noteq> b \<Longrightarrow> lt a b \<or> lt b a"
begin

lemma sorted_map_put: "map_sorted lt m \<Longrightarrow> map_sorted lt (map_put lt k v m)"
proof (induction m)
  case Nil
  then show ?case by (simp add: map_sorted_def)
next
  case (Cons e m)
  obtain a b where e: "e = (a, b)" by (cases e)
  have IH: "map_sorted lt (map_put lt k v m)"
    using Cons by (simp add: map_sorted_def)
  have below: "\<forall>x \<in> fst ` set m. lt a x"
    using Cons.prems by (simp add: map_sorted_def e)
  consider "lt k a" | "\<not> lt k a" "a = k" | "\<not> lt k a" "a \<noteq> k" by blast
  then show ?case
  proof cases
    case 1
    then show ?thesis using Cons.prems trans by (auto simp: map_sorted_def e)
  next
    case 2
    then show ?thesis using Cons.prems by (auto simp: map_sorted_def e)
  next
    case 3
    then have "lt a k" using total by blast
    with below have "\<forall>x \<in> fst ` set (map_put lt k v m). lt a x" by simp
    then show ?thesis using 3 IH by (simp add: map_sorted_def e)
  qed
qed

lemma sorted_try_emplace: "map_sorted lt m \<Longrightarrow> map_sorted lt (fst (try_emplace lt k v m))"
  by (simp add: try_emplace_def sorted_map_put split: option.splits)

lemma sorted_map_erase: "map_sorted lt m \<Longrightarrow> map_sorted lt (map_erase k m)"
  by (simp add: map_sorted_def map_erase_def sorted_wrt_filter sorted_wrt_map)

lemma sorted_undo_emplace:
  "map_sorted lt m \<Longrightarrow>
   map_sorted lt (if snd (try_emplace lt k v m) then map_erase k (fst (try_emplace lt k v m))
                  else fst (try_emplace lt k v m))"
  by (simp add: sorted_try_emplace sorted_map_erase)

lemma sorted_distinct: "map_sorted lt m \<Longrightarrow> distinct (map fst m)"
  unfolding map_sorted_def using irrefl by (induction m) auto

lemma sorted_hd: "map_sorted lt m \<Longrightarrow> e \<in> set m \<Longrightarrow> fst e \<noteq> fst (hd m) \<Longrightarrow> lt (fst (hd m)) (fst e)"
  by (cases m) (auto simp: map_sorted_def)

lemma sorted_unique:
  "sorted_wrt lt xs \<Longrightarrow> sorted_wrt lt ys \<Longrightarrow> set xs = set ys \<Longrightarrow> xs = ys"
proof (induction xs arbitrary: ys)
  case Nil
  then show ?case by simp
next
  case (Cons x xs)
  then obtain y zs where ys: "ys = y # zs" by (cases ys) auto
  have "x = y"
  proof (rule ccontr)
    assume "x \<noteq> y"
    then have "lt y x" "lt x y" using Cons.prems ys by auto
    then show False using irrefl trans by blast
  qed
  moreover have "x \<notin> set xs" "y \<notin> set zs" using Cons.prems ys irrefl by auto
  ultimately have "set xs = set zs" using Cons.prems ys by auto
  then show ?case using Cons.IH [of zs] Cons.prems ys \<open>x = y\<close> by simp
qed

end

text \<open>\<open>std::less\<close> and \<open>std::greater\<close> on any linearly ordered key.\<close>

interpretation less_order: strict_order "(<) :: 'a::linorder \<Rightarrow> 'a \<Rightarrow> bool"
  by unfold_locales auto

interpretation greater_order: strict_order "\<lambda>a b :: 'a::linorder. b < a"
  by unfold_locales auto

end
