(* ===== verification/Recovery.thy ===== *)
theory Recovery
  imports Mold_Udp Std_Map
begin

text \<open>
  \<^verbatim>\<open>include/efe/recovery_engine.hpp\<close> and \<^verbatim>\<open>src/recovery_engine.cpp\<close>: sequencing, buffering of
  future messages and gap requests. Every operation takes the engine's state and returns the
  state it leaves behind together with its result or the exception it throws, because an
  exception does not undo what was already written.
\<close>

section \<open>State and results\<close>

record recovery_engine =
  expected :: seqno
  pending :: "(seqno, u8 list) std_map"
  rec_session :: "u8 list option"
  last_requested_first :: seqno
  last_requested_last :: seqno

record gap_request =
  gap_first :: seqno
  gap_count :: u16

record ingest_result =
  ready :: "mold_message list"
  request :: "gap_request option"
  duplicate_or_stale :: bool
  res_end_of_session :: bool

definition recovery_init :: "seqno \<Rightarrow> recovery_engine" where
  "recovery_init first_expected =
     \<lparr>expected = first_expected, pending = [], rec_session = None,
      last_requested_first = 0, last_requested_last = 0\<rparr>"

definition empty_result :: ingest_result where
  "empty_result = \<lparr>ready = [], request = None, duplicate_or_stale = False, res_end_of_session = False\<rparr>"

section \<open>Operations\<close>

definition maybe_request ::
  "recovery_engine \<Rightarrow> ingest_result \<Rightarrow> seqno \<Rightarrow> recovery_engine \<times> ingest_result" where
  "maybe_request s r observed_next =
     (if observed_next \<le> expected s then (s, r)
      else let last_missing = observed_next - 1
           in if last_requested_first s = expected s \<and> last_requested_last s \<ge> last_missing then (s, r)
              else let gap = last_missing - expected s + 1;
                       count = ucast (min gap 0xFFFE) :: u16
                   in (s\<lparr>last_requested_first := expected s,
                         last_requested_last := expected s + ucast count - 1\<rparr>,
                       r\<lparr>request := Some \<lparr>gap_first = expected s, gap_count = count\<rparr>\<rparr>))"

text \<open>
  The \<open>while (true)\<close> loop of \<open>drain\<close>. At the last sequence number the code erases the same
  iterator a second time, after it has been erased: undefined behaviour, so the throw that
  follows is never reached in a defined execution.
\<close>

function drain_loop :: "recovery_engine \<Rightarrow> ingest_result \<Rightarrow> recovery_engine \<times> ingest_result res" where
  "drain_loop s r =
     (case map_find (pending s) (expected s) of
        None \<Rightarrow> (s, Inr r)
      | Some payload \<Rightarrow>
          let r = r\<lparr>ready := ready r @ [\<lparr>msg_sequence = expected s, msg_payload = payload\<rparr>]\<rparr>;
              s = s\<lparr>pending := map_erase (expected s) (pending s)\<rparr>
          in if expected s = max_u64 then (s, Inl (Undefined ''pending_.erase of an erased iterator''))
             else drain_loop (s\<lparr>expected := expected s + 1\<rparr>) r)"
  by pat_completeness auto
termination
proof (relation "measure (\<lambda>(s, r). length (pending s))")
  fix s :: recovery_engine and r :: ingest_result and p s' r'
  assume "map_find (pending s) (expected s) = Some p"
    and s': "s' = s\<lparr>pending := map_erase (expected s) (pending s)\<rparr>"
  then have "length (map_erase (expected s) (pending s)) < length (pending s)"
    unfolding map_erase_def by (auto dest: map_of_SomeD intro!: length_filter_less)
  then show "((s'\<lparr>expected := expected s' + 1\<rparr>, r'), s, r) \<in> measure (\<lambda>(s, r). length (pending s))"
    by (simp add: s')
qed simp

declare drain_loop.simps [simp del]

definition drain :: "recovery_engine \<Rightarrow> ingest_result \<Rightarrow> recovery_engine \<times> ingest_result res" where
  "drain s r =
     (case drain_loop s r of
        (s, Inl e) \<Rightarrow> (s, Inl e)
      | (s, Inr r) \<Rightarrow>
          (if last_requested_last s < expected s
           then (s\<lparr>last_requested_first := 0, last_requested_last := 0\<rparr>, Inr r)
           else (s, Inr r)))"

text \<open>The loop over the messages of a packet.\<close>

fun ingest_messages ::
  "recovery_engine \<Rightarrow> ingest_result \<Rightarrow> mold_message list \<Rightarrow> recovery_engine \<times> ingest_result res" where
  "ingest_messages s r [] = (s, Inr r)"
| "ingest_messages s r (message # ms) =
     (if msg_sequence message < expected s then
        ingest_messages s (r\<lparr>duplicate_or_stale := True\<rparr>) ms
      else if msg_sequence message = expected s then
        (let r = r\<lparr>ready := ready r @ [message]\<rparr>
         in if expected s = max_u64
            then (s, Inl (DecodeError ''MoldUDP64 sequence number exhausted''))
            else (case drain (s\<lparr>expected := expected s + 1\<rparr>) r of
                    (s, Inl e) \<Rightarrow> (s, Inl e)
                  | (s, Inr r) \<Rightarrow> ingest_messages s r ms))
      else
        ingest_messages
          (s\<lparr>pending := fst (try_emplace (<) (msg_sequence message) (msg_payload message) (pending s))\<rparr>)
          r ms)"

definition ingest ::
  "recovery_engine \<Rightarrow> mold_downstream_packet \<Rightarrow> recovery_engine \<times> ingest_result res" where
  "ingest s packet =
     (let s = (if rec_session s = None then s\<lparr>rec_session := Some (pkt_session packet)\<rparr> else s)
      in if the (rec_session s) \<noteq> pkt_session packet
         then (s, Inl (DecodeError ''MoldUDP64 session changed unexpectedly''))
         else if pkt_heartbeat packet \<or> pkt_end_of_session packet then
           (let (s, r) = maybe_request s empty_result (pkt_first_sequence packet)
            in (s, Inr (r\<lparr>res_end_of_session := pkt_end_of_session packet\<rparr>)))
         else
           (case ingest_messages s empty_result (pkt_messages packet) of
              (s, Inl e) \<Rightarrow> (s, Inl e)
            | (s, Inr r) \<Rightarrow>
                (if pending s \<noteq> [] then
                   (let (s, r) = maybe_request s r (fst (hd (pending s))) in (s, Inr r))
                 else (s, Inr r))))"

section \<open>Invariant and progress\<close>

text \<open>Between packets the buffer is ordered and holds only messages above the next expected one.\<close>

definition rec_inv :: "recovery_engine \<Rightarrow> bool" where
  "rec_inv s \<longleftrightarrow> map_sorted (<) (pending s) \<and> (\<forall>k \<in> fst ` set (pending s). expected s < k)"

text \<open>A sequence number the engine has taken in: released or buffered.\<close>

definition seen :: "recovery_engine \<Rightarrow> seqno \<Rightarrow> bool" where
  "seen s n \<longleftrightarrow> n < expected s \<or> n \<in> fst ` set (pending s)"

text \<open>
  What releasing the messages \<open>out\<close> between two states means: they are numbered without a hole
  from the old to the new expected number, each satisfies \<open>G\<close> as do the messages that stay
  buffered, and no number that was taken in is forgotten.
\<close>

definition buffered :: "(seqno \<Rightarrow> u8 list \<Rightarrow> bool) \<Rightarrow> recovery_engine \<Rightarrow> bool" where
  "buffered G s \<longleftrightarrow> (\<forall>(k, p) \<in> set (pending s). G k p)"

definition good_msgs :: "(seqno \<Rightarrow> u8 list \<Rightarrow> bool) \<Rightarrow> mold_message list \<Rightarrow> bool" where
  "good_msgs G ms \<longleftrightarrow> (\<forall>m \<in> set ms. G (msg_sequence m) (msg_payload m))"

definition seqs :: "mold_message list \<Rightarrow> nat list" where
  "seqs ms = map (unat \<circ> msg_sequence) ms"

definition advance ::
  "(seqno \<Rightarrow> u8 list \<Rightarrow> bool) \<Rightarrow> recovery_engine \<Rightarrow> mold_message list \<Rightarrow> recovery_engine \<Rightarrow> bool" where
  "advance G s out s' \<longleftrightarrow>
     expected s \<le> expected s' \<and>
     seqs out = [unat (expected s)..<unat (expected s')] \<and>
     (buffered G s \<longrightarrow> good_msgs G out \<and> buffered G s') \<and>
     (\<forall>n. seen s n \<longrightarrow> seen s' n)"

lemma seqs_simps [simp]:
  "seqs [] = []"
  "seqs (m # ms) = unat (msg_sequence m) # seqs ms"
  "seqs (ms @ ms') = seqs ms @ seqs ms'"
  "length (seqs ms) = length ms"
  by (simp_all add: seqs_def)

lemma upt_join: "i \<le> j \<Longrightarrow> j \<le> k \<Longrightarrow> [i..<j] @ [j..<k] = [i..<k :: nat]"
  using upt_add_eq_append [of i j "k - j"] by simp

lemma unat_inc: "e \<noteq> max_u64 \<Longrightarrow> unat (e + 1) = unat (e :: u64) + 1"
proof -
  assume "e \<noteq> max_u64"
  then have "unat e \<noteq> unat max_u64" using word_eq_iff_unsigned [of e max_u64] by blast
  then have "unat e + 1 < 2 ^ 64" using unat_u64_less [of e] by simp
  then show ?thesis by (simp add: unat_word_ariths)
qed

lemma inc_le_iff: "e \<noteq> max_u64 \<Longrightarrow> e + 1 \<le> k \<longleftrightarrow> (e :: u64) < k"
  using unat_inc [of e] by (simp add: word_le_nat_alt word_less_nat_alt Suc_le_eq)

lemma less_inc_iff: "e \<noteq> max_u64 \<Longrightarrow> k < e + 1 \<longleftrightarrow> k \<le> (e :: u64)"
  using unat_inc [of e] by (simp add: word_le_nat_alt word_less_nat_alt less_Suc_eq_le)

lemma le_inc: "e \<noteq> max_u64 \<Longrightarrow> (e :: u64) \<le> e + 1"
  using inc_le_iff [of e "e + 1"] by simp

lemmas inc_simps = unat_inc inc_le_iff less_inc_iff le_inc

lemma advance_refl: "advance G s [] s"
  by (simp add: advance_def good_msgs_def)

lemma advance_trans: "advance G s out s1 \<Longrightarrow> advance G s1 out' s2 \<Longrightarrow> advance G s (out @ out') s2"
  unfolding advance_def good_msgs_def
  by (auto simp: word_le_nat_alt upt_join)

text \<open>Fields that do not matter for sequencing.\<close>

lemma advance_fields [simp]:
  "advance G s out (t\<lparr>last_requested_first := a, last_requested_last := b\<rparr>) \<longleftrightarrow> advance G s out t"
  "advance G (s\<lparr>rec_session := c\<rparr>) out t \<longleftrightarrow> advance G s out t"
  by (simp_all add: advance_def buffered_def seen_def)

lemma rec_inv_fields [simp]:
  "rec_inv (t\<lparr>last_requested_first := a, last_requested_last := b\<rparr>) \<longleftrightarrow> rec_inv t"
  "rec_inv (t\<lparr>rec_session := c\<rparr>) \<longleftrightarrow> rec_inv t"
  by (simp_all add: rec_inv_def)

lemma seen_fields [simp]:
  "seen (t\<lparr>last_requested_first := a, last_requested_last := b\<rparr>) = seen t"
  "seen (t\<lparr>rec_session := c\<rparr>) = seen t"
  by (simp_all add: fun_eq_iff seen_def)

lemma advance_release:
  assumes "map_find (pending s) (expected s) = Some p" and "expected s \<noteq> max_u64"
  shows "advance G s [\<lparr>msg_sequence = expected s, msg_payload = p\<rparr>]
    (s\<lparr>pending := map_erase (expected s) (pending s), expected := expected s + 1\<rparr>)"
proof -
  have "(expected s, p) \<in> set (pending s)" using assms(1) by (rule map_of_SomeD)
  then show ?thesis
    using assms(2) by (auto simp: advance_def buffered_def good_msgs_def seen_def map_erase_def inc_simps)
qed

lemma advance_take:
  assumes "msg_sequence m = expected s" and "expected s \<noteq> max_u64"
    and "G (msg_sequence m) (msg_payload m)"
  shows "advance G s [m] (s\<lparr>expected := expected s + 1\<rparr>)"
  using assms by (auto simp: advance_def buffered_def good_msgs_def seen_def inc_simps)

lemma drain_loop_Inr:
  assumes "drain_loop s r = (s', Inr r')"
    and "map_sorted (<) (pending s)" and "\<forall>k \<in> fst ` set (pending s). expected s \<le> k"
  shows "\<exists>out. r' = r\<lparr>ready := ready r @ out\<rparr> \<and> rec_inv s' \<and> advance G s out s' \<and>
    rec_session s' = rec_session s"
  using assms
proof (induction s r rule: drain_loop.induct)
  case (1 s r)
  let ?e = "expected s"
  show ?case
  proof (cases "map_find (pending s) ?e")
    case None
    then have "?e \<notin> fst ` set (pending s)" by (simp add: map_of_eq_None_iff)
    then have "rec_inv s" using "1.prems"(2,3) by (fastforce simp: rec_inv_def intro: le_neq_trans)
    with "1.prems"(1) None show ?thesis
      by (intro exI [of _ "[]"]) (simp add: drain_loop.simps [of s r] advance_refl)
  next
    case (Some p)
    let ?m = "\<lparr>msg_sequence = ?e, msg_payload = p\<rparr>"
    let ?s1 = "s\<lparr>pending := map_erase ?e (pending s), expected := ?e + 1\<rparr>"
    let ?r1 = "r\<lparr>ready := ready r @ [?m]\<rparr>"
    have ne: "?e \<noteq> max_u64"
      using "1.prems"(1) Some by (auto simp: drain_loop.simps [of s r] Let_def)
    have run: "drain_loop ?s1 ?r1 = (s', Inr r')"
      using "1.prems"(1) Some ne by (simp add: drain_loop.simps [of s r] Let_def)
    have "\<forall>k \<in> fst ` set (pending ?s1). expected ?s1 \<le> k"
      using "1.prems"(3) ne by (auto simp: inc_le_iff order.strict_iff_order)
    moreover have "map_sorted (<) (pending ?s1)"
      using "1.prems"(2) by (simp add: less_order.sorted_map_erase)
    ultimately obtain out where out: "r' = ?r1\<lparr>ready := ready ?r1 @ out\<rparr>" "rec_inv s'"
      "advance G ?s1 out s'" "rec_session s' = rec_session ?s1"
      using "1.IH" [OF Some refl refl] ne run by auto
    from advance_trans [OF advance_release [OF Some ne] out(3)] out show ?thesis
      by (intro exI [of _ "?m # out"]) simp
  qed
qed

lemma drain_loop_total:
  assumes "max_u64 \<notin> fst ` set (pending s)"
  shows "\<exists>s' r'. drain_loop s r = (s', Inr r')"
  using assms
proof (induction s r rule: drain_loop.induct)
  case (1 s r)
  show ?case
  proof (cases "map_find (pending s) (expected s)")
    case None
    then show ?thesis by (simp add: drain_loop.simps [of s r])
  next
    case (Some p)
    then have "expected s \<noteq> max_u64"
      using "1.prems" by (metis map_of_SomeD fst_conv image_eqI)
    with "1.IH" [OF Some refl refl] "1.prems" Some show ?thesis
      by (simp add: drain_loop.simps [of s r] Let_def)
  qed
qed

lemma drain_loop_pending: "drain_loop s r = (s', x) \<Longrightarrow> fst ` set (pending s') \<subseteq> fst ` set (pending s)"
proof (induction s r rule: drain_loop.induct)
  case (1 s r)
  show ?case
  proof (cases "map_find (pending s) (expected s)")
    case None
    then show ?thesis using "1.prems" by (simp add: drain_loop.simps [of s r])
  next
    case (Some p)
    show ?thesis
      using "1.IH" [OF Some refl refl] "1.prems" Some
      by (cases "expected s = max_u64") (auto simp: drain_loop.simps [of s r] Let_def map_erase_def)
  qed
qed

text \<open>Reset of the request window only touches fields that do not matter here.\<close>

lemma drain_Inr:
  assumes "drain s r = (s', Inr r')"
    and "map_sorted (<) (pending s)" and "\<forall>k \<in> fst ` set (pending s). expected s \<le> k"
  shows "\<exists>out. r' = r\<lparr>ready := ready r @ out\<rparr> \<and> rec_inv s' \<and> advance G s out s' \<and>
    rec_session s' = rec_session s"
proof -
  obtain t where "drain_loop s r = (t, Inr r')"
    and s': "s' = t \<or> s' = t\<lparr>last_requested_first := 0, last_requested_last := 0\<rparr>"
    using assms(1) by (auto simp: drain_def split: prod.splits sum.splits if_splits)
  from drain_loop_Inr [OF this(1) assms(2,3), of G] s' show ?thesis by auto
qed

lemma drain_total:
  assumes "max_u64 \<notin> fst ` set (pending s)"
  shows "\<exists>s' r'. drain s r = (s', Inr r') \<and> max_u64 \<notin> fst ` set (pending s')"
proof -
  obtain t r' where d: "drain_loop s r = (t, Inr r')"
    using drain_loop_total [OF assms] by blast
  from drain_loop_pending [OF d] assms have "max_u64 \<notin> fst ` set (pending t)" by blast
  with d show ?thesis by (simp add: drain_def)
qed

text \<open>Taking in one message: stale, next or future.\<close>

lemma rec_inv_future:
  assumes "rec_inv s" and "expected s < msg_sequence m"
  shows "rec_inv (s\<lparr>pending := fst (try_emplace (<) (msg_sequence m) (msg_payload m) (pending s))\<rparr>)"
proof -
  have "\<forall>k \<in> fst ` set (fst (try_emplace (<) (msg_sequence m) (msg_payload m) (pending s))). expected s < k"
    unfolding keys_try_emplace using assms by (auto simp: rec_inv_def)
  then show ?thesis
    using assms by (simp add: rec_inv_def less_order.sorted_try_emplace)
qed

lemma advance_future:
  assumes "G (msg_sequence m) (msg_payload m)"
  shows "advance G s [] (s\<lparr>pending := fst (try_emplace (<) (msg_sequence m) (msg_payload m) (pending s))\<rparr>)"
  using assms try_emplace_subset [of "(<)" "msg_sequence m" "msg_payload m" "pending s"]
  by (auto simp: advance_def buffered_def good_msgs_def seen_def simp del: bex_simps)

lemma seen_future:
  "seen (s\<lparr>pending := fst (try_emplace (<) (msg_sequence m) (msg_payload m) (pending s))\<rparr>) (msg_sequence m)"
  by (simp add: seen_def)

definition frame :: "ingest_result \<Rightarrow> mold_message list \<Rightarrow> ingest_result \<Rightarrow> bool" where
  "frame r out r' \<longleftrightarrow> ready r' = ready r @ out \<and> request r' = request r \<and>
     res_end_of_session r' = res_end_of_session r"

text \<open>The message that is expected is released, and then what the buffer holds after it.\<close>

lemma ingest_next:
  assumes inv: "rec_inv s" and m: "msg_sequence m = expected s" "G (msg_sequence m) (msg_payload m)"
    and ne: "expected s \<noteq> max_u64"
    and dr: "drain (s\<lparr>expected := expected s + 1\<rparr>) (r\<lparr>ready := ready r @ [m]\<rparr>) = (s', Inr r')"
  shows "\<exists>out. frame r (m # out) r' \<and> rec_inv s' \<and> advance G s (m # out) s' \<and> seen s' (msg_sequence m) \<and>
    rec_session s' = rec_session s"
proof -
  let ?s = "s\<lparr>expected := expected s + 1\<rparr>" and ?r = "r\<lparr>ready := ready r @ [m]\<rparr>"
  have "map_sorted (<) (pending ?s)" "\<forall>k \<in> fst ` set (pending ?s). expected ?s \<le> k"
    using inv ne by (auto simp: rec_inv_def inc_simps)
  from drain_Inr [OF dr this, of G] obtain out where out: "r' = ?r\<lparr>ready := ready ?r @ out\<rparr>"
    "rec_inv s'" "advance G ?s out s'" "rec_session s' = rec_session s" by auto
  have "advance G s (m # out) s'"
    using advance_trans [OF advance_take [of m s G, OF m(1) ne m(2)] out(3)] by simp
  moreover have "seen s' (msg_sequence m)" using out(3) ne m(1) by (auto simp: advance_def seen_def inc_simps)
  ultimately show ?thesis using out by (auto simp: frame_def)
qed

lemma ingest_messages_Inr:
  assumes "ingest_messages s r ms = (s', Inr r')" and "rec_inv s" and "good_msgs G ms"
  shows "\<exists>out. frame r out r' \<and> rec_inv s' \<and> advance G s out s' \<and>
    (\<forall>m \<in> set ms. seen s' (msg_sequence m)) \<and> rec_session s' = rec_session s"
  using assms
proof (induction ms arbitrary: s r)
  case Nil
  then show ?case by (auto simp: frame_def intro: advance_refl)
next
  case (Cons m ms)
  have G: "G (msg_sequence m) (msg_payload m)" "good_msgs G ms"
    using Cons.prems(3) by (simp_all add: good_msgs_def)
  consider (stale) "msg_sequence m < expected s" | (nxt) "msg_sequence m = expected s"
    | (future) "expected s < msg_sequence m" by (rule linorder_cases)
  then show ?case
  proof cases
    case stale
    then have run: "ingest_messages s (r\<lparr>duplicate_or_stale := True\<rparr>) ms = (s', Inr r')"
      using Cons.prems(1) by simp
    from Cons.IH [OF run Cons.prems(2) G(2)] stale show ?thesis
      by (auto simp: frame_def advance_def seen_def)
  next
    case nxt
    have ne: "expected s \<noteq> max_u64" using Cons.prems(1) nxt by (auto simp: Let_def)
    obtain s2 r2 where dr: "drain (s\<lparr>expected := expected s + 1\<rparr>) (r\<lparr>ready := ready r @ [m]\<rparr>) = (s2, Inr r2)"
      and run: "ingest_messages s2 r2 ms = (s', Inr r')"
      using Cons.prems(1) nxt ne by (auto simp: Let_def split: prod.splits sum.splits)
    from ingest_next [of s m G, OF Cons.prems(2) nxt G(1) ne dr] obtain out where out: "frame r (m # out) r2" "rec_inv s2"
      "advance G s (m # out) s2" "seen s2 (msg_sequence m)" "rec_session s2 = rec_session s" by blast
    from Cons.IH [OF run out(2) G(2)] obtain out' where o': "frame r2 out' r'" "rec_inv s'"
      "advance G s2 out' s'" "\<forall>m \<in> set ms. seen s' (msg_sequence m)" "rec_session s' = rec_session s2"
      by blast
    then have "seen s' (msg_sequence m)" using out(4) by (simp add: advance_def)
    with advance_trans [OF out(3) o'(3)] o' out show ?thesis
      by (intro exI [of _ "(m # out) @ out'"]) (auto simp: frame_def)
  next
    case future
    let ?s1 = "s\<lparr>pending := fst (try_emplace (<) (msg_sequence m) (msg_payload m) (pending s))\<rparr>"
    have "\<not> msg_sequence m < expected s" "msg_sequence m \<noteq> expected s"
      using future by auto
    then have run: "ingest_messages ?s1 r ms = (s', Inr r')"
      using Cons.prems(1) by simp
    from Cons.IH [OF run rec_inv_future [OF Cons.prems(2) future] G(2)]
    obtain out where o: "frame r out r'" "rec_inv s'" "advance G ?s1 out s'"
      "\<forall>m \<in> set ms. seen s' (msg_sequence m)" "rec_session s' = rec_session s" by auto
    from advance_trans [OF advance_future [of G m s, OF G(1)] o(3)] have "advance G s out s'" by simp
    moreover have "seen s' (msg_sequence m)"
      using o(3) seen_future by (auto simp: advance_def)
    ultimately show ?thesis using o by auto
  qed
qed

lemma ingest_messages_total:
  assumes "max_u64 \<notin> fst ` set (pending s)" and "\<forall>m \<in> set ms. msg_sequence m \<noteq> max_u64"
  shows "\<exists>s' r'. ingest_messages s r ms = (s', Inr r') \<and> max_u64 \<notin> fst ` set (pending s')"
  using assms
proof (induction ms arbitrary: s r)
  case Nil
  then show ?case by simp
next
  case (Cons m ms)
  show ?case
  proof (cases "msg_sequence m = expected s")
    case True
    obtain s2 r2 where d: "drain (s\<lparr>expected := expected s + 1\<rparr>) (r\<lparr>ready := ready r @ [m]\<rparr>) = (s2, Inr r2)"
      "max_u64 \<notin> fst ` set (pending s2)"
      using drain_total [of "s\<lparr>expected := expected s + 1\<rparr>" "r\<lparr>ready := ready r @ [m]\<rparr>"] Cons.prems(1)
      by (auto simp del: bex_simps)
    from Cons.IH [OF d(2), of r2] Cons.prems(2) d(1) True show ?thesis
      by (simp add: Let_def)
  next
    case False
    have "max_u64 \<notin> fst ` set (fst (try_emplace (<) (msg_sequence m) (msg_payload m) (pending s)))"
      using Cons.prems by (auto simp del: bex_simps)
    then show ?thesis
      using Cons.IH [of s] Cons.prems False
        Cons.IH [of "s\<lparr>pending := fst (try_emplace (<) (msg_sequence m) (msg_payload m) (pending s))\<rparr>"]
      by simp
  qed
qed

section \<open>Requests\<close>

lemma window_self: "\<exists>a b. s = s\<lparr>last_requested_first := a, last_requested_last := b\<rparr>"
  by (rule exI [of _ "last_requested_first s"], rule exI [of _ "last_requested_last s"]) simp

lemma request_self: "\<exists>q. r = r\<lparr>request := q\<rparr>"
  by (rule exI [of _ "request r"]) simp

lemma maybe_request_state:
  "maybe_request s r n = (s', r') \<Longrightarrow>
     \<exists>a b q. s' = s\<lparr>last_requested_first := a, last_requested_last := b\<rparr> \<and> r' = r\<lparr>request := q\<rparr>"
  by (auto simp: maybe_request_def Let_def split: if_splits intro: window_self request_self)

lemma gap_arith:
  assumes "e < (n :: u64)"
  shows "unat (n - 1 - e + 1) = unat n - unat e"
    and "unat (ucast (min (n - 1 - e + 1) 0xFFFE) :: u16) = min (unat n - unat e) 0xFFFE"
proof -
  have "n - 1 - e + 1 = n - e" by simp
  then show g: "unat (n - 1 - e + 1) = unat n - unat e"
    using assms by (simp add: unat_sub)
  have "unat (min (n - 1 - e + 1) 0xFFFE) = min (unat n - unat e) 0xFFFE"
    using g by (simp add: min_def word_le_nat_alt)
  then show "unat (ucast (min (n - 1 - e + 1) 0xFFFE) :: u16) = min (unat n - unat e) 0xFFFE"
    by (simp add: unsigned_ucast_eq take_bit_eq_mod)
qed

lemma maybe_request_Some:
  assumes "maybe_request s r n = (s', r')" and "request r = None" and "request r' = Some q"
  shows "expected s < n" and "gap_first q = expected s"
    and "unat (gap_count q) = min (unat n - unat (expected s)) 0xFFFE"
proof -
  from assms show e: "expected s < n"
    by (auto simp: maybe_request_def split: if_splits)
  from assms have "q = \<lparr>gap_first = expected s, gap_count = ucast (min (n - 1 - expected s + 1) 0xFFFE)\<rparr>"
    by (auto simp: maybe_request_def Let_def split: if_splits)
  then show "gap_first q = expected s" "unat (gap_count q) = min (unat n - unat (expected s)) 0xFFFE"
    using gap_arith [OF e] by simp_all
qed

lemma maybe_request_None:
  assumes "maybe_request s r n = (s', r')" and "request r' = None"
  shows "n \<le> expected s \<or> last_requested_first s' = expected s \<and> n - 1 \<le> last_requested_last s'"
  using assms by (auto simp: maybe_request_def Let_def split: if_splits)

section \<open>Whole packets\<close>

definition carried :: "mold_downstream_packet \<Rightarrow> mold_message list" where
  "carried p = (if pkt_heartbeat p \<or> pkt_end_of_session p then [] else pkt_messages p)"

lemma ingest_Inr:
  assumes "ingest s p = (s', Inr r)" and "rec_inv s" and "good_msgs G (carried p)"
  shows "rec_inv s' \<and> advance G s (ready r) s' \<and> (\<forall>m \<in> set (carried p). seen s' (msg_sequence m)) \<and>
    rec_session s' = Some (pkt_session p)"
proof -
  define t where "t = (if rec_session s = None then s\<lparr>rec_session := Some (pkt_session p)\<rparr> else s)"
  have t: "rec_inv t" "\<And>out u. advance G t out u \<longleftrightarrow> advance G s out u"
    using assms(2) by (simp_all add: t_def)
  have sess: "rec_session t = Some (pkt_session p)"
    using assms(1) by (auto simp: t_def ingest_def Let_def split: if_splits)
  show ?thesis
  proof (cases "pkt_heartbeat p \<or> pkt_end_of_session p")
    case True
    then obtain r1 where "maybe_request t empty_result (pkt_first_sequence p) = (s', r1)"
      and r: "r = r1\<lparr>res_end_of_session := pkt_end_of_session p\<rparr>"
      using assms(1) sess by (auto simp: ingest_def t_def [symmetric] Let_def split: prod.splits)
    with maybe_request_state [OF this(1)] t sess True show ?thesis
      using t(2) [of "[]" t] advance_refl [of G t]
      by (auto simp: carried_def empty_result_def)
  next
    case False
    then obtain t1 r1 where im: "ingest_messages t empty_result (pkt_messages p) = (t1, Inr r1)"
      and fin: "s' = t1 \<and> r = r1 \<or> (\<exists>n. maybe_request t1 r1 n = (s', r))"
      using assms(1) sess
      by (auto simp: ingest_def t_def [symmetric] Let_def split: prod.splits sum.splits if_splits)
    have "good_msgs G (pkt_messages p)" using assms(3) False by (simp add: carried_def)
    from ingest_messages_Inr [OF im t(1) this] fin t sess False show ?thesis
      by (auto simp: frame_def carried_def empty_result_def dest: maybe_request_state)
  qed
qed

text \<open>Sequencing never touches the session or the request, so a request is one \<open>maybe_request\<close> made.\<close>

lemma drain_loop_keeps:
  "drain_loop s r = (s', Inr r') \<Longrightarrow>
   request r' = request r \<and> res_end_of_session r' = res_end_of_session r \<and> rec_session s' = rec_session s"
proof (induction s r rule: drain_loop.induct)
  case (1 s r)
  show ?case
  proof (cases "map_find (pending s) (expected s)")
    case None
    then show ?thesis using "1.prems" by (simp add: drain_loop.simps [of s r])
  next
    case (Some p)
    then show ?thesis
      using "1.IH" [OF Some refl refl] "1.prems"
      by (cases "expected s = max_u64") (auto simp: drain_loop.simps [of s r] Let_def)
  qed
qed

lemma ingest_messages_keeps:
  "ingest_messages s r ms = (s', Inr r') \<Longrightarrow>
   request r' = request r \<and> res_end_of_session r' = res_end_of_session r \<and> rec_session s' = rec_session s"
proof (induction ms arbitrary: s r)
  case (Cons m ms)
  have d: "drain s1 r1 = (s2, Inr r2) \<Longrightarrow>
      request r2 = request r1 \<and> res_end_of_session r2 = res_end_of_session r1 \<and> rec_session s2 = rec_session s1" for s1 r1 s2 r2
    using drain_loop_keeps [of s1 r1] by (auto simp: drain_def split: prod.splits sum.splits if_splits)
  from Cons show ?case by (force simp: Let_def split: if_splits prod.splits sum.splits dest: d)
qed simp

lemma ingest_request:
  assumes "ingest s p = (s', Inr r)"
  shows "rec_session s' = Some (pkt_session p) \<and>
    (\<forall>q. request r = Some q \<longrightarrow> 1 \<le> unat (gap_count q) \<and> unat (gap_count q) \<le> 0xFFFE)"
proof -
  define t where "t = (if rec_session s = None then s\<lparr>rec_session := Some (pkt_session p)\<rparr> else s)"
  have sess: "rec_session t = Some (pkt_session p)"
    using assms by (auto simp: t_def ingest_def Let_def split: if_splits)
  have "\<exists>t1 r0. request r0 = None \<and> rec_session t1 = rec_session t \<and>
      (rec_session s' = rec_session t1 \<and> request r = None \<or> (\<exists>n r1. maybe_request t1 r0 n = (s', r1) \<and> request r = request r1))"
  proof (cases "pkt_heartbeat p \<or> pkt_end_of_session p")
    case True
    then have "\<exists>r1. maybe_request t empty_result (pkt_first_sequence p) = (s', r1) \<and> request r = request r1"
      using assms sess by (auto simp: ingest_def t_def [symmetric] Let_def split: prod.splits)
    then show ?thesis by (intro exI [of _ t] exI [of _ empty_result]) (auto simp: empty_result_def)
  next
    case False
    then obtain t1 r1 where im: "ingest_messages t empty_result (pkt_messages p) = (t1, Inr r1)"
      and fin: "s' = t1 \<and> r = r1 \<or> (\<exists>n. maybe_request t1 r1 n = (s', r))"
      using assms sess by (auto simp: ingest_def t_def [symmetric] Let_def split: prod.splits sum.splits if_splits)
    then show ?thesis using ingest_messages_keeps [OF im] by (auto simp: empty_result_def)
  qed
  then obtain t1 r0 where k: "request r0 = None" "rec_session t1 = Some (pkt_session p)"
    "rec_session s' = rec_session t1 \<and> request r = None \<or> (\<exists>n r1. maybe_request t1 r0 n = (s', r1) \<and> request r = request r1)"
    using sess by auto
  show ?thesis
  proof (cases "request r")
    case None
    with k show ?thesis by (auto dest: maybe_request_state)
  next
    case (Some q)
    with k obtain n r1 where m: "maybe_request t1 r0 n = (s', r1)" "request r1 = Some q" by auto
    from maybe_request_Some [OF m(1) k(1) m(2)] maybe_request_state [OF m(1)] k(2) Some show ?thesis
      by (auto simp: word_less_nat_alt)
  qed
qed

lemma ingest_end_of_session:
  assumes "ingest s p = (s', Inr r)"
  shows "res_end_of_session r = pkt_end_of_session p"
proof (cases "pkt_heartbeat p \<or> pkt_end_of_session p")
  case True
  with assms show ?thesis by (auto simp: ingest_def Let_def split: if_splits prod.splits)
next
  case False
  then obtain t t1 r1 where im: "ingest_messages t empty_result (pkt_messages p) = (t1, Inr r1)"
    and fin: "r = r1 \<or> (\<exists>n. maybe_request t1 r1 n = (s', r))"
    using assms by (auto simp: ingest_def Let_def split: prod.splits sum.splits if_splits)
  then have "res_end_of_session r = res_end_of_session r1" by (auto dest: maybe_request_state)
  with ingest_messages_keeps [OF im] False show ?thesis by (simp add: empty_result_def)
qed

lemma ingest_total:
  assumes "max_u64 \<notin> fst ` set (pending s)" and "\<forall>m \<in> set (carried p). msg_sequence m \<noteq> max_u64"
    and "rec_session s = None \<or> rec_session s = Some (pkt_session p)"
  shows "\<exists>s' r. ingest s p = (s', Inr r) \<and> max_u64 \<notin> fst ` set (pending s')"
proof -
  define t where "t = (if rec_session s = None then s\<lparr>rec_session := Some (pkt_session p)\<rparr> else s)"
  have t: "rec_session t = Some (pkt_session p)" "pending t = pending s"
    using assms(3) by (auto simp: t_def)
  show ?thesis
  proof (cases "pkt_heartbeat p \<or> pkt_end_of_session p")
    case True
    obtain s' r where m: "maybe_request t empty_result (pkt_first_sequence p) = (s', r)" by fastforce
    with maybe_request_state [OF m] True t assms(1) show ?thesis
      by (auto simp: ingest_def t_def [symmetric] Let_def simp del: bex_simps)
  next
    case False
    then obtain t1 r1 where im: "ingest_messages t empty_result (pkt_messages p) = (t1, Inr r1)"
      and mx: "max_u64 \<notin> fst ` set (pending t1)"
      using ingest_messages_total [of t "pkt_messages p" empty_result] assms(1,2) t
      by (auto simp: carried_def simp del: bex_simps)
    obtain s' r where m: "maybe_request t1 r1 (fst (hd (pending t1))) = (s', r)" by fastforce
    with maybe_request_state [OF m] im mx t False show ?thesis
      by (auto simp: ingest_def t_def [symmetric] Let_def simp del: bex_simps)
  qed
qed

section \<open>Runs\<close>

text \<open>
  The processing loops of \<^verbatim>\<open>src/main.cpp\<close> feed packets one by one, hand on what each releases,
  and stop at the first exception.
\<close>

fun run_steps ::
  "('s \<Rightarrow> 'p \<Rightarrow> 's \<times> 'r res) \<Rightarrow> ('r \<Rightarrow> 'm list) \<Rightarrow> 's \<Rightarrow> 'p list \<Rightarrow> 's \<times> 'm list \<times> exn option" where
  "run_steps step released s [] = (s, [], None)"
| "run_steps step released s (p # ps) =
     (case step s p of
        (s, Inl e) \<Rightarrow> (s, [], Some e)
      | (s, Inr r) \<Rightarrow>
          (case run_steps step released s ps of (s, ms, e) \<Rightarrow> (s, released r @ ms, e)))"

text \<open>The messages numbered \<open>a\<close> up to but not including \<open>b\<close> of a source stream.\<close>

definition stream :: "(seqno \<Rightarrow> u8 list) \<Rightarrow> seqno \<Rightarrow> seqno \<Rightarrow> mold_message list" where
  "stream f a b = map (\<lambda>n. \<lparr>msg_sequence = of_nat n, msg_payload = f (of_nat n)\<rparr>) [unat a..<unat b]"

text \<open>
  What the consumer of a sequencer relies on. \<open>nxt\<close> is the next number to be released, \<open>taken\<close>
  the numbers released or held back, and \<open>held\<close> a predicate on the messages held back.
\<close>

locale sequencer =
  fixes step :: "'s \<Rightarrow> 'p \<Rightarrow> 's \<times> 'r res"
    and released :: "'r \<Rightarrow> mold_message list"
    and carries :: "'p \<Rightarrow> mold_message list"
    and nxt :: "'s \<Rightarrow> seqno"
    and taken :: "'s \<Rightarrow> seqno \<Rightarrow> bool"
    and held :: "(seqno \<Rightarrow> u8 list \<Rightarrow> bool) \<Rightarrow> 's \<Rightarrow> bool"
    and inv :: "'s \<Rightarrow> bool"
  assumes step_inv: "inv s \<Longrightarrow> step s p = (s', Inr r) \<Longrightarrow> inv s'"
    and step_contiguous: "inv s \<Longrightarrow> step s p = (s', Inr r) \<Longrightarrow>
      nxt s \<le> nxt s' \<and> seqs (released r) = [unat (nxt s)..<unat (nxt s')]"
    and step_authentic: "inv s \<Longrightarrow> step s p = (s', Inr r) \<Longrightarrow> held G s \<Longrightarrow> good_msgs G (carries p) \<Longrightarrow>
      good_msgs G (released r) \<and> held G s'"
    and step_taken: "inv s \<Longrightarrow> step s p = (s', Inr r) \<Longrightarrow> m \<in> set (carries p) \<Longrightarrow> taken s' (msg_sequence m)"
    and step_keeps: "inv s \<Longrightarrow> step s p = (s', Inr r) \<Longrightarrow> taken s n \<Longrightarrow> taken s' n"
    and nxt_open: "inv s \<Longrightarrow> \<not> taken s (nxt s)"
    and below_taken: "n < nxt s \<Longrightarrow> taken s n"
begin

lemma run_contiguous:
  "inv s \<Longrightarrow> run_steps step released s ps = (s', ms, e) \<Longrightarrow>
     seqs ms = [unat (nxt s)..<unat (nxt s) + length ms]"
proof (induction ps arbitrary: s ms)
  case Nil
  then show ?case by simp
next
  case (Cons p ps)
  obtain s1 x where st: "step s p = (s1, x)" by fastforce
  show ?case
  proof (cases x)
    case (Inl err)
    then show ?thesis using Cons.prems(2) st by auto
  next
    case (Inr r)
    obtain ms' where ms': "run_steps step released s1 ps = (s', ms', e)" and ms: "ms = released r @ ms'"
      using Cons.prems(2) st Inr by (auto split: prod.splits)
    have c: "unat (nxt s) \<le> unat (nxt s1)"
      "seqs (released r) = [unat (nxt s)..<unat (nxt s1)]"
      using step_contiguous [OF Cons.prems(1) st [unfolded Inr]] by (simp_all add: word_le_nat_alt)
    have len: "length (released r) = unat (nxt s1) - unat (nxt s)"
      using arg_cong [OF c(2), of length] by simp
    have "seqs ms' = [unat (nxt s1)..<unat (nxt s1) + length ms']"
      using Cons.IH [OF step_inv [OF Cons.prems(1) st [unfolded Inr]] ms'] .
    then show ?thesis
      using c len ms by (simp add: upt_join)
  qed
qed

lemma run_invariants:
  "inv s \<Longrightarrow> run_steps step released s ps = (s', ms, None) \<Longrightarrow>
     inv s' \<and> nxt s \<le> nxt s' \<and> seqs ms = [unat (nxt s)..<unat (nxt s')] \<and>
     (\<forall>n. taken s n \<longrightarrow> taken s' n) \<and>
     (\<forall>p \<in> set ps. \<forall>m \<in> set (carries p). taken s' (msg_sequence m))"
proof (induction ps arbitrary: s ms)
  case Nil
  then show ?case by simp
next
  case (Cons q ps)
  obtain s1 r ms' where o: "step s q = (s1, Inr r)" "run_steps step released s1 ps = (s', ms', None)"
    "ms = released r @ ms'"
    using Cons.prems(2) by (auto split: prod.splits sum.splits)
  note IH = Cons.IH [OF step_inv [OF Cons.prems(1) o(1)] o(2)]
  note c = step_contiguous [OF Cons.prems(1) o(1)]
  have "seqs ms = [unat (nxt s)..<unat (nxt s')]"
    using IH c o(3) by (simp add: upt_join word_le_nat_alt)
  moreover have "\<forall>n. taken s n \<longrightarrow> taken s' n"
    using IH step_keeps [OF Cons.prems(1) o(1)] by blast
  moreover have "\<forall>p \<in> set (q # ps). \<forall>m \<in> set (carries p). taken s' (msg_sequence m)"
    using IH step_taken [OF Cons.prems(1) o(1)] by auto
  ultimately show ?case using IH c by auto
qed

lemma run_authentic:
  "inv s \<Longrightarrow> run_steps step released s ps = (s', ms, None) \<Longrightarrow> held G s \<Longrightarrow>
     \<forall>p \<in> set ps. good_msgs G (carries p) \<Longrightarrow> good_msgs G ms \<and> held G s'"
proof (induction ps arbitrary: s ms)
  case Nil
  then show ?case by (simp add: good_msgs_def)
next
  case (Cons p ps)
  obtain s1 r ms' where o: "step s p = (s1, Inr r)" "run_steps step released s1 ps = (s', ms', None)"
    "ms = released r @ ms'"
    using Cons.prems(2) by (auto split: prod.splits sum.splits)
  have "good_msgs G (released r) \<and> held G s1"
    using step_authentic [OF Cons.prems(1) o(1) Cons.prems(3)] Cons.prems(4) by simp
  with Cons.IH [OF step_inv [OF Cons.prems(1) o(1)] o(2)] Cons.prems(4) o(3) show ?case
    by (auto simp: good_msgs_def)
qed

text \<open>Every number up to \<open>b\<close> has been carried: all of them are released.\<close>

lemma run_complete:
  assumes "inv s" and "run_steps step released s ps = (s', ms, None)"
    and "\<forall>n. nxt s \<le> n \<and> n < b \<longrightarrow> (\<exists>p \<in> set ps. \<exists>m \<in> set (carries p). msg_sequence m = n)"
  shows "b \<le> nxt s'"
proof (rule ccontr)
  assume "\<not> b \<le> nxt s'"
  then have "nxt s' < b" by simp
  moreover have "nxt s \<le> nxt s'" using run_invariants [OF assms(1,2)] by blast
  ultimately obtain p m where "p \<in> set ps" "m \<in> set (carries p)" "msg_sequence m = nxt s'"
    using assms(3) by blast
  then have "taken s' (nxt s')" using run_invariants [OF assms(1,2)] by metis
  then show False using nxt_open run_invariants [OF assms(1,2)] by blast
qed

lemma run_stream:
  assumes "inv s" and "run_steps step released s ps = (s', ms, None)"
    and "held (\<lambda>n p. p = f n) s" and "\<forall>p \<in> set ps. good_msgs (\<lambda>n p. p = f n) (carries p)"
  shows "ms = stream f (nxt s) (nxt s')"
proof -
  have sq: "seqs ms = [unat (nxt s)..<unat (nxt s')]"
    using run_invariants [OF assms(1,2)] by blast
  have "\<forall>m \<in> set ms. m = \<lparr>msg_sequence = of_nat (unat (msg_sequence m)),
      msg_payload = f (of_nat (unat (msg_sequence m)))\<rparr>"
    using run_authentic [OF assms] by (simp add: good_msgs_def)
  then have "ms = map (\<lambda>n. \<lparr>msg_sequence = of_nat n, msg_payload = f (of_nat n)\<rparr>) (seqs ms)"
    by (induction ms) auto
  then show ?thesis by (simp add: stream_def sq)
qed

end

text \<open>The recovery engine is a sequencer.\<close>

interpretation recovery: sequencer ingest ready carried expected seen buffered rec_inv
proof unfold_locales
  fix s p s' r and G :: "seqno \<Rightarrow> u8 list \<Rightarrow> bool" and n m
  have any: "good_msgs (\<lambda>_ _. True) (carried p)" by (simp add: good_msgs_def)
  show "rec_inv s'" if "rec_inv s" "ingest s p = (s', Inr r)"
    using ingest_Inr [OF that(2,1) any] by blast
  show "expected s \<le> expected s' \<and> seqs (ready r) = [unat (expected s)..<unat (expected s')]"
    if "rec_inv s" "ingest s p = (s', Inr r)"
    using ingest_Inr [OF that(2,1) any] by (simp add: advance_def)
  show "good_msgs G (ready r) \<and> buffered G s'"
    if "rec_inv s" "ingest s p = (s', Inr r)" "buffered G s" "good_msgs G (carried p)"
    using ingest_Inr [OF that(2,1,4)] that(3) by (simp add: advance_def)
  show "seen s' (msg_sequence m)" if "rec_inv s" "ingest s p = (s', Inr r)" "m \<in> set (carried p)"
    using ingest_Inr [OF that(2,1) any] that(3) by blast
  show "seen s' n" if "rec_inv s" "ingest s p = (s', Inr r)" "seen s n"
    using ingest_Inr [OF that(2,1) any] that(3) by (simp add: advance_def)
  show "\<not> seen s (expected s)" if "rec_inv s"
    using that by (auto simp: rec_inv_def seen_def)
  show "seen s n" if "n < expected s"
    using that by (simp add: seen_def)
qed

lemma rec_inv_init [simp]: "rec_inv (recovery_init a)"
  by (simp add: rec_inv_def recovery_init_def)

lemma buffered_init [simp]: "buffered G (recovery_init a)"
  by (simp add: buffered_def recovery_init_def)

lemma run_total:
  assumes "max_u64 \<notin> fst ` set (pending s)"
    and "\<forall>p \<in> set ps. pkt_session p = sess \<and> (\<forall>m \<in> set (carried p). msg_sequence m \<noteq> max_u64)"
    and "rec_session s = None \<or> rec_session s = Some sess" and "rec_inv s"
  shows "\<exists>s' ms. run_steps ingest ready s ps = (s', ms, None)"
  using assms
proof (induction ps arbitrary: s)
  case Nil
  then show ?case by simp
next
  case (Cons p ps)
  obtain s1 r where o: "ingest s p = (s1, Inr r)" "max_u64 \<notin> fst ` set (pending s1)"
    using ingest_total [OF Cons.prems(1), of p] Cons.prems(2,3) by auto
  have "rec_inv s1 \<and> rec_session s1 = Some sess"
    using ingest_Inr [OF o(1) Cons.prems(4), of "\<lambda>_ _. True"] Cons.prems(2) by (simp add: good_msgs_def)
  with Cons.IH [OF o(2)] Cons.prems(2) obtain s2 ms where "run_steps ingest ready s1 ps = (s2, ms, None)"
    by auto
  with o show ?case by simp
qed

lemma maybe_request_window:
  assumes "maybe_request s r n = (s', r')" and "expected s < n"
  shows "last_requested_first s' = expected s'"
    and "min (unat n) (unat (expected s') + 0xFFFE) \<le> unat (last_requested_last s') + 1"
proof -
  let ?c = "ucast (min (n - 1 - expected s + 1) 0xFFFE) :: u16"
  have n1: "unat (n - 1) = unat n - 1"
    using assms(2) by (intro unat_minus_one) auto
  have c: "unat ?c = min (unat n - unat (expected s)) 0xFFFE" "0 < unat ?c"
    using gap_arith(2) [OF assms(2)] assms(2) by (simp_all add: word_less_nat_alt)
  have "unat (expected s) + unat ?c \<le> unat n" using c assms(2) by (auto simp: word_less_nat_alt)
  then have fits: "unat (expected s) + unat ?c < 2 ^ 64" using unat_u64_less [of n] by simp
  have "unat (expected s + ucast ?c) = unat (expected s) + unat ?c"
    using fits by (simp add: unat_word_ariths unsigned_ucast_eq take_bit_eq_mod)
  then have l: "unat (expected s + ucast ?c - 1) = unat (expected s) + unat ?c - 1"
    using c(2) by (subst unat_minus_one) auto
  show "last_requested_first s' = expected s'"
    using assms by (auto simp: maybe_request_def Let_def split: if_splits)
  show "min (unat n) (unat (expected s') + 0xFFFE) \<le> unat (last_requested_last s') + 1"
  proof (cases "last_requested_first s = expected s \<and> last_requested_last s \<ge> n - 1")
    case True
    moreover have "\<not> n \<le> expected s" using assms(2) by simp
    ultimately have "s' = s" using assms(1) by (simp add: maybe_request_def)
    with True n1 show ?thesis by (auto simp: word_le_nat_alt min_def)
  next
    case False
    then have "s' = s\<lparr>last_requested_first := expected s, last_requested_last := expected s + ucast ?c - 1\<rparr>"
      using assms by (auto simp: maybe_request_def Let_def not_le split: if_splits)
    then show ?thesis using l c by (simp add: min_def split: if_splits)
  qed
qed

lemma ingest_messages_request: "ingest_messages s r ms = (s', Inr r') \<Longrightarrow> rec_inv s \<Longrightarrow> request r' = request r"
  using ingest_messages_Inr [of s r ms s' r' "\<lambda>_ _. True"] by (auto simp: frame_def good_msgs_def)

text \<open>A data packet that leaves a hole ends with a look at the first buffered message.\<close>

lemma ingest_data_hole:
  assumes "ingest s p = (s', Inr r)" and "rec_inv s" and "\<not> pkt_heartbeat p" and "\<not> pkt_end_of_session p"
    and "pending s' \<noteq> [] \<or> request r \<noteq> None"
  shows "\<exists>t r0. maybe_request t r0 (fst (hd (pending s'))) = (s', r) \<and> request r0 = None \<and>
    pending s' \<noteq> [] \<and> expected t = expected s' \<and> expected s' < fst (hd (pending s'))"
proof -
  define t where "t = (if rec_session s = None then s\<lparr>rec_session := Some (pkt_session p)\<rparr> else s)"
  have sess: "the (rec_session t) = pkt_session p" and t: "rec_inv t"
    using assms(1,2) by (auto simp: t_def ingest_def Let_def split: if_splits)
  obtain t1 r1 where im: "ingest_messages t empty_result (pkt_messages p) = (t1, Inr r1)"
    and fin: "pending t1 = [] \<and> s' = t1 \<and> r = r1 \<or>
      pending t1 \<noteq> [] \<and> maybe_request t1 r1 (fst (hd (pending t1))) = (s', r)"
    using assms sess by (auto simp: ingest_def t_def [symmetric] Let_def split: prod.splits sum.splits if_splits)
  have none: "request r1 = None"
    using ingest_messages_request [OF im t] by (simp add: empty_result_def)
  have m: "maybe_request t1 r1 (fst (hd (pending t1))) = (s', r)" and ne: "pending t1 \<noteq> []"
    using fin assms(5) none by auto
  then have "expected t1 = expected s'" "pending t1 = pending s'"
    using maybe_request_state by fastforce+
  moreover from this have "expected s' < fst (hd (pending s'))"
    using ingest_Inr [OF assms(1,2), of "\<lambda>_ _. True"] ne by (auto simp: rec_inv_def good_msgs_def)
  ultimately show ?thesis using m none ne by metis
qed

section \<open>Properties\<close>

text \<open>
  C19: whatever packets arrive, in whatever order, lost, duplicated or reordered, the messages the
  engine has released at any point, up to and including an exception, are numbered consecutively
  from the first expected sequence number: no gap and no duplicate goes downstream.
\<close>

theorem recovery_contiguous:
  "case run_steps ingest ready (recovery_init a) ps of
     (s', ms, e) \<Rightarrow> seqs ms = [unat a..<unat a + length ms]"
proof -
  obtain s' ms e where r: "run_steps ingest ready (recovery_init a) ps = (s', ms, e)"
    by (metis prod_cases3)
  from recovery.run_contiguous [OF rec_inv_init r] r show ?thesis
    by (simp add: recovery_init_def)
qed

text \<open>When only messages below \<open>b\<close> are carried, the engine does not run past \<open>b\<close>.\<close>

lemma run_below:
  assumes run: "run_steps ingest ready (recovery_init a) ps = (s', ms, None)" and "a \<le> b"
    and "\<forall>p \<in> set ps. \<forall>m \<in> set (carried p). msg_sequence m < b"
  shows "expected s' \<le> b"
proof (rule ccontr)
  assume "\<not> expected s' \<le> b"
  then have "unat b < unat (expected s')" "unat a \<le> unat b"
    using assms(2) by (simp_all add: word_less_nat_alt word_le_nat_alt)
  moreover have "seqs ms = [unat a..<unat (expected s')]"
    using recovery.run_invariants [OF rec_inv_init run] by (simp add: recovery_init_def)
  ultimately have "unat b \<in> set (seqs ms)" by simp
  then obtain m where "m \<in> set ms" "unat (msg_sequence m) = unat b" by (auto simp: seqs_def)
  moreover have "good_msgs (\<lambda>n _. n < b) ms"
    using recovery.run_authentic [OF rec_inv_init run, of "\<lambda>n _. n < b"] assms(3) by (simp add: good_msgs_def)
  ultimately show False by (auto simp: good_msgs_def word_less_nat_alt)
qed

lemma run_restores_stream:
  assumes "a \<le> b"
    and "\<forall>p \<in> set ps. pkt_session p = sess"
    and "\<forall>p \<in> set ps. \<forall>m \<in> set (carried p). msg_payload m = f (msg_sequence m) \<and> msg_sequence m < b"
    and "\<forall>n. a \<le> n \<and> n < b \<longrightarrow> (\<exists>p \<in> set ps. \<exists>m \<in> set (carried p). msg_sequence m = n)"
  shows "\<exists>s'. run_steps ingest ready (recovery_init a) ps = (s', stream f a b, None) \<and>
    expected s' = b \<and> pending s' = []"
proof -
  let ?G = "\<lambda>n p. p = f n \<and> n < b"
  have e: "expected (recovery_init a) = a" by (simp add: recovery_init_def)
  have "\<forall>p \<in> set ps. pkt_session p = sess \<and> (\<forall>m \<in> set (carried p). msg_sequence m \<noteq> max_u64)"
    using assms(2,3) by (auto simp: word_less_nat_alt)
      (metis assms(3) linorder_not_le word_order.extremum)
  then obtain s' ms where run: "run_steps ingest ready (recovery_init a) ps = (s', ms, None)"
    using run_total [of "recovery_init a" ps sess] by (auto simp: recovery_init_def rec_inv_def)
  have good: "\<forall>p \<in> set ps. good_msgs ?G (carried p)" "\<forall>p \<in> set ps. good_msgs (\<lambda>n p. p = f n) (carried p)"
    using assms(3) by (auto simp: good_msgs_def)
  have ms: "ms = stream f a (expected s')"
    using recovery.run_stream [OF rec_inv_init run _ good(2)] by (simp add: e)
  have "b \<le> expected s'"
    using recovery.run_complete [OF rec_inv_init run] assms(4) by (simp add: e)
  have inv: "rec_inv s'" and sq: "seqs ms = [unat a..<unat (expected s')]" and le: "a \<le> expected s'"
    using recovery.run_invariants [OF rec_inv_init run] by (simp_all add: e)
  have G: "good_msgs ?G ms" "buffered ?G s'"
    using recovery.run_authentic [OF rec_inv_init run _ good(1)] by simp_all
  have eq: "expected s' = b"
    using run_below [OF run assms(1)] assms(3) \<open>b \<le> expected s'\<close> by (intro order.antisym) auto
  have "pending s' = []"
  proof (rule ccontr)
    assume "pending s' \<noteq> []"
    then obtain k p where "(k, p) \<in> set (pending s')" by (cases "pending s'") auto
    with G(2) inv eq show False by (fastforce simp: buffered_def rec_inv_def)
  qed
  with run ms eq show ?thesis by simp
qed

text \<open>
  C1: the engine undoes any reordering and duplication. When packets of one session carry, in any
  order and any number of times, messages of one source stream numbered below \<open>b\<close>, and every
  number from the first expected one up to \<open>b\<close> arrives at least once, the engine accepts every
  packet and releases exactly the stream from the first expected number up to \<open>b\<close>, in order, and
  ends with an empty buffer.
\<close>

theorem recovery_restores_stream:
  assumes "a \<le> b"
    and "\<forall>p \<in> set ps. pkt_session p = sess"
    and "\<forall>p \<in> set ps. \<forall>m \<in> set (carried p). msg_payload m = f (msg_sequence m) \<and> msg_sequence m < b"
    and "\<forall>n. a \<le> n \<and> n < b \<longrightarrow> (\<exists>p \<in> set ps. \<exists>m \<in> set (carried p). msg_sequence m = n)"
  shows "\<exists>s'. run_steps ingest ready (recovery_init a) ps = (s', stream f a b, None) \<and>
    expected s' = b \<and> pending s' = []"
  using assms by (rule run_restores_stream)

theorem recovery_restores_stream_witness:
  "\<exists>s'. run_steps ingest ready (recovery_init 1)
      [data_packet (replicate 10 32) 2 [[2]], data_packet (replicate 10 32) 1 [[1], [2]]]
      = (s', stream (\<lambda>n. [ucast n]) 1 3, None) \<and> expected s' = 3 \<and> pending s' = []"
proof (rule recovery_restores_stream [where sess = "replicate 10 32"], goal_cases)
  case 4
  have "n = 1 \<or> n = 2" if "1 \<le> n" "n < 3" for n :: seqno
  proof -
    have "unat n = 1 \<or> unat n = 2" using that by (auto simp: word_le_nat_alt word_less_nat_alt)
    moreover have "of_nat (unat n) = n" by simp
    ultimately show ?thesis by (metis of_nat_1 of_nat_numeral)
  qed
  then show ?case by (auto simp: carried_def data_packet_def numbered_Cons)
qed (auto simp: carried_def data_packet_def numbered_Cons)

text \<open>
  After a data packet that leaves a hole, the engine has asked for the hole: its request
  window starts at the first missing number and reaches the first buffered message, or the
  protocol's limit of 65,534 messages per request.
\<close>

theorem recovery_hole_requested:
  assumes "ingest s p = (s', Inr r)" and "rec_inv s" and "\<not> pkt_heartbeat p" and "\<not> pkt_end_of_session p"
    and "pending s' \<noteq> []"
  shows "last_requested_first s' = expected s' \<and>
    min (unat (fst (hd (pending s')))) (unat (expected s') + 0xFFFE) \<le> unat (last_requested_last s') + 1"
proof -
  obtain t r0 where m: "maybe_request t r0 (fst (hd (pending s'))) = (s', r)"
    and e: "expected t = expected s'" "expected s' < fst (hd (pending s'))"
    using ingest_data_hole [OF assms(1-4)] assms(5) by blast
  show ?thesis
    using maybe_request_window [OF m] e by simp
qed

theorem recovery_hole_requested_witness:
  "\<exists>s' r. ingest (recovery_init 1) (data_packet (replicate 10 32) 4 [[4]]) = (s', Inr r) \<and>
     pending s' \<noteq> [] \<and> last_requested_first s' = expected s' \<and>
     min (unat (fst (hd (pending s')))) (unat (expected s') + 0xFFFE) \<le> unat (last_requested_last s') + 1"
proof -
  let ?p = "data_packet (replicate 10 32) 4 [[4]]"
  obtain s' r where i: "ingest (recovery_init 1) ?p = (s', Inr r)"
    using ingest_total [of "recovery_init 1" ?p]
    by (auto simp: recovery_init_def carried_def data_packet_def numbered_Cons)
  then have "pending s' \<noteq> []"
    by (auto simp: ingest_def recovery_init_def try_emplace_def maybe_request_def Let_def data_packet_def
        numbered_Cons split: if_splits)
  moreover from recovery_hole_requested [OF i _ _ _ this] have
    "last_requested_first s' = expected s'"
    "min (unat (fst (hd (pending s')))) (unat (expected s') + 0xFFFE) \<le> unat (last_requested_last s') + 1"
    by (simp_all add: data_packet_def)
  ultimately show ?thesis using i by blast
qed

text \<open>
  C21: a request issued after a data packet starts at the next expected number, asks for at least
  one and at most 65,534 messages, so that it can always be encoded, and asks only for messages
  that were neither released nor buffered.
\<close>

theorem recovery_request_sound:
  assumes "ingest s p = (s', Inr r)" and "rec_inv s" and "\<not> pkt_heartbeat p" and "\<not> pkt_end_of_session p"
    and "request r = Some q"
  shows "gap_first q = expected s' \<and> 1 \<le> unat (gap_count q) \<and> unat (gap_count q) \<le> 0xFFFE \<and>
    (\<forall>n. gap_first q \<le> n \<and> unat n < unat (gap_first q) + unat (gap_count q) \<longrightarrow> \<not> seen s' n)"
proof -
  obtain t r0 where m: "maybe_request t r0 (fst (hd (pending s'))) = (s', r)" "request r0 = None"
    and e: "expected t = expected s'" "pending s' \<noteq> []" "expected s' < fst (hd (pending s'))"
    using ingest_data_hole [OF assms(1-4)] assms(5) by auto
  have inv: "rec_inv s'" using ingest_Inr [OF assms(1,2), of "\<lambda>_ _. True"] by (simp add: good_msgs_def)
  have q: "gap_first q = expected s'"
    "unat (gap_count q) = min (unat (fst (hd (pending s'))) - unat (expected s')) 0xFFFE"
    using maybe_request_Some [OF m assms(5)] e(1) by simp_all
  have "\<not> seen s' n" if n: "expected s' \<le> n" "unat n < unat (expected s') + unat (gap_count q)" for n
  proof
    assume "seen s' n"
    then obtain x where x: "(n, x) \<in> set (pending s')" using n(1) by (auto simp: seen_def)
    have "fst (hd (pending s')) \<le> n"
      using less_order.sorted_hd [of "pending s'" "(n, x)"] inv x by (fastforce simp: rec_inv_def)
    then show False using n(2) q(2) e(3) by (auto simp: word_le_nat_alt word_less_nat_alt)
  qed
  then show ?thesis using q e(3) by (auto simp: word_less_nat_alt)
qed

theorem recovery_request_sound_witness:
  "\<exists>s' r q. ingest (recovery_init 1) (data_packet (replicate 10 32) 4 [[4]]) = (s', Inr r) \<and>
     request r = Some q \<and> gap_first q = expected s' \<and> 1 \<le> unat (gap_count q) \<and>
     unat (gap_count q) \<le> 0xFFFE"
proof -
  let ?p = "data_packet (replicate 10 32) 4 [[4]]"
  obtain s' r where i: "ingest (recovery_init 1) ?p = (s', Inr r)"
    using ingest_total [of "recovery_init 1" ?p]
    by (auto simp: recovery_init_def carried_def data_packet_def numbered_Cons)
  then obtain q where "request r = Some q"
    by (auto simp: word_le_nat_alt ingest_def recovery_init_def try_emplace_def maybe_request_def Let_def data_packet_def
        numbered_Cons split: if_splits)
  with recovery_request_sound [OF i _ _ _ this] i show ?thesis
    by (auto simp: data_packet_def)
qed

text \<open>
  A packet of another session is rejected and changes neither the next expected number nor
  the buffer, and before the last sequence number no other packet is: for packets of the engine's
  session whose messages are numbered below \<open>2 ^ 64 - 1\<close>, \<open>ingest\<close> returns a result.
\<close>

theorem recovery_accepts:
  assumes "rec_inv s" and "max_u64 \<notin> fst ` set (pending s)"
    and "\<forall>m \<in> set (carried p). msg_sequence m \<noteq> max_u64"
  shows "if rec_session s = None \<or> rec_session s = Some (pkt_session p)
    then \<exists>s' r. ingest s p = (s', Inr r) \<and> rec_inv s' \<and> rec_session s' = Some (pkt_session p)
    else ingest s p = (s, Inl (DecodeError ''MoldUDP64 session changed unexpectedly''))"
proof (cases "rec_session s = None \<or> rec_session s = Some (pkt_session p)")
  case True
  then obtain s' r where i: "ingest s p = (s', Inr r)" using ingest_total [OF assms(2,3)] by blast
  with ingest_Inr [OF i assms(1), of "\<lambda>_ _. True"] True show ?thesis by (simp add: good_msgs_def)
next
  case False
  then show ?thesis by (auto simp: ingest_def)
qed

theorem recovery_accepts_witness:
  "\<exists>s' r. ingest (recovery_init 1) (data_packet (replicate 10 32) 4 [[4]]) = (s', Inr r) \<and> rec_inv s'"
  using recovery_accepts [OF rec_inv_init, of 1 "data_packet (replicate 10 32) 4 [[4]]"]
  by (auto simp: recovery_init_def carried_def data_packet_def numbered_Cons split: if_splits)

section \<open>The last sequence number\<close>

text \<open>
  Taking in messages never changes which numbers have been seen or are still to come; the buffer is
  drained to its end, and past it, exactly when no number is missing.
\<close>

lemma drain_loop_outcome:
  "if \<forall>n. seen s n then \<exists>s'. drain_loop s r = (s', Inl (Undefined ''pending_.erase of an erased iterator''))
   else \<exists>s' r'. drain_loop s r = (s', Inr r') \<and> seen s' = seen s"
proof (induction s r rule: drain_loop.induct)
  case (1 s r)
  let ?e = "expected s"
  show ?case
  proof (cases "map_find (pending s) ?e")
    case None
    then have "\<not> seen s ?e" by (simp add: seen_def map_of_eq_None_iff)
    with None show ?thesis by (auto simp: drain_loop.simps [of s r])
  next
    case (Some p)
    then have k: "?e \<in> fst ` set (pending s)" by (force dest: map_of_SomeD)
    show ?thesis
    proof (cases "?e = max_u64")
      case True
      then have "seen s n" for n using k by (cases "n = max_u64") (auto simp: seen_def word_order.not_eq_extremum)
      with Some True show ?thesis by (auto simp: drain_loop.simps [of s r] Let_def)
    next
      case False
      let ?s1 = "s\<lparr>pending := map_erase ?e (pending s), expected := ?e + 1\<rparr>"
      have "seen ?s1 = seen s" using k False by (auto simp: fun_eq_iff seen_def less_inc_iff order.order_iff_strict)
      moreover have "drain_loop s r = drain_loop ?s1 (r\<lparr>ready := ready r @ [\<lparr>msg_sequence = ?e, msg_payload = p\<rparr>]\<rparr>)"
        using Some False by (simp add: drain_loop.simps [of s r] Let_def)
      ultimately show ?thesis using "1.IH" [OF Some refl refl] False by (cases "\<forall>n. seen s n") auto
    qed
  qed
qed

lemma drain_outcome:
  assumes "rec_inv s" and "expected s \<noteq> max_u64"
  shows "if \<forall>n. seen s n \<or> n = expected s
    then \<exists>s'. drain (s\<lparr>expected := expected s + 1\<rparr>) r = (s', Inl (Undefined ''pending_.erase of an erased iterator''))
    else \<exists>s' r'. drain (s\<lparr>expected := expected s + 1\<rparr>) r = (s', Inr r') \<and> rec_inv s' \<and> seen s' = (\<lambda>n. seen s n \<or> n = expected s)"
proof -
  let ?s = "s\<lparr>expected := expected s + 1\<rparr>"
  have seen: "seen ?s = (\<lambda>n. seen s n \<or> n = expected s)" using assms(2) by (auto simp: fun_eq_iff seen_def less_inc_iff)
  have inv: "map_sorted (<) (pending ?s)" "\<forall>k \<in> fst ` set (pending ?s). expected ?s \<le> k"
    using assms by (auto simp: rec_inv_def inc_le_iff)
  show ?thesis
  proof (cases "\<forall>n. seen s n \<or> n = expected s")
    case True
    then show ?thesis using drain_loop_outcome [of ?s r] by (auto simp: seen drain_def)
  next
    case False
    then obtain t r' where d: "drain_loop ?s r = (t, Inr r')" "seen t = seen ?s"
      using drain_loop_outcome [of ?s r] by (auto simp: seen split: if_splits)
    let ?t = "if last_requested_last t < expected t then t\<lparr>last_requested_first := 0, last_requested_last := 0\<rparr> else t"
    have s': "drain ?s r = (?t, Inr r')" "seen ?t = seen ?s" using d by (simp_all add: drain_def)
    from drain_Inr [OF s'(1) inv, of "\<lambda>_ _. True"] s' show ?thesis unfolding if_not_P [OF False] seen by blast
  qed
qed

lemma last_buffered: "max_u64 \<in> fst ` set (pending s) \<longleftrightarrow> seen s max_u64"
  by (auto simp: seen_def)

lemma ingest_messages_outcome:
  assumes "rec_inv s" and "sorted_wrt (<) (map msg_sequence ms)"
  shows "if \<forall>n. seen s n \<or> n \<in> msg_sequence ` set ms
    then snd (ingest_messages s r ms) = Inl (if seen s max_u64 then Undefined ''pending_.erase of an erased iterator''
      else DecodeError ''MoldUDP64 sequence number exhausted'')
    else \<exists>r'. snd (ingest_messages s r ms) = Inr r'"
  using assms
proof (induction ms arbitrary: s r)
  case Nil
  then have "\<not> seen s (expected s)" by (auto simp: seen_def rec_inv_def)
  then show ?case by auto
next
  case (Cons m ms)
  have e: "\<not> seen s (expected s)" using Cons.prems(1) by (auto simp: seen_def rec_inv_def)
  consider (stale) "msg_sequence m < expected s" | (last) "msg_sequence m = expected s" "expected s = max_u64"
    | (due) "msg_sequence m = expected s" "expected s \<noteq> max_u64" | (future) "expected s < msg_sequence m"
    using less_linear by blast
  then show ?case
  proof cases
    case stale
    then have "seen s (msg_sequence m)" by (simp add: seen_def)
    then have "(\<forall>n. seen s n \<or> n \<in> msg_sequence ` set (m # ms)) \<longleftrightarrow> (\<forall>n. seen s n \<or> n \<in> msg_sequence ` set ms)" by auto
    with Cons.IH [OF Cons.prems(1), of "r\<lparr>duplicate_or_stale := True\<rparr>"] Cons.prems(2) stale show ?thesis by simp
  next
    case last
    then have "seen s n \<or> n = max_u64" for n by (cases "n = max_u64") (auto simp: seen_def word_order.not_eq_extremum)
    with last e show ?thesis by (auto simp: Let_def)
  next
    case due
    note d = drain_outcome [OF Cons.prems(1) due(2), of "r\<lparr>ready := ready r @ [m]\<rparr>"]
    show ?thesis
    proof (cases "\<forall>n. seen s n \<or> n = expected s")
      case True
      then have "seen s max_u64" "\<forall>n. seen s n \<or> n \<in> msg_sequence ` set (m # ms)" using due by force+
      with d True due show ?thesis by (auto simp: Let_def)
    next
      case False
      then obtain s2 r2 where s2: "drain (s\<lparr>expected := expected s + 1\<rparr>) (r\<lparr>ready := ready r @ [m]\<rparr>) = (s2, Inr r2)"
        "rec_inv s2" "seen s2 = (\<lambda>n. seen s n \<or> n = expected s)"
        using d unfolding if_not_P [OF False] by blast
      have "(\<forall>n. seen s n \<or> n \<in> msg_sequence ` set (m # ms)) \<longleftrightarrow> (\<forall>n. seen s2 n \<or> n \<in> msg_sequence ` set ms)"
        "seen s2 max_u64 = seen s max_u64" using due by (auto simp: s2(3))
      with Cons.IH [OF s2(2), of r2] Cons.prems(2) s2(1) due show ?thesis by (simp add: Let_def)
    qed
  next
    case future
    let ?s1 = "s\<lparr>pending := fst (try_emplace (<) (msg_sequence m) (msg_payload m) (pending s))\<rparr>"
    have seen: "seen ?s1 = (\<lambda>n. seen s n \<or> n = msg_sequence m)" by (auto simp: fun_eq_iff seen_def)
    have all: "(\<forall>n. seen s n \<or> n \<in> msg_sequence ` set (m # ms)) \<longleftrightarrow> (\<forall>n. seen ?s1 n \<or> n \<in> msg_sequence ` set ms)"
      by (auto simp: seen)
    have "seen ?s1 max_u64 = seen s max_u64" if "\<forall>n. seen s n \<or> n \<in> msg_sequence ` set (m # ms)"
    proof (cases "msg_sequence m = max_u64")
      case True
      then have "ms = []" using Cons.prems(2) by (cases ms) auto
      with that e future show ?thesis by auto
    qed (simp add: seen)
    with Cons.IH [OF rec_inv_future [OF Cons.prems(1) future], of r] Cons.prems(2) all future show ?thesis
      by (auto simp: not_less_iff_gr_or_eq simp del: image_insert list.set split: if_splits)
  qed
qed

lemma carried_sorted:
  assumes "packet_wf p"
  shows "sorted_wrt (<) (map msg_sequence (carried p))"
proof (cases "pkt_heartbeat p \<or> pkt_end_of_session p")
  case False
  let ?f = "pkt_first_sequence p" and ?ps = "map msg_payload (pkt_messages p)"
  have p: "pkt_messages p = numbered ?f ?ps" "unat ?f + length ?ps \<le> 2 ^ 64"
    using assms False by (auto simp: packet_wf_def)
  have u: "unat (?f + of_nat i) = unat ?f + i" if "i < length ?ps" for i
    using that p(2) by (simp add: unat_word_ariths unat_of_nat)
  have "sorted_wrt (<) (map msg_sequence (numbered ?f ?ps))"
    unfolding sorted_wrt_iff_nth_less using u by (simp add: numbered_def word_less_nat_alt)
  with False p(1) show ?thesis by (simp add: carried_def)
qed (simp add: carried_def)

text \<open>
  C22: when sequencing ends. A packet of another session is refused and changes nothing. A packet of the engine's
  session makes \<open>ingest\<close> throw exactly when with it no sequence number up to \<open>2 ^ 64 - 1\<close> is missing any more: it throws
  that the numbers are exhausted if the last number arrives in order, but if a message with the last
  number waited in the buffer, \<open>drain\<close> erases an iterator it has already erased, which is undefined
  behaviour. In all other cases \<open>ingest\<close> returns a result.
\<close>

theorem recovery_exhaustion:
  assumes "rec_inv s" and "packet_wf p"
  shows "if rec_session s \<noteq> None \<and> rec_session s \<noteq> Some (pkt_session p)
    then ingest s p = (s, Inl (DecodeError ''MoldUDP64 session changed unexpectedly''))
    else if \<forall>n. seen s n \<or> n \<in> msg_sequence ` set (carried p)
    then snd (ingest s p) = Inl (if max_u64 \<in> fst ` set (pending s) then Undefined ''pending_.erase of an erased iterator''
      else DecodeError ''MoldUDP64 sequence number exhausted'')
    else \<exists>r. snd (ingest s p) = Inr r"
proof (cases "rec_session s \<noteq> None \<and> rec_session s \<noteq> Some (pkt_session p)")
  case True
  then show ?thesis by (auto simp: ingest_def)
next
  case False
  define t where "t = (if rec_session s = None then s\<lparr>rec_session := Some (pkt_session p)\<rparr> else s)"
  have t: "rec_inv t" "seen t = seen s" "the (rec_session t) = pkt_session p" using assms(1) False by (auto simp: t_def)
  show ?thesis
  proof (cases "pkt_heartbeat p \<or> pkt_end_of_session p")
    case True
    moreover have "\<not> seen s (expected s)" using assms(1) by (auto simp: seen_def rec_inv_def)
    ultimately show ?thesis using False t(3)
      by (auto simp: ingest_def carried_def Let_def split_beta simp flip: t_def)
  next
    case data: False
    obtain s' x where i: "ingest_messages t empty_result (pkt_messages p) = (s', x)" by fastforce
    have "sorted_wrt (<) (map msg_sequence (pkt_messages p))" using carried_sorted [OF assms(2)] data by (simp add: carried_def)
    note o = ingest_messages_outcome [OF t(1) this, of empty_result, unfolded i snd_conv t(2)]
    have "snd (ingest s p) = x \<or> (\<exists>r r'. snd (ingest s p) = Inr r \<and> x = Inr r')"
      using data t(3) i by (cases x) (auto simp: ingest_def Let_def split_beta simp flip: t_def)
    with o False data show ?thesis unfolding last_buffered by (auto simp: carried_def split: if_splits)
  qed
qed

theorem recovery_exhaustion_witness:
  "snd (ingest \<lparr>expected = max_u64 - 1, pending = [(max_u64, [1])], rec_session = Some (replicate 10 32),
      last_requested_first = 0, last_requested_last = 0\<rparr> (data_packet (replicate 10 32) (max_u64 - 1) [[2]])) =
    Inl (Undefined ''pending_.erase of an erased iterator'')"
proof -
  let ?s = "\<lparr>expected = max_u64 - 1, pending = [(max_u64, [1])], rec_session = Some (replicate 10 32),
      last_requested_first = 0, last_requested_last = 0\<rparr> :: recovery_engine"
  let ?p = "data_packet (replicate 10 32) (max_u64 - 1) [[2]]"
  have "rec_inv ?s" by (simp add: rec_inv_def map_sorted_def)
  moreover have "packet_wf ?p" by (simp add: packet_wf_def data_packet_def numbered_Cons)
  moreover have "n < max_u64 - 1 \<or> n = max_u64 \<or> n = max_u64 - 1" for n :: u64
  proof -
    have "unat n < unat (max_u64 - 1) \<or> unat n = unat max_u64 \<or> unat n = unat (max_u64 - 1)" using unat_u64_less [of n] by simp arith
    then show ?thesis by (simp only: word_less_nat_alt word_unat_eq_iff)
  qed
  then have "\<forall>n. seen ?s n \<or> n \<in> msg_sequence ` set (carried ?p)"
    by (auto simp: seen_def carried_def data_packet_def numbered_Cons)
  ultimately show ?thesis using recovery_exhaustion [of ?s ?p] by (simp add: data_packet_def)
qed

end
