(* ===== verification/Flat_Index.thy ===== *)
theory Flat_Index
  imports Types
begin

text \<open>
  \<^verbatim>\<open>include/efe/flat_order_index.hpp\<close>: the fixed-capacity open-addressing index from order ids to
  arena slots, with linear probing and tombstones. The interface the order book relies on is the
  locale \<open>order_index\<close>; it is interpreted on the operations below. Sizes and probe counters are
  natural numbers: they are bounded by the length of the entry vector, so no product or sum of
  them wraps. Positions and the mask keep their 64 bits.
\<close>

section \<open>The table\<close>

datatype entry_state = Empty | Occupied | Tombstone

record index_entry =
  ent_key :: order_id
  ent_value :: slot_index
  ent_state :: entry_state

record flat_index =
  entries :: "index_entry list"
  idx_mask :: u64
  idx_size :: nat

definition empty_entry :: index_entry where
  "empty_entry = \<lparr>ent_key = 0, ent_value = kInvalidSlot, ent_state = Empty\<rparr>"

text \<open>\<open>std::bit_ceil\<close>: the least power of two that is not smaller than the argument.\<close>

function bit_ceil_from :: "nat \<Rightarrow> nat \<Rightarrow> nat" where
  "bit_ceil_from p n = (if n \<le> p \<or> p = 0 then p else bit_ceil_from (2 * p) n)"
  by pat_completeness auto
termination
  by (relation "measure (\<lambda>(p, n). n - p)") auto

declare bit_ceil_from.simps [simp del]

definition bit_ceil :: "nat \<Rightarrow> nat" where
  "bit_ceil n = bit_ceil_from 1 n"

definition index_init :: "nat \<Rightarrow> flat_index" where
  "index_init max_entries =
     (let wanted = (if max_entries < 8 then 16 else (max_entries * 2) mod 2 ^ 64);
          cap = bit_ceil wanted
      in \<lparr>entries = replicate cap empty_entry, idx_mask = of_nat cap - 1, idx_size = 0\<rparr>)"

text \<open>The SplitMix64 finalizer.\<close>

definition index_hash :: "u64 \<Rightarrow> u64" where
  "index_hash x =
     (let x = x XOR drop_bit 30 x;
          x = x * 0xbf58476d1ce4e5b9;
          x = x XOR drop_bit 27 x;
          x = x * 0x94d049bb133111eb
      in x XOR drop_bit 31 x)"

definition index_home :: "flat_index \<Rightarrow> order_id \<Rightarrow> u64" where
  "index_home idx key = index_hash key AND idx_mask idx"

section \<open>Operations\<close>

text \<open>The probing loops; the counter is the number of probes left.\<close>

fun probe_find :: "flat_index \<Rightarrow> order_id \<Rightarrow> nat \<Rightarrow> u64 \<Rightarrow> slot_index option res" where
  "probe_find idx key 0 pos = Inr None"
| "probe_find idx key (Suc n) pos =
     rbind (span_at (entries idx) (unat pos)) (\<lambda>e.
       if ent_state e = Empty then Inr None
       else if ent_state e = Occupied \<and> ent_key e = key then Inr (Some (ent_value e))
       else probe_find idx key n ((pos + 1) AND idx_mask idx))"

definition index_find :: "flat_index \<Rightarrow> order_id \<Rightarrow> slot_index option res" where
  "index_find idx key = probe_find idx key (length (entries idx)) (index_home idx key)"

definition index_store :: "flat_index \<Rightarrow> u64 \<Rightarrow> order_id \<Rightarrow> slot_index \<Rightarrow> (bool \<times> flat_index) res" where
  "index_store idx target key v =
     rbind (span_set (entries idx) (unat target) \<lparr>ent_key = key, ent_value = v, ent_state = Occupied\<rparr>)
       (\<lambda>es. Inr (True, idx\<lparr>entries := es, idx_size := idx_size idx + 1\<rparr>))"

fun probe_insert ::
  "flat_index \<Rightarrow> order_id \<Rightarrow> slot_index \<Rightarrow> nat \<Rightarrow> u64 \<Rightarrow> u64 option \<Rightarrow> (bool \<times> flat_index) res" where
  "probe_insert idx key v 0 pos tombstone =
     (case tombstone of Some t \<Rightarrow> index_store idx t key v | None \<Rightarrow> Inr (False, idx))"
| "probe_insert idx key v (Suc n) pos tombstone =
     rbind (span_at (entries idx) (unat pos)) (\<lambda>e.
       if ent_state e = Occupied \<and> ent_key e = key then Inr (False, idx)
       else let tombstone = (if ent_state e = Tombstone \<and> tombstone = None then Some pos else tombstone)
            in if ent_state e = Empty
               then index_store idx (case tombstone of Some t \<Rightarrow> t | None \<Rightarrow> pos) key v
               else probe_insert idx key v n ((pos + 1) AND idx_mask idx) tombstone)"

definition index_insert :: "flat_index \<Rightarrow> order_id \<Rightarrow> slot_index \<Rightarrow> (bool \<times> flat_index) res" where
  "index_insert idx key v =
     (if idx_size idx * 10 \<ge> length (entries idx) * 7 then Inr (False, idx)
      else probe_insert idx key v (length (entries idx)) (index_home idx key) None)"

fun probe_erase :: "flat_index \<Rightarrow> order_id \<Rightarrow> nat \<Rightarrow> u64 \<Rightarrow> (bool \<times> flat_index) res" where
  "probe_erase idx key 0 pos = Inr (False, idx)"
| "probe_erase idx key (Suc n) pos =
     rbind (span_at (entries idx) (unat pos)) (\<lambda>e.
       if ent_state e = Empty then Inr (False, idx)
       else if ent_state e = Occupied \<and> ent_key e = key then
         rbind (span_set (entries idx) (unat pos) (e\<lparr>ent_state := Tombstone\<rparr>)) (\<lambda>es.
         Inr (True, idx\<lparr>entries := es, idx_size := idx_size idx - 1\<rparr>))
       else probe_erase idx key n ((pos + 1) AND idx_mask idx))"

definition index_erase :: "flat_index \<Rightarrow> order_id \<Rightarrow> (bool \<times> flat_index) res" where
  "index_erase idx key = probe_erase idx key (length (entries idx)) (index_home idx key)"

section \<open>Interface\<close>

text \<open>
  What the order book relies on: the index is a finite map from ids to slots; an insertion
  succeeds for a new key below the load limit, and every operation keeps the invariant.
\<close>

locale order_index =
  fixes find :: "'i \<Rightarrow> order_id \<Rightarrow> slot_index option res"
    and insert :: "'i \<Rightarrow> order_id \<Rightarrow> slot_index \<Rightarrow> (bool \<times> 'i) res"
    and erase :: "'i \<Rightarrow> order_id \<Rightarrow> (bool \<times> 'i) res"
    and size :: "'i \<Rightarrow> nat"
    and capacity :: "'i \<Rightarrow> nat"
    and lookup :: "'i \<Rightarrow> order_id \<rightharpoonup> slot_index"
    and inv :: "'i \<Rightarrow> bool"
  assumes find_lookup: "inv i \<Longrightarrow> find i k = Inr (lookup i k)"
    and size_card: "inv i \<Longrightarrow> size i = card (dom (lookup i))"
    and finite_lookup: "inv i \<Longrightarrow> finite (dom (lookup i))"
    and insert_present: "inv i \<Longrightarrow> lookup i k \<noteq> None \<Longrightarrow> insert i k v = Inr (False, i)"
    and insert_fresh: "inv i \<Longrightarrow> lookup i k = None \<Longrightarrow> size i * 10 < capacity i * 7 \<Longrightarrow>
      \<exists>j. insert i k v = Inr (True, j) \<and> inv j \<and> lookup j = (lookup i)(k \<mapsto> v) \<and> capacity j = capacity i"
    and insert_full: "inv i \<Longrightarrow> capacity i * 7 \<le> size i * 10 \<Longrightarrow> insert i k v = Inr (False, i)"
    and erase_present: "inv i \<Longrightarrow> lookup i k \<noteq> None \<Longrightarrow>
      \<exists>j. erase i k = Inr (True, j) \<and> inv j \<and> lookup j = (lookup i)(k := None) \<and> capacity j = capacity i"
    and erase_absent: "inv i \<Longrightarrow> lookup i k = None \<Longrightarrow> erase i k = Inr (False, i)"
begin

lemma size_update: "inv i \<Longrightarrow> inv j \<Longrightarrow> lookup i k = None \<Longrightarrow> lookup j = (lookup i)(k \<mapsto> v) \<Longrightarrow> size j = size i + 1"
  using finite_lookup [of i] by (simp add: size_card domIff)

text \<open>Insert then erase of the same fresh key: the roll-back of a failed addition.\<close>

lemma insert_erase:
  assumes "inv i" and "lookup i k = None" and "insert i k v = Inr (True, j)"
  shows "\<exists>j'. erase j k = Inr (True, j') \<and> inv j' \<and> lookup j' = lookup i \<and> capacity j' = capacity i"
proof -
  have "size i * 10 < capacity i * 7" using assms insert_full [of i k v] by fastforce
  with insert_fresh [OF assms(1,2), of v] assms(3)
  have j: "inv j" "lookup j = (lookup i)(k \<mapsto> v)" "capacity j = capacity i" by auto
  with erase_present [of j k] assms(2) show ?thesis by (auto simp: fun_upd_idem)
qed

text \<open>Insert of a new key, then erase of an old one: how a replaced order is re-keyed.\<close>

lemma rekey:
  assumes "inv i" and "lookup i old = Some v" and "lookup i new = None" and "size i * 10 < capacity i * 7"
  shows "\<exists>j j'. insert i new v = Inr (True, j) \<and> inv j \<and> erase j old = Inr (True, j') \<and> inv j' \<and>
    lookup j' = (lookup i)(new \<mapsto> v, old := None) \<and> capacity j' = capacity i"
proof -
  obtain j where j: "insert i new v = Inr (True, j)" "inv j" "lookup j = (lookup i)(new \<mapsto> v)"
    "capacity j = capacity i"
    using insert_fresh [OF assms(1,3,4)] by blast
  then have "lookup j old \<noteq> None" using assms(2,3) by auto
  from erase_present [OF j(2) this] j show ?thesis by auto
qed

end

section \<open>Probing as a scan of the rotated table\<close>

text \<open>
  Probing from position \<open>h\<close> with wrap-around visits the entries in the order of the table
  rotated by \<open>h\<close>. The loops are therefore scans of a list.
\<close>

definition index_occ :: "order_id \<Rightarrow> index_entry \<Rightarrow> bool" where
  "index_occ key e \<longleftrightarrow> ent_state e = Occupied \<and> ent_key e = key"

fun scan_find :: "order_id \<Rightarrow> index_entry list \<Rightarrow> slot_index option" where
  "scan_find key [] = None"
| "scan_find key (e # es) =
     (if ent_state e = Empty then None
      else if index_occ key e then Some (ent_value e)
      else scan_find key es)"

definition table_ok :: "flat_index \<Rightarrow> bool" where
  "table_ok idx \<longleftrightarrow> (\<exists>k. k < 64 \<and> length (entries idx) = 2 ^ k \<and> idx_mask idx = mask k)"

definition probes :: "flat_index \<Rightarrow> order_id \<Rightarrow> index_entry list" where
  "probes idx key = rotate (unat (index_home idx key)) (entries idx)"

lemma length_probes [simp]: "length (probes idx key) = length (entries idx)"
  by (simp add: probes_def)

lemma table_ok_pos: "table_ok idx \<Longrightarrow> 0 < length (entries idx)"
  by (auto simp: table_ok_def)

lemma unat_and_mask: "table_ok idx \<Longrightarrow> unat (x AND idx_mask idx) = unat x mod length (entries idx)"
  by (auto simp: table_ok_def take_bit_eq_mask [symmetric] unsigned_take_bit_eq)
    (simp add: take_bit_eq_mod)

lemma home_less: "table_ok idx \<Longrightarrow> unat (index_home idx key) < length (entries idx)"
  unfolding index_home_def by (simp only: unat_and_mask mod_less_divisor table_ok_pos)

lemma step_pos:
  assumes "table_ok idx" and "unat pos < length (entries idx)"
  shows "unat ((pos + 1) AND idx_mask idx) = (unat pos + 1) mod length (entries idx)"
proof -
  from assms(1) obtain k where k: "k < 64" "length (entries idx) = 2 ^ k" by (auto simp: table_ok_def)
  then have "(2 :: nat) ^ k \<le> 2 ^ 63" by (intro power_increasing) auto
  then have "unat pos + 1 < 2 ^ 64" using assms(2) k by simp
  then have "unat (pos + 1) = unat pos + 1" by (simp add: unat_word_ariths)
  then show ?thesis using unat_and_mask [OF assms(1)] by simp
qed

lemma probes_nth:
  "i < length (entries idx) \<Longrightarrow>
   probes idx key ! i = entries idx ! ((unat (index_home idx key) + i) mod length (entries idx))"
  by (simp add: probes_def nth_rotate)

lemma probes_mem: "i < length (entries idx) \<Longrightarrow> probes idx key ! i \<in> set (entries idx)"
  using nth_mem [of i "probes idx key"] by (simp add: probes_def)

text \<open>The position after \<open>i\<close> probes.\<close>

definition at_probe :: "flat_index \<Rightarrow> order_id \<Rightarrow> nat \<Rightarrow> u64 \<Rightarrow> bool" where
  "at_probe idx key i pos \<longleftrightarrow> unat pos = (unat (index_home idx key) + i) mod length (entries idx)"

lemma at_probe_0: "table_ok idx \<Longrightarrow> at_probe idx key 0 (index_home idx key)"
  by (simp add: at_probe_def home_less)

lemma at_probe_less: "table_ok idx \<Longrightarrow> at_probe idx key i pos \<Longrightarrow> unat pos < length (entries idx)"
  unfolding at_probe_def by (simp only: mod_less_divisor table_ok_pos)

lemma at_probe_Suc:
  "table_ok idx \<Longrightarrow> at_probe idx key i pos \<Longrightarrow> at_probe idx key (Suc i) ((pos + 1) AND idx_mask idx)"
  using step_pos [of idx pos] at_probe_less [of idx key i pos]
  by (simp add: at_probe_def mod_Suc_eq)

lemma at_probe_entry:
  "table_ok idx \<Longrightarrow> at_probe idx key i pos \<Longrightarrow> i < length (entries idx) \<Longrightarrow>
   span_at (entries idx) (unat pos) = Inr (probes idx key ! i)"
  using at_probe_less [of idx key i pos] by (simp add: probes_nth at_probe_def)

lemma probe_find_scan:
  assumes "table_ok idx"
  shows "at_probe idx key i pos \<Longrightarrow> i + n = length (entries idx) \<Longrightarrow>
    probe_find idx key n pos = Inr (scan_find key (drop i (probes idx key)))"
proof (induction n arbitrary: i pos)
  case 0
  then show ?case by simp
next
  case (Suc n)
  then have i: "i < length (probes idx key)" by simp
  have "drop i (probes idx key) = probes idx key ! i # drop (Suc i) (probes idx key)"
    using i by (simp add: Cons_nth_drop_Suc)
  then show ?case
    using Suc.IH [OF at_probe_Suc [OF assms Suc.prems(1)]] Suc.prems i
    by (simp add: at_probe_entry [OF assms Suc.prems(1)] index_occ_def)
qed

lemma index_find_scan: "table_ok idx \<Longrightarrow> index_find idx key = Inr (scan_find key (probes idx key))"
  using probe_find_scan [OF _ at_probe_0, where n = "length (entries idx)"] by (simp add: index_find_def)

text \<open>An update of the table is an update of the rotated table.\<close>

lemma mod_shift_le: "i \<le> j \<Longrightarrow> j < n \<Longrightarrow> (h + i) mod n = (h + j) mod n \<Longrightarrow> i = (j :: nat)"
  using mod_eq_dvd_iff_nat [of "h + i" "h + j" n] nat_dvd_not_less [of "j - i" n] by fastforce

lemma mod_shift_inj: "i < n \<Longrightarrow> j < n \<Longrightarrow> (h + i) mod n = (h + j) mod n \<Longrightarrow> i = (j :: nat)"
  using mod_shift_le [of i j n h] mod_shift_le [of j i n h] by (metis nat_le_linear)

lemma rotate_update:
  assumes "i < length xs"
  shows "rotate h (xs[(h + i) mod length xs := e]) = (rotate h xs)[i := e]"
proof (rule nth_equalityI)
  fix j
  assume "j < length (rotate h (xs[(h + i) mod length xs := e]))"
  then have j: "j < length xs" by simp
  have "(h + i) mod length xs = (h + j) mod length xs \<longleftrightarrow> i = j"
    using mod_shift_inj [OF assms j] by blast
  then show "rotate h (xs[(h + i) mod length xs := e]) ! j = (rotate h xs)[i := e] ! j"
    using assms j by (simp add: nth_rotate nth_list_update mod_less_divisor [OF length_pos_if_in_set [OF nth_mem]])
qed simp

lemma probes_update:
  assumes "p < length (entries idx)" and "entries j = (entries idx)[p := e]" and "idx_mask j = idx_mask idx"
  shows "\<exists>i < length (entries idx). probes j key = (probes idx key)[i := e] \<and> probes idx key ! i = entries idx ! p"
proof -
  let ?n = "length (entries idx)" and ?h = "unat (index_home idx key)"
  have n: "0 < ?n" using assms(1) by linarith
  define i where "i = (p + (?n - ?h mod ?n)) mod ?n"
  have i: "i < ?n" using n by (simp add: i_def)
  have "(?h + i) mod ?n = (?h mod ?n + (p + (?n - ?h mod ?n))) mod ?n"
    by (simp add: i_def mod_simps)
  also have "?h mod ?n + (p + (?n - ?h mod ?n)) = p + ?n"
    using mod_less_divisor [OF n, of ?h] by linarith
  finally have hp: "(?h + i) mod ?n = p" using assms(1) by simp
  have "index_home j key = index_home idx key" using assms(3) by (simp add: index_home_def)
  then have "probes j key = (probes idx key)[i := e]"
    using rotate_update [OF i, of ?h e] assms(2) hp by (simp add: probes_def)
  with i hp show ?thesis by (auto simp: probes_nth)
qed

section \<open>The invariant\<close>

definition index_lookup :: "flat_index \<Rightarrow> order_id \<rightharpoonup> slot_index" where
  "index_lookup idx key = scan_find key (probes idx key)"

definition index_inv :: "flat_index \<Rightarrow> bool" where
  "index_inv idx \<longleftrightarrow>
     table_ok idx \<and>
     idx_size idx = length (filter (\<lambda>e. ent_state e = Occupied) (entries idx)) \<and>
     distinct (map ent_key (filter (\<lambda>e. ent_state e = Occupied) (entries idx))) \<and>
     (\<forall>e \<in> set (entries idx). ent_state e = Occupied \<longrightarrow> index_lookup idx (ent_key e) = Some (ent_value e))"

lemma scan_find_Some: "scan_find key es = Some v \<Longrightarrow> \<exists>e \<in> set es. index_occ key e \<and> ent_value e = v"
  by (induction es) (auto split: if_splits)

lemma lookup_iff:
  assumes "index_inv idx"
  shows "index_lookup idx k = Some v \<longleftrightarrow> (\<exists>e \<in> set (entries idx). index_occ k e \<and> ent_value e = v)"
  using assms scan_find_Some [of k "probes idx k" v]
  by (auto simp: index_inv_def index_occ_def index_lookup_def probes_def)

text \<open>Replacing an entry that is skipped anyway leaves the search for another key alone.\<close>

lemma scan_find_update:
  "scan_find k es = Some v \<Longrightarrow> i < length es \<Longrightarrow> \<not> index_occ k (es ! i) \<Longrightarrow> \<not> index_occ k e \<Longrightarrow>
   ent_state e \<noteq> Empty \<Longrightarrow> scan_find k (es[i := e]) = Some v"
  by (induction es arbitrary: i) (auto split: nat.splits if_splits)

lemma scan_find_stored:
  "i < length es \<Longrightarrow> \<forall>j < i. ent_state (es ! j) \<noteq> Empty \<and> \<not> index_occ k (es ! j) \<Longrightarrow>
   index_occ k e \<Longrightarrow> scan_find k (es[i := e]) = Some (ent_value e)"
proof (induction es arbitrary: i)
  case (Cons x es)
  show ?case
  proof (cases i)
    case 0
    then show ?thesis using Cons.prems by (simp add: index_occ_def)
  next
    case (Suc i')
    have "\<forall>j < i'. ent_state (es ! j) \<noteq> Empty \<and> \<not> index_occ k (es ! j)"
      using Cons.prems(2) Suc by (metis Suc_less_eq nth_Cons_Suc)
    moreover have "ent_state x \<noteq> Empty \<and> \<not> index_occ k x"
      using Cons.prems(2) Suc by (metis nth_Cons_0 zero_less_Suc)
    ultimately show ?thesis using Cons Suc by simp
  qed
qed simp

lemma filter_update_in:
  "p < length xs \<Longrightarrow> P x \<Longrightarrow> \<not> P (xs ! p) \<Longrightarrow>
   \<exists>ys zs. filter P xs = ys @ zs \<and> filter P (xs[p := x]) = ys @ x # zs"
  by (rule exI [of _ "filter P (take p xs)"], rule exI [of _ "filter P (drop (Suc p) xs)"])
    (simp add: upd_conv_take_nth_drop flip: filter_append, subst id_take_nth_drop [of p xs], simp_all)

lemma filter_update_out:
  "p < length xs \<Longrightarrow> \<not> P x \<Longrightarrow> P (xs ! p) \<Longrightarrow>
   \<exists>ys zs. filter P xs = ys @ xs ! p # zs \<and> filter P (xs[p := x]) = ys @ zs"
  by (rule exI [of _ "filter P (take p xs)"], rule exI [of _ "filter P (drop (Suc p) xs)"])
    (simp add: upd_conv_take_nth_drop flip: filter_append, subst id_take_nth_drop [of p xs], simp_all)

lemma lookup_ext:
  assumes "index_inv idx" and "index_inv j"
    and "\<And>k' v'. (\<exists>e \<in> set (entries j). index_occ k' e \<and> ent_value e = v') \<longleftrightarrow> m k' = Some v'"
  shows "index_lookup j = m"
proof
  fix k'
  show "index_lookup j k' = m k'"
    using lookup_iff [OF assms(2), of k'] assms(3) [of k'] by (metis not_None_eq)
qed

lemma no_occ: "index_inv idx \<Longrightarrow> index_lookup idx k = None \<Longrightarrow> e \<in> set (entries idx) \<Longrightarrow> \<not> index_occ k e"
  using lookup_iff [of idx k] by force

text \<open>Storing a fresh key in a free entry of its probe sequence.\<close>

text \<open>After a fresh key was stored, every occupied entry is found under its key.\<close>

lemma store_found:
  assumes inv: "index_inv idx" and fresh: "index_lookup idx k = None"
    and t: "t < length (entries idx)" and p: "p = (unat (index_home idx k) + t) mod length (entries idx)"
    and free: "ent_state (entries idx ! p) \<noteq> Occupied"
    and path: "\<forall>i < t. ent_state (probes idx k ! i) \<noteq> Empty"
    and j: "j = idx\<lparr>entries := (entries idx)[p := e], idx_size := idx_size idx + 1\<rparr>"
    and e: "e = \<lparr>ent_key = k, ent_value = v, ent_state = Occupied\<rparr>"
    and x: "x \<in> set (entries j)" "ent_state x = Occupied"
  shows "index_lookup j (ent_key x) = Some (ent_value x)"
proof -
  have pn: "p < length (entries idx)"
    unfolding p using inv by (intro mod_less_divisor table_ok_pos) (simp add: index_inv_def)
  have ents: "entries j = (entries idx)[p := e]" by (simp add: j)
  show ?thesis
  proof (cases "x = e")
    case True
    have "\<forall>i < t. ent_state (probes idx k ! i) \<noteq> Empty \<and> \<not> index_occ k (probes idx k ! i)"
      using path no_occ [OF inv fresh probes_mem] t by simp
    moreover have "probes j k = (probes idx k)[t := e]"
      using rotate_update [OF t, of "unat (index_home idx k)" e] ents p by (simp add: probes_def index_home_def j)
    ultimately show ?thesis
      using True scan_find_stored [of t "probes idx k" k e] t e by (simp add: index_lookup_def index_occ_def)
  next
    case False
    then have xi: "x \<in> set (entries idx)" using x(1) ents set_update_subset_insert [of "entries idx" p e] by auto
    then have old: "index_lookup idx (ent_key x) = Some (ent_value x)" using inv x(2) by (simp add: index_inv_def)
    obtain i where i: "i < length (entries idx)" "probes j (ent_key x) = (probes idx (ent_key x))[i := e]"
      "probes idx (ent_key x) ! i = entries idx ! p"
      using probes_update [OF pn ents, of "ent_key x"] by (auto simp: j)
    have "ent_key x \<noteq> k" using no_occ [OF inv fresh xi] x(2) by (simp add: index_occ_def)
    then show ?thesis
      using scan_find_update [of "ent_key x" "probes idx (ent_key x)" "ent_value x" i e] old i free e
      by (simp add: index_lookup_def index_occ_def)
  qed
qed

lemma store_fresh:
  assumes inv: "index_inv idx" and fresh: "index_lookup idx k = None"
    and t: "t < length (entries idx)" and p: "p = (unat (index_home idx k) + t) mod length (entries idx)"
    and free: "ent_state (entries idx ! p) \<noteq> Occupied"
    and path: "\<forall>i < t. ent_state (probes idx k ! i) \<noteq> Empty"
    and j: "j = idx\<lparr>entries := (entries idx)[p := e], idx_size := idx_size idx + 1\<rparr>"
    and e: "e = \<lparr>ent_key = k, ent_value = v, ent_state = Occupied\<rparr>"
  shows "index_inv j \<and> index_lookup j = (index_lookup idx)(k \<mapsto> v)"
proof -
  let ?occ = "\<lambda>e. ent_state e = Occupied"
  have tab: "table_ok idx" using inv by (simp add: index_inv_def)
  have pn: "p < length (entries idx)" unfolding p by (rule mod_less_divisor [OF table_ok_pos [OF tab]])
  obtain ys zs where f: "filter ?occ (entries idx) = ys @ zs" "filter ?occ (entries j) = ys @ e # zs"
    using filter_update_in [of p "entries idx" ?occ e] pn free e j by auto
  have "k \<notin> ent_key ` set (ys @ zs)"
    using no_occ [OF inv fresh] unfolding f(1) [symmetric] by (auto simp: index_occ_def)
  then have "distinct (map ent_key (filter ?occ (entries j)))" using inv f by (auto simp: index_inv_def e)
  moreover have "table_ok j" using tab by (simp add: table_ok_def j)
  ultimately have inv_j: "index_inv j"
    using inv f store_found [OF assms] by (simp add: index_inv_def) (simp add: j)
  have "x \<in> set (filter ?occ (entries j)) \<longleftrightarrow> x = e \<or> x \<in> set (filter ?occ (entries idx))" for x
    unfolding f by auto
  then have mem: "x \<in> set (entries j) \<and> ?occ x \<longleftrightarrow> x = e \<or> x \<in> set (entries idx) \<and> ?occ x" for x by simp
  have "(\<exists>x \<in> set (entries j). index_occ k' x \<and> ent_value x = v') \<longleftrightarrow>
      ((index_lookup idx)(k \<mapsto> v)) k' = Some v'" for k' v'
  proof -
    have "(\<exists>x \<in> set (entries j). index_occ k' x \<and> ent_value x = v') \<longleftrightarrow>
        (\<exists>x. (x \<in> set (entries j) \<and> ?occ x) \<and> ent_key x = k' \<and> ent_value x = v')"
      by (auto simp: index_occ_def)
    also have "\<dots> \<longleftrightarrow> (k' = k \<and> v' = v) \<or> index_lookup idx k' = Some v'"
      unfolding lookup_iff [OF inv] index_occ_def mem by (auto simp: e)
    finally show ?thesis using fresh by auto
  qed
  from lookup_ext [OF inv inv_j this] inv_j show ?thesis by blast
qed

text \<open>The insertion loop: it stops at the key, or stores in the first free entry it may use.\<close>

definition stored_at :: "flat_index \<Rightarrow> order_id \<Rightarrow> slot_index \<Rightarrow> nat \<Rightarrow> flat_index" where
  "stored_at idx k v t =
     idx\<lparr>entries := (entries idx)[(unat (index_home idx k) + t) mod length (entries idx) :=
           \<lparr>ent_key = k, ent_value = v, ent_state = Occupied\<rparr>],
         idx_size := idx_size idx + 1\<rparr>"

lemma index_store_at:
  "table_ok idx \<Longrightarrow> at_probe idx k t pos \<Longrightarrow> index_store idx pos k v = Inr (True, stored_at idx k v t)"
  using at_probe_less [of idx k t pos] by (simp add: index_store_def stored_at_def at_probe_def)

lemma probe_insert_present:
  assumes "table_ok idx"
  shows "at_probe idx key i pos \<Longrightarrow> i + n = length (entries idx) \<Longrightarrow>
    scan_find key (drop i (probes idx key)) = Some w \<Longrightarrow> probe_insert idx key v n pos tomb = Inr (False, idx)"
proof (induction n arbitrary: i pos tomb)
  case 0
  then show ?case by simp
next
  case (Suc n)
  then have i: "i < length (probes idx key)" by simp
  have "drop i (probes idx key) = probes idx key ! i # drop (Suc i) (probes idx key)"
    using i by (simp add: Cons_nth_drop_Suc)
  then show ?case
    using Suc.IH [OF at_probe_Suc [OF assms Suc.prems(1)]] Suc.prems i
    by (auto simp: at_probe_entry [OF assms Suc.prems(1)] index_occ_def Let_def split: if_splits)
qed

text \<open>The tombstone the loop remembers after \<open>i\<close> steps: the first one passed, if any.\<close>

definition tomb_ok :: "flat_index \<Rightarrow> order_id \<Rightarrow> nat \<Rightarrow> u64 option \<Rightarrow> bool" where
  "tomb_ok idx key i tomb \<longleftrightarrow>
     (case tomb of
        None \<Rightarrow> \<forall>j < i. ent_state (probes idx key ! j) = Occupied
      | Some q \<Rightarrow> \<exists>t < i. at_probe idx key t q \<and> ent_state (probes idx key ! t) = Tombstone)"

lemma tomb_ok_Suc:
  assumes "tomb_ok idx key i tomb" and "at_probe idx key i pos" and "ent_state (probes idx key ! i) \<noteq> Empty"
  shows "tomb_ok idx key (Suc i) (if ent_state (probes idx key ! i) = Tombstone \<and> tomb = None then Some pos else tomb)"
  using assms unfolding tomb_ok_def
  by (cases tomb; cases "ent_state (probes idx key ! i)") (auto simp: less_Suc_eq)

lemma tomb_ok_full:
  assumes "tomb_ok idx key (length (entries idx)) tomb" and "\<exists>e \<in> set (entries idx). ent_state e \<noteq> Occupied"
  obtains t q where "tomb = Some q" "t < length (entries idx)" "at_probe idx key t q" "ent_state (probes idx key ! t) = Tombstone"
proof (cases tomb)
  case None
  then have "\<forall>e \<in> set (probes idx key). ent_state e = Occupied"
    using assms(1) by (auto simp: tomb_ok_def in_set_conv_nth)
  then show thesis using assms(2) by (auto simp: probes_def)
next
  case (Some q)
  then show thesis using assms(1) that by (auto simp: tomb_ok_def)
qed

lemma tomb_ok_target:
  assumes "tomb_ok idx key i tomb" and "at_probe idx key i pos" and "ent_state (probes idx key ! i) = Empty"
  obtains t where "at_probe idx key t (case tomb of Some t \<Rightarrow> t | None \<Rightarrow> pos)" "t \<le> i"
    "ent_state (probes idx key ! t) \<noteq> Occupied"
  using assms unfolding tomb_ok_def by (cases tomb) force+

lemma probe_insert_fresh:
  assumes tab: "table_ok idx" and fresh: "\<forall>e \<in> set (entries idx). \<not> index_occ key e"
    and room: "\<exists>e \<in> set (entries idx). ent_state e \<noteq> Occupied"
  shows "at_probe idx key i pos \<Longrightarrow> i + n = length (entries idx) \<Longrightarrow>
    \<forall>j < i. ent_state (probes idx key ! j) \<noteq> Empty \<Longrightarrow> tomb_ok idx key i tomb \<Longrightarrow>
    \<exists>t < length (entries idx). probe_insert idx key v n pos tomb = Inr (True, stored_at idx key v t) \<and>
      ent_state (probes idx key ! t) \<noteq> Occupied \<and> (\<forall>j < t. ent_state (probes idx key ! j) \<noteq> Empty)"
proof (induction n arbitrary: i pos tomb)
  case 0
  have "tomb_ok idx key (length (entries idx)) tomb" using 0 by simp
  then obtain t q where t: "tomb = Some q" "t < length (entries idx)" "at_probe idx key t q"
    "ent_state (probes idx key ! t) = Tombstone" using room by (rule tomb_ok_full)
  with 0 show ?case by (intro exI [of _ t]) (simp add: index_store_at [OF tab t(3)])
next
  case (Suc n)
  let ?e = "probes idx key ! i"
  have i: "i < length (entries idx)" using Suc.prems by simp
  have nocc: "\<not> index_occ key ?e" using fresh probes_mem [OF i] by blast
  show ?case
  proof (cases "ent_state ?e = Empty")
    case True
    obtain t where t: "at_probe idx key t (case tomb of Some t \<Rightarrow> t | None \<Rightarrow> pos)" "t \<le> i"
      "ent_state (probes idx key ! t) \<noteq> Occupied" by (rule tomb_ok_target [OF Suc.prems(4,1) True])
    have "probe_insert idx key v (Suc n) pos tomb =
        index_store idx (case tomb of Some t \<Rightarrow> t | None \<Rightarrow> pos) key v"
      using True by (simp add: at_probe_entry [OF tab Suc.prems(1) i] Let_def)
    then show ?thesis
      using t i Suc.prems(3) by (intro exI [of _ t]) (simp add: index_store_at [OF tab t(1)])
  next
    case False
    let ?tomb = "if ent_state ?e = Tombstone \<and> tomb = None then Some pos else tomb"
    have run: "probe_insert idx key v (Suc n) pos tomb =
        probe_insert idx key v n ((pos + 1) AND idx_mask idx) ?tomb"
      using False nocc by (auto simp: at_probe_entry [OF tab Suc.prems(1) i] index_occ_def Let_def)
    have "\<forall>j < Suc i. ent_state (probes idx key ! j) \<noteq> Empty"
      using Suc.prems(3) False by (simp add: less_Suc_eq)
    then show ?thesis
      unfolding run
      using Suc.IH [OF at_probe_Suc [OF tab Suc.prems(1)] _ _ tomb_ok_Suc [OF Suc.prems(4,1) False]] Suc.prems(2) by simp
  qed
qed

lemma probe_erase_absent:
  assumes "table_ok idx"
  shows "at_probe idx key i pos \<Longrightarrow> i + n = length (entries idx) \<Longrightarrow>
    scan_find key (drop i (probes idx key)) = None \<Longrightarrow> probe_erase idx key n pos = Inr (False, idx)"
proof (induction n arbitrary: i pos)
  case 0
  then show ?case by simp
next
  case (Suc n)
  then have i: "i < length (probes idx key)" by simp
  have "drop i (probes idx key) = probes idx key ! i # drop (Suc i) (probes idx key)"
    using i by (simp add: Cons_nth_drop_Suc)
  then show ?case
    using Suc.IH [OF at_probe_Suc [OF assms Suc.prems(1)]] Suc.prems i
    by (auto simp: at_probe_entry [OF assms Suc.prems(1)] index_occ_def split: if_splits)
qed

definition buried_at :: "flat_index \<Rightarrow> nat \<Rightarrow> flat_index" where
  "buried_at idx p = idx\<lparr>entries := (entries idx)[p := (entries idx ! p)\<lparr>ent_state := Tombstone\<rparr>],
     idx_size := idx_size idx - 1\<rparr>"

lemma probe_erase_present:
  assumes "table_ok idx"
  shows "at_probe idx key i pos \<Longrightarrow> i + n = length (entries idx) \<Longrightarrow>
    scan_find key (drop i (probes idx key)) = Some w \<Longrightarrow>
    \<exists>p < length (entries idx). index_occ key (entries idx ! p) \<and>
      probe_erase idx key n pos = Inr (True, buried_at idx p)"
proof (induction n arbitrary: i pos)
  case 0
  then show ?case by simp
next
  case (Suc n)
  then have i: "i < length (probes idx key)" by simp
  have d: "drop i (probes idx key) = probes idx key ! i # drop (Suc i) (probes idx key)"
    using i by (simp add: Cons_nth_drop_Suc)
  have pos: "unat pos < length (entries idx)" "probes idx key ! i = entries idx ! unat pos"
    using at_probe_less [OF assms Suc.prems(1)] Suc.prems(1) i by (simp_all add: probes_nth at_probe_def)
  show ?case
  proof (cases "index_occ key (probes idx key ! i)")
    case True
    then show ?thesis
      using pos by (intro exI [of _ "unat pos"]) (simp add: index_occ_def buried_at_def)
  next
    case False
    then show ?thesis
      using Suc.IH [OF at_probe_Suc [OF assms Suc.prems(1)]] Suc.prems d pos
      by (auto simp: index_occ_def split: if_splits)
  qed
qed

text \<open>Burying the entry of a key.\<close>

lemma bury_present:
  assumes inv: "index_inv idx" and p: "p < length (entries idx)" and occ: "index_occ k (entries idx ! p)"
  shows "index_inv (buried_at idx p) \<and> index_lookup (buried_at idx p) = (index_lookup idx)(k := None)"
proof -
  let ?occ = "\<lambda>e. ent_state e = Occupied"
  let ?j = "buried_at idx p"
  define e where "e = (entries idx ! p)\<lparr>ent_state := Tombstone\<rparr>"
  have tab: "table_ok idx" using inv by (simp add: index_inv_def)
  have ents: "entries ?j = (entries idx)[p := e]" by (simp add: buried_at_def e_def)
  have e: "ent_state e = Tombstone" by (simp add: e_def)
  obtain ys zs where f: "filter ?occ (entries idx) = ys @ entries idx ! p # zs"
    "filter ?occ (entries ?j) = ys @ zs"
    using filter_update_out [of p "entries idx" ?occ e] p occ ents e by (auto simp: index_occ_def)
  have mem: "x \<in> set (entries ?j) \<and> ?occ x \<longleftrightarrow> x \<in> set (entries idx) \<and> ?occ x \<and> ent_key x \<noteq> k" for x
  proof -
    have "distinct (map ent_key (ys @ entries idx ! p # zs))" using inv unfolding index_inv_def f(1) by blast
    then have "x \<in> set (ys @ zs) \<longleftrightarrow> x \<in> set (ys @ entries idx ! p # zs) \<and> ent_key x \<noteq> k"
      using occ by (auto simp: index_occ_def image_iff)
    then show ?thesis unfolding f(1) [symmetric] f(2) [symmetric] by simp
  qed
  have dist: "distinct (map ent_key (filter ?occ (entries ?j)))"
    using inv f by (auto simp: index_inv_def)
  have found: "index_lookup ?j (ent_key x) = Some (ent_value x)" if x: "x \<in> set (entries ?j)" "?occ x" for x
  proof -
    have xi: "x \<in> set (entries idx)" "ent_key x \<noteq> k" using mem [of x] x by auto
    then have old: "index_lookup idx (ent_key x) = Some (ent_value x)" using inv x(2) by (simp add: index_inv_def)
    obtain i where i: "i < length (entries idx)" "probes ?j (ent_key x) = (probes idx (ent_key x))[i := e]"
      "probes idx (ent_key x) ! i = entries idx ! p"
      using probes_update [OF p ents, of "ent_key x"] by (auto simp: buried_at_def)
    then show ?thesis
      using scan_find_update [of "ent_key x" "probes idx (ent_key x)" "ent_value x" i e] old occ xi(2) e
      by (simp add: index_lookup_def index_occ_def)
  qed
  have "table_ok ?j" using tab by (simp add: table_ok_def buried_at_def)
  then have inv_j: "index_inv ?j"
    using inv f dist found by (simp add: index_inv_def buried_at_def)
  have "(\<exists>x \<in> set (entries ?j). index_occ k' x \<and> ent_value x = v') \<longleftrightarrow>
      ((index_lookup idx)(k := None)) k' = Some v'" for k' v'
    using lookup_iff [OF inv, of k' v'] mem by (auto simp: index_occ_def)
  from lookup_ext [OF inv inv_j this] inv_j show ?thesis by blast
qed

section \<open>The contract\<close>

lemma lookup_dom:
  assumes "index_inv idx"
  shows "dom (index_lookup idx) = ent_key ` set (filter (\<lambda>e. ent_state e = Occupied) (entries idx))"
  using lookup_iff [OF assms] by (force simp: dom_def index_occ_def)

lemma lookup_card:
  assumes "index_inv idx"
  shows "idx_size idx = card (dom (index_lookup idx))"
proof -
  have "card (set (map ent_key (filter (\<lambda>e. ent_state e = Occupied) (entries idx)))) = idx_size idx"
    using assms unfolding index_inv_def by (subst distinct_card) auto
  then show ?thesis unfolding lookup_dom [OF assms] by simp
qed

lemma room_free:
  assumes "index_inv idx" and "idx_size idx * 10 < length (entries idx) * 7"
  shows "\<exists>e \<in> set (entries idx). ent_state e \<noteq> Occupied"
proof (rule ccontr)
  assume "\<not> ?thesis"
  then have "filter (\<lambda>e. ent_state e = Occupied) (entries idx) = entries idx" by (auto simp: filter_id_conv)
  then have "idx_size idx = length (entries idx)" using assms(1) by (simp add: index_inv_def)
  with assms(2) show False by simp
qed

lemma index_insert_fresh:
  assumes inv: "index_inv idx" and fresh: "index_lookup idx k = None"
    and room: "idx_size idx * 10 < length (entries idx) * 7"
  shows "\<exists>j. index_insert idx k v = Inr (True, j) \<and> index_inv j \<and>
    index_lookup j = (index_lookup idx)(k \<mapsto> v) \<and> length (entries j) = length (entries idx)"
proof -
  have tab: "table_ok idx" using inv by (simp add: index_inv_def)
  have "\<forall>e \<in> set (entries idx). \<not> index_occ k e" using no_occ [OF inv fresh] by blast
  from probe_insert_fresh [OF tab this room_free [OF inv room] at_probe_0 [OF tab], of "length (entries idx)" None v]
  obtain t where t: "t < length (entries idx)"
    "probe_insert idx k v (length (entries idx)) (index_home idx k) None = Inr (True, stored_at idx k v t)"
    "ent_state (probes idx k ! t) \<noteq> Occupied" "\<forall>j < t. ent_state (probes idx k ! j) \<noteq> Empty"
    by (auto simp: tomb_ok_def)
  have "index_inv (stored_at idx k v t) \<and> index_lookup (stored_at idx k v t) = (index_lookup idx)(k \<mapsto> v)"
    using store_fresh [OF inv fresh t(1) refl _ t(4) _ refl, of "stored_at idx k v t" v] t(1,3)
    by (simp add: stored_at_def probes_nth)
  moreover have "index_insert idx k v = Inr (True, stored_at idx k v t)"
    using t(2) room by (simp add: index_insert_def)
  ultimately show ?thesis by (simp add: stored_at_def)
qed

lemma index_insert_present:
  assumes "index_inv idx" and "index_lookup idx k \<noteq> None"
  shows "index_insert idx k v = Inr (False, idx)"
proof -
  have tab: "table_ok idx" using assms(1) by (simp add: index_inv_def)
  from assms(2) obtain w where w: "scan_find k (probes idx k) = Some w" by (auto simp: index_lookup_def)
  with probe_insert_present [OF tab at_probe_0 [OF tab], of "length (entries idx)" k w v None]
  show ?thesis by (simp add: index_insert_def)
qed

lemma index_erase_present:
  assumes "index_inv idx" and "index_lookup idx k \<noteq> None"
  shows "\<exists>j. index_erase idx k = Inr (True, j) \<and> index_inv j \<and>
    index_lookup j = (index_lookup idx)(k := None) \<and> length (entries j) = length (entries idx)"
proof -
  have tab: "table_ok idx" using assms(1) by (simp add: index_inv_def)
  from assms(2) obtain w where w: "scan_find k (probes idx k) = Some w" by (auto simp: index_lookup_def)
  with probe_erase_present [OF tab at_probe_0 [OF tab], of "length (entries idx)" k w]
  obtain p where p: "p < length (entries idx)" "index_occ k (entries idx ! p)"
    "index_erase idx k = Inr (True, buried_at idx p)"
    by (auto simp: index_erase_def)
  with bury_present [OF assms(1) p(1,2)] show ?thesis by (simp add: buried_at_def)
qed

lemma index_erase_absent:
  assumes "index_inv idx" and "index_lookup idx k = None"
  shows "index_erase idx k = Inr (False, idx)"
proof -
  have tab: "table_ok idx" using assms(1) by (simp add: index_inv_def)
  with probe_erase_absent [OF tab at_probe_0 [OF tab], of "length (entries idx)" k] assms(2)
  show ?thesis by (simp add: index_erase_def index_lookup_def)
qed

lemma index_find_lookup:
  assumes "index_inv idx"
  shows "index_find idx k = Inr (index_lookup idx k)"
proof -
  have tab: "table_ok idx" using assms(1) by (simp add: index_inv_def)
  with probe_find_scan [OF tab at_probe_0 [OF tab], of "length (entries idx)" k]
  show ?thesis by (simp add: index_find_def index_lookup_def)
qed

interpretation flat: order_index index_find index_insert index_erase idx_size
  "\<lambda>i. length (entries i)" index_lookup index_inv
proof
  fix i :: flat_index and k :: order_id and v :: slot_index
  assume inv: "index_inv i"
  show "index_find i k = Inr (index_lookup i k)" by (rule index_find_lookup [OF inv])
  show "idx_size i = card (dom (index_lookup i))" by (rule lookup_card [OF inv])
  show "finite (dom (index_lookup i))" unfolding lookup_dom [OF inv] by simp
  show "index_insert i k v = Inr (False, i)" if "index_lookup i k \<noteq> None"
    using index_insert_present [OF inv that] .
  show "\<exists>j. index_insert i k v = Inr (True, j) \<and> index_inv j \<and>
      index_lookup j = (index_lookup i)(k \<mapsto> v) \<and> length (entries j) = length (entries i)"
    if "index_lookup i k = None" "idx_size i * 10 < length (entries i) * 7"
    using index_insert_fresh [OF inv that] .
  show "index_insert i k v = Inr (False, i)" if "length (entries i) * 7 \<le> idx_size i * 10"
    using that by (simp add: index_insert_def)
  show "\<exists>j. index_erase i k = Inr (True, j) \<and> index_inv j \<and>
      index_lookup j = (index_lookup i)(k := None) \<and> length (entries j) = length (entries i)"
    if "index_lookup i k \<noteq> None"
    using index_erase_present [OF inv that] .
  show "index_erase i k = Inr (False, i)" if "index_lookup i k = None"
    using index_erase_absent [OF inv that] .
qed

section \<open>Construction\<close>

lemma bit_ceil_from_power:
  "\<exists>k. bit_ceil_from (2 ^ i) n = 2 ^ k \<and> n \<le> 2 ^ k \<and> (k = i \<or> 2 ^ (k - 1) < n)"
proof (induction "2 ^ i :: nat" n arbitrary: i rule: bit_ceil_from.induct)
  case (1 n)
  show ?case
  proof (cases "n \<le> 2 ^ i")
    case True
    then show ?thesis by (subst bit_ceil_from.simps) (auto intro!: exI [of _ i])
  next
    case False
    with "1.hyps" [of "Suc i"] obtain k where k: "bit_ceil_from (2 ^ Suc i) n = 2 ^ k" "n \<le> 2 ^ k"
      "k = Suc i \<or> 2 ^ (k - 1) < n" by auto
    with False have "bit_ceil_from (2 ^ i) n = 2 ^ k"
      by (subst bit_ceil_from.simps) simp
    with k False show ?thesis by (intro exI [of _ k]) auto
  qed
qed

lemma bit_ceil_power: "\<exists>k. bit_ceil n = 2 ^ k \<and> n \<le> 2 ^ k \<and> (k = 0 \<or> 2 ^ (k - 1) < n)"
  using bit_ceil_from_power [of 0 n] by (simp add: bit_ceil_def)

lemma index_init_ok:
  assumes "max_entries < 2 ^ 62"
  shows "index_inv (index_init max_entries) \<and> index_lookup (index_init max_entries) = Map.empty \<and>
    2 * max_entries \<le> length (entries (index_init max_entries)) \<and>
    16 \<le> length (entries (index_init max_entries)) \<and> idx_size (index_init max_entries) = 0"
proof -
  define wanted where "wanted = (if max_entries < 8 then 16 else (max_entries * 2) mod 2 ^ 64)"
  have w: "wanted = (if max_entries < 8 then 16 else max_entries * 2)" using assms by (simp add: wanted_def)
  obtain k where k: "bit_ceil wanted = 2 ^ k" "wanted \<le> 2 ^ k" "k = 0 \<or> 2 ^ (k - 1) < wanted"
    using bit_ceil_power by blast
  have "k < 64"
  proof (rule ccontr)
    assume "\<not> k < 64"
    then have "(2 :: nat) ^ 63 \<le> 2 ^ (k - 1)" by (intro power_increasing) auto
    with \<open>\<not> k < 64\<close> k(3) assms show False by (auto simp: w split: if_splits)
  qed
  define i where "i = index_init max_entries"
  have i: "i = \<lparr>entries = replicate (2 ^ k) empty_entry, idx_mask = of_nat (2 ^ k) - 1, idx_size = 0\<rparr>"
    using k(1) unfolding i_def index_init_def wanted_def Let_def by simp
  have "table_ok i" using \<open>k < 64\<close> by (auto simp: table_ok_def i mask_eq_exp_minus_1)
  moreover have "index_lookup i key = None" for key
    using scan_find_Some [of key "probes i key"]
    by (cases "index_lookup i key") (auto simp: index_lookup_def probes_def i index_occ_def empty_entry_def)
  ultimately show ?thesis
    using k(2) w unfolding i_def [symmetric]
    by (auto simp: index_inv_def i empty_entry_def split: if_splits)
qed

section \<open>Sequences of operations\<close>

datatype index_op = Ix_Insert order_id slot_index | Ix_Erase order_id

fun index_step :: "flat_index \<Rightarrow> index_op \<Rightarrow> (bool \<times> flat_index) res" where
  "index_step idx (Ix_Insert k v) = index_insert idx k v"
| "index_step idx (Ix_Erase k) = index_erase idx k"

text \<open>
  The specification: a finite map with its size; an insertion is refused for a key that is
  present, and above the load limit of 70% of the capacity.
\<close>

fun map_step :: "nat \<Rightarrow> nat \<times> (order_id \<rightharpoonup> slot_index) \<Rightarrow> index_op \<Rightarrow> bool \<times> nat \<times> (order_id \<rightharpoonup> slot_index)" where
  "map_step cap (n, m) (Ix_Insert k v) =
     (if m k = None \<and> n * 10 < cap * 7 then (True, n + 1, m(k \<mapsto> v)) else (False, n, m))"
| "map_step cap (n, m) (Ix_Erase k) =
     (if m k = None then (False, n, m) else (True, n - 1, m(k := None)))"

abbreviation index_abs :: "flat_index \<Rightarrow> nat \<times> (order_id \<rightharpoonup> slot_index)" where
  "index_abs idx \<equiv> (idx_size idx, index_lookup idx)"

lemma index_step_abs:
  assumes inv: "index_inv idx"
  shows "\<exists>ok j. index_step idx x = Inr (ok, j) \<and> index_inv j \<and> length (entries j) = length (entries idx) \<and>
    map_step (length (entries idx)) (index_abs idx) x = (ok, index_abs j)"
proof (cases x)
  case (Ix_Insert k v)
  consider "index_lookup idx k \<noteq> None" | "length (entries idx) * 7 \<le> idx_size idx * 10"
    | "index_lookup idx k = None" "idx_size idx * 10 < length (entries idx) * 7" by linarith
  then show ?thesis
  proof cases
    case 1
    then show ?thesis
      using inv Ix_Insert flat.insert_present [OF inv 1] by auto
  next
    case 2
    then show ?thesis using inv Ix_Insert by (auto simp: flat.insert_full)
  next
    case 3
    from flat.insert_fresh [OF inv 3] obtain j where "index_insert idx k v = Inr (True, j)" "index_inv j"
      "index_lookup j = (index_lookup idx)(k \<mapsto> v)" "length (entries j) = length (entries idx)" by blast
    with 3 flat.size_update [OF inv this(2) 3(1) this(3)] Ix_Insert show ?thesis by auto
  qed
next
  case (Ix_Erase k)
  show ?thesis
  proof (cases "index_lookup idx k = None")
    case True
    then show ?thesis using inv Ix_Erase by (auto simp: flat.erase_absent)
  next
    case False
    from flat.erase_present [OF inv False] obtain j where j: "index_erase idx k = Inr (True, j)" "index_inv j"
      "index_lookup j = (index_lookup idx)(k := None)" "length (entries j) = length (entries idx)" by blast
    have "idx_size j = idx_size idx - 1"
      using flat.size_card [OF inv] flat.size_card [OF j(2)] j(3) False flat.finite_lookup [OF inv]
      by (simp add: domIff)
    with False Ix_Erase j show ?thesis by (intro exI [of _ True] exI [of _ j]) simp
  qed
qed

interpretation flat_sim: simulation index_step "map_step cap"
  "\<lambda>idx s. index_inv idx \<and> length (entries idx) = cap \<and> s = index_abs idx" for cap
proof
  fix idx :: flat_index and s :: "nat \<times> (order_id \<rightharpoonup> slot_index)" and x :: index_op
  assume rel: "index_inv idx \<and> length (entries idx) = cap \<and> s = index_abs idx"
  then show "\<exists>j. index_step idx x = Inr (fst (map_step cap s x), j) \<and>
      index_inv j \<and> length (entries j) = cap \<and> snd (map_step cap s x) = index_abs j"
    using index_step_abs [of idx x] by fastforce
qed

text \<open>
  C20: The flat order index implements a finite map. From a fresh table, every sequence of
  insertions and erasures runs without undefined behaviour, returns the results of the same
  sequence on a map with a 70% load limit, and afterwards \<open>find\<close> and \<open>size\<close> are those of the
  map. In particular tombstones never hide a live key, never let a key be stored twice, and a
  table full of tombstones still accepts insertions.
\<close>

theorem index_implements_map:
  assumes "max_entries < 2 ^ 62"
  shows "\<exists>idx. run_res index_step (index_init max_entries) ops =
        Inr (fst (run_spec (map_step (length (entries (index_init max_entries)))) (0, Map.empty) ops), idx) \<and>
      (\<forall>k. index_find idx k =
        Inr (snd (snd (run_spec (map_step (length (entries (index_init max_entries)))) (0, Map.empty) ops)) k)) \<and>
      idx_size idx = fst (snd (run_spec (map_step (length (entries (index_init max_entries)))) (0, Map.empty) ops))"
proof -
  have init: "index_inv (index_init max_entries)" "index_abs (index_init max_entries) = (0, Map.empty)"
    using index_init_ok [OF assms] by auto
  have rel: "index_inv (index_init max_entries) \<and>
      length (entries (index_init max_entries)) = length (entries (index_init max_entries)) \<and>
      (0, Map.empty) = index_abs (index_init max_entries)"
    using init by simp
  from flat_sim.run_sim [OF rel, of ops] show ?thesis
    by (fastforce simp: flat.find_lookup)
qed

theorem index_implements_map_witness:
  "\<exists>idx. run_res index_step (index_init 4) [Ix_Insert 7 1, Ix_Insert 7 2, Ix_Erase 7, Ix_Insert 7 3, Ix_Insert 9 4] =
      Inr ([True, False, True, True, True], idx) \<and>
    index_find idx 7 = Inr (Some 3) \<and> index_find idx 8 = Inr None \<and> idx_size idx = 2"
proof -
  have cap: "length (entries (index_init 4)) = 16"
    by (simp add: index_init_def bit_ceil_def bit_ceil_from.simps [of _ 16])
  have "(4 :: nat) < 2 ^ 62" by simp
  from index_implements_map [OF this,
      of "[Ix_Insert 7 1, Ix_Insert 7 2, Ix_Erase 7, Ix_Insert 7 3, Ix_Insert 9 4]"]
  show ?thesis unfolding cap
    by (simp del: run_res.simps) (elim exE conjE, rule exI, intro conjI, assumption, simp_all)
qed

text \<open>
  The index never refuses an order the book has room for. A table constructed for
  \<open>max_entries\<close> entries accepts every fresh key as long as at most \<open>max_entries\<close> keys are live,
  whatever insertions and erasures came before: the table has at least twice as many entries.
\<close>

theorem index_has_room:
  assumes "max_entries < 2 ^ 62" and "run_res index_step (index_init max_entries) ops = Inr (oks, idx)"
    and "idx_size idx \<le> max_entries" and "index_find idx key = Inr None"
  shows "\<exists>idx'. index_insert idx key v = Inr (True, idx') \<and> index_find idx' key = Inr (Some v) \<and>
    idx_size idx' = idx_size idx + 1"
proof -
  have init: "index_inv (index_init max_entries)" "2 * max_entries \<le> length (entries (index_init max_entries))"
    "16 \<le> length (entries (index_init max_entries))"
    using index_init_ok [OF assms(1)] by auto
  from flat_sim.run_sim [of "index_init max_entries" _ "index_abs (index_init max_entries)" ops] init(1) assms(2)
  have inv: "index_inv idx" "length (entries idx) = length (entries (index_init max_entries))" by auto
  have room: "idx_size idx * 10 < length (entries idx) * 7" using init assms(3) inv(2) by linarith
  have fresh: "index_lookup idx key = None" using assms(4) inv(1) by (simp add: flat.find_lookup)
  from flat.insert_fresh [OF inv(1) fresh room]
  obtain j where j: "index_insert idx key v = Inr (True, j)" "index_inv j"
    "index_lookup j = (index_lookup idx)(key \<mapsto> v)" by blast
  with flat.size_update [OF inv(1) j(2) fresh j(3)] show ?thesis by (simp add: flat.find_lookup)
qed

theorem index_has_room_witness:
  "\<exists>idx'. index_insert (index_init 1) 5 0 = Inr (True, idx') \<and> index_find idx' 5 = Inr (Some 0) \<and>
    idx_size idx' = idx_size (index_init 1) + 1"
proof (rule index_has_room [of 1 "[]" "[]"])
  show "(1 :: nat) < 2 ^ 62" by simp
  show "run_res index_step (index_init 1) [] = Inr ([], index_init 1)" by simp
  show "idx_size (index_init 1) \<le> 1" by (simp add: index_init_def Let_def)
  show "index_find (index_init 1) 5 = Inr None"
    using index_init_ok [of 1] flat.find_lookup [of "index_init 1" 5] by simp
qed

end
