(* ===== verification/Order_Book.thy ===== *)
theory Order_Book
  imports Flat_Index Std_Map
begin

text \<open>
  \<^verbatim>\<open>include/efe/order_book.hpp\<close> and \<^verbatim>\<open>src/order_book.cpp\<close>: the order book. Orders live in a
  fixed arena of slots; a free list and the doubly linked first-in-first-out queues of the price
  levels are threaded through the slots by index; the flat index finds a slot by order id; the
  levels are kept in ordered maps per symbol and side. The operations return the new book and the
  boolean result; a slot index outside the arena and a dereferenced end iterator are undefined
  behaviour, a failed \<open>at\<close> is \<open>OutOfRange\<close>. References into the arena and the maps are modelled
  by writing the changed level or slot back where the code changes it through the reference.

  Memory exhaustion is not modelled: the constructor's allocations succeed, and the map
  insertions of \<open>add\<close> and \<open>replace\<close> do not throw, so the catch block of \<open>add\<close> is not reached.
\<close>

section \<open>State\<close>

record slot =
  sl_order :: order
  sl_prev :: slot_index
  sl_next :: slot_index
  sl_next_free :: slot_index
  sl_alive :: bool

record price_level =
  lv_total :: quantity
  lv_head :: slot_index
  lv_tail :: slot_index

type_synonym levels = "(price, price_level) std_map"

record symbol_book =
  bids :: levels
  asks :: levels

record order_book =
  slots :: "slot list"
  free_head :: slot_index
  index :: flat_index
  books :: "(symbol, symbol_book) std_map"

record level_snapshot =
  snap_price :: price
  snap_total :: quantity
  fifo_order_ids :: "order_id list"

text \<open>The values of \<open>Order{}\<close>, \<open>Slot{}\<close>, \<open>PriceLevel{}\<close> and \<open>SymbolBook{}\<close>.\<close>

definition default_order :: order where
  "default_order = \<lparr>ord_id = 0, ord_symbol = Symbol (replicate 8 0), ord_side = Buy, ord_quantity = 0, ord_price = 0\<rparr>"

definition default_slot :: slot where
  "default_slot = \<lparr>sl_order = default_order, sl_prev = kInvalidSlot, sl_next = kInvalidSlot,
     sl_next_free = kInvalidSlot, sl_alive = False\<rparr>"

definition default_level :: price_level where
  "default_level = \<lparr>lv_total = 0, lv_head = kInvalidSlot, lv_tail = kInvalidSlot\<rparr>"

definition default_book :: symbol_book where
  "default_book = \<lparr>bids = [], asks = []\<rparr>"

definition order_book_init :: "nat \<Rightarrow> order_book res" where
  "order_book_init max_orders =
     (if max_orders = 0 \<or> max_orders \<ge> unat kInvalidSlot
      then Inl (InvalidArgument ''max_orders must be between 1 and UINT32_MAX-1'')
      else Inr \<lparr>slots = map (\<lambda>i. default_slot\<lparr>sl_next_free :=
                   (if i + 1 < max_orders then of_nat (i + 1) else kInvalidSlot)\<rparr>) [0..<max_orders],
                free_head = 0, index = index_init max_orders, books = []\<rparr>)"

section \<open>Slots and queues\<close>

definition slot_at :: "order_book \<Rightarrow> slot_index \<Rightarrow> slot res" where
  "slot_at ob i = span_at (slots ob) (unat i)"

definition slot_upd :: "order_book \<Rightarrow> slot_index \<Rightarrow> (slot \<Rightarrow> slot) \<Rightarrow> order_book res" where
  "slot_upd ob i f =
     rbind (slot_at ob i) (\<lambda>s.
     rbind (span_set (slots ob) (unat i) (f s)) (\<lambda>ss. Inr (ob\<lparr>slots := ss\<rparr>)))"

definition allocate_slot :: "order_book \<Rightarrow> (slot_index \<times> order_book) res" where
  "allocate_slot ob =
     (if free_head ob = kInvalidSlot then Inr (kInvalidSlot, ob)
      else let slot = free_head ob in
        rbind (slot_at ob slot) (\<lambda>s.
        rbind (slot_upd (ob\<lparr>free_head := sl_next_free s\<rparr>) slot
                 (\<lambda>s. s\<lparr>sl_next_free := kInvalidSlot, sl_alive := True\<rparr>)) (\<lambda>ob.
        Inr (slot, ob))))"

definition release_slot :: "order_book \<Rightarrow> slot_index \<Rightarrow> order_book res" where
  "release_slot ob slot =
     rbind (slot_upd ob slot (\<lambda>_. default_slot\<lparr>sl_next_free := free_head ob\<rparr>)) (\<lambda>ob.
     Inr (ob\<lparr>free_head := slot\<rparr>))"

definition link_at_tail :: "order_book \<Rightarrow> price_level \<Rightarrow> slot_index \<Rightarrow> (order_book \<times> price_level) res" where
  "link_at_tail ob level slot =
     rbind (slot_upd ob slot (\<lambda>s. s\<lparr>sl_prev := lv_tail level, sl_next := kInvalidSlot\<rparr>)) (\<lambda>ob.
     if lv_tail level \<noteq> kInvalidSlot then
       rbind (slot_upd ob (lv_tail level) (\<lambda>s. s\<lparr>sl_next := slot\<rparr>)) (\<lambda>ob.
       Inr (ob, level\<lparr>lv_tail := slot\<rparr>))
     else Inr (ob, level\<lparr>lv_head := slot, lv_tail := slot\<rparr>))"

definition unlink :: "order_book \<Rightarrow> price_level \<Rightarrow> slot_index \<Rightarrow> (order_book \<times> price_level) res" where
  "unlink ob level slot =
     rbind (slot_at ob slot) (\<lambda>s.
     let p = sl_prev s; n = sl_next s in
     rbind (if p \<noteq> kInvalidSlot then
              rbind (slot_upd ob p (\<lambda>s. s\<lparr>sl_next := n\<rparr>)) (\<lambda>ob. Inr (ob, level))
            else Inr (ob, level\<lparr>lv_head := n\<rparr>)) (\<lambda>(ob, level).
     rbind (if n \<noteq> kInvalidSlot then
              rbind (slot_upd ob n (\<lambda>s. s\<lparr>sl_prev := p\<rparr>)) (\<lambda>ob. Inr (ob, level))
            else Inr (ob, level\<lparr>lv_tail := p\<rparr>)) (\<lambda>(ob, level).
     rbind (slot_upd ob slot (\<lambda>s. s\<lparr>sl_prev := kInvalidSlot, sl_next := kInvalidSlot\<rparr>)) (\<lambda>ob.
     Inr (ob, level)))))"

section \<open>Levels of a side\<close>

definition side_lt :: "side \<Rightarrow> price \<Rightarrow> price \<Rightarrow> bool" where
  "side_lt s = (case s of Buy \<Rightarrow> (\<lambda>a b. b < a) | Sell \<Rightarrow> (<))"

definition side_levels :: "side \<Rightarrow> symbol_book \<Rightarrow> levels" where
  "side_levels s b = (case s of Buy \<Rightarrow> bids b | Sell \<Rightarrow> asks b)"

definition set_side_levels :: "side \<Rightarrow> levels \<Rightarrow> symbol_book \<Rightarrow> symbol_book" where
  "set_side_levels s ls b = (case s of Buy \<Rightarrow> b\<lparr>bids := ls\<rparr> | Sell \<Rightarrow> b\<lparr>asks := ls\<rparr>)"

text \<open>\<open>books_.at(symbol)\<close>, and the level of an order through \<open>at\<close>; writing a level back.\<close>

definition book_at :: "order_book \<Rightarrow> symbol \<Rightarrow> symbol_book res" where
  "book_at ob sy = (case map_find (books ob) sy of
     None \<Rightarrow> Inl (OutOfRange ''map::at'') | Some b \<Rightarrow> Inr b)"

definition level_at :: "order_book \<Rightarrow> order \<Rightarrow> price_level res" where
  "level_at ob ord =
     rbind (book_at ob (ord_symbol ord)) (\<lambda>b.
     case map_find (side_levels (ord_side ord) b) (ord_price ord) of
       None \<Rightarrow> Inl (OutOfRange ''map::at'') | Some level \<Rightarrow> Inr level)"

definition get_book :: "order_book \<Rightarrow> symbol \<Rightarrow> symbol_book" where
  "get_book ob sy = (case map_find (books ob) sy of None \<Rightarrow> default_book | Some b \<Rightarrow> b)"

definition store_levels :: "order_book \<Rightarrow> symbol \<Rightarrow> side \<Rightarrow> levels \<Rightarrow> order_book" where
  "store_levels ob sy s ls =
     ob\<lparr>books := map_put (<) sy (set_side_levels s ls (get_book ob sy)) (books ob)\<rparr>"

definition store_level :: "order_book \<Rightarrow> order \<Rightarrow> price_level \<Rightarrow> order_book" where
  "store_level ob ord level =
     store_levels ob (ord_symbol ord) (ord_side ord)
       (map_put (side_lt (ord_side ord)) (ord_price ord) level
          (side_levels (ord_side ord) (get_book ob (ord_symbol ord))))"

definition book_empty :: "symbol_book \<Rightarrow> bool" where
  "book_empty b \<longleftrightarrow> bids b = [] \<and> asks b = []"

definition drop_empty_book :: "order_book \<Rightarrow> symbol \<Rightarrow> order_book" where
  "drop_empty_book ob sy =
     (if book_empty (get_book ob sy) then ob\<lparr>books := map_erase sy (books ob)\<rparr> else ob)"

section \<open>Operations\<close>

text \<open>The lambda \<open>add_to\<close> of \<open>add\<close>.\<close>

definition add_to :: "order_book \<Rightarrow> levels \<Rightarrow> order \<Rightarrow> slot_index \<Rightarrow> (bool \<times> order_book \<times> levels) res" where
  "add_to ob ls ord slot =
     (let lt = side_lt (ord_side ord);
          (ls, inserted) = try_emplace lt (ord_price ord) default_level ls
      in case map_find ls (ord_price ord) of
           None \<Rightarrow> Inl (Undefined ''try_emplace'')
         | Some level \<Rightarrow>
             if max_u32 - lv_total level < ord_quantity ord
             then Inr (False, ob, if inserted then map_erase (ord_price ord) ls else ls)
             else
               rbind (link_at_tail ob (level\<lparr>lv_total := lv_total level + ord_quantity ord\<rparr>) slot) (\<lambda>(ob, level).
               Inr (True, ob, map_put lt (ord_price ord) level ls)))"

definition book_add :: "order_book \<Rightarrow> add_event \<Rightarrow> (bool \<times> order_book) res" where
  "book_add ob event =
     (let ord = add_order event; sy = ord_symbol ord; sd = ord_side ord in
      if ord_id ord = 0 \<or> ord_quantity ord = 0 then Inr (False, ob)
      else
        rbind (index_find (index ob) (ord_id ord)) (\<lambda>found.
        if found \<noteq> None then Inr (False, ob)
        else
          rbind (allocate_slot ob) (\<lambda>(slot, ob).
          if slot = kInvalidSlot then Inr (False, ob)
          else
            rbind (slot_upd ob slot (\<lambda>s. s\<lparr>sl_order := ord\<rparr>)) (\<lambda>ob.
            rbind (index_insert (index ob) (ord_id ord) slot) (\<lambda>(ok, idx).
            if \<not> ok then rbind (release_slot (ob\<lparr>index := idx\<rparr>) slot) (\<lambda>ob. Inr (False, ob))
            else
              rbind (add_to (ob\<lparr>index := idx\<rparr>) (side_levels sd (get_book ob sy)) ord slot) (\<lambda>(added, ob, ls).
              let ob = store_levels ob sy sd ls in
              if added then Inr (True, ob)
              else
                let ob = drop_empty_book ob sy in
                rbind (index_erase (index ob) (ord_id ord)) (\<lambda>(_, idx).
                rbind (release_slot (ob\<lparr>index := idx\<rparr>) slot) (\<lambda>ob. Inr (False, ob)))))))))"

definition erase_empty_level :: "order_book \<Rightarrow> order \<Rightarrow> order_book" where
  "erase_empty_level ob ord =
     (let sy = ord_symbol ord; sd = ord_side ord in
      case map_find (books ob) sy of
        None \<Rightarrow> ob
      | Some book \<Rightarrow>
          let ls = side_levels sd book;
              ob = (case map_find ls (ord_price ord) of
                      None \<Rightarrow> ob
                    | Some level \<Rightarrow>
                        if lv_head level = kInvalidSlot
                        then store_levels ob sy sd (map_erase (ord_price ord) ls) else ob)
          in drop_empty_book ob sy)"

definition remove_order :: "order_book \<Rightarrow> order_id \<Rightarrow> (bool \<times> order_book) res" where
  "remove_order ob oid =
     rbind (index_find (index ob) oid) (\<lambda>slot_opt.
     case slot_opt of
       None \<Rightarrow> Inr (False, ob)
     | Some idx \<Rightarrow>
         rbind (slot_at ob idx) (\<lambda>s.
         let ord = sl_order s in
         rbind (level_at ob ord) (\<lambda>level.
         rbind (unlink ob (level\<lparr>lv_total := lv_total level - ord_quantity ord\<rparr>) idx) (\<lambda>(ob, level).
         let ob = store_level ob ord level in
         rbind (index_erase (index ob) oid) (\<lambda>(_, ix).
         rbind (release_slot (ob\<lparr>index := ix\<rparr>) idx) (\<lambda>ob.
         Inr (True, erase_empty_level ob ord)))))))"

text \<open>\<open>execute\<close> and \<open>cancel\<close> have the same body: take shares off an order.\<close>

definition reduce_order :: "order_book \<Rightarrow> order_id \<Rightarrow> quantity \<Rightarrow> (bool \<times> order_book) res" where
  "reduce_order ob oid shares =
     rbind (index_find (index ob) oid) (\<lambda>slot_opt.
     case slot_opt of
       None \<Rightarrow> Inr (False, ob)
     | Some idx \<Rightarrow>
         if shares = 0 then Inr (False, ob)
         else
           rbind (slot_at ob idx) (\<lambda>slot.
           let ord = sl_order slot in
           if shares > ord_quantity ord then Inr (False, ob)
           else
             rbind (level_at ob ord) (\<lambda>level.
             let ob = store_level ob ord (level\<lparr>lv_total := lv_total level - shares\<rparr>);
                 left = ord_quantity ord - shares
             in rbind (slot_upd ob idx (\<lambda>s. s\<lparr>sl_order := ord\<lparr>ord_quantity := left\<rparr>\<rparr>)) (\<lambda>ob.
                if left = 0 then remove_order ob oid else Inr (True, ob)))))"

definition book_execute :: "order_book \<Rightarrow> execute_event \<Rightarrow> (bool \<times> order_book) res" where
  "book_execute ob event = reduce_order ob (exec_order_id event) (executed_shares event)"

definition book_cancel :: "order_book \<Rightarrow> cancel_event \<Rightarrow> (bool \<times> order_book) res" where
  "book_cancel ob event = reduce_order ob (cancel_order_id event) (canceled_shares event)"

definition book_erase :: "order_book \<Rightarrow> delete_event \<Rightarrow> (bool \<times> order_book) res" where
  "book_erase ob event = remove_order ob (delete_order_id event)"

text \<open>
  The lambda \<open>replace_in\<close> of \<open>replace\<close>: the price stays, or the order moves to another level of
  the same side. The sum \<open>without_old + event.new_quantity\<close> is taken in 64 bits.
\<close>

definition replace_same :: "order_book \<Rightarrow> levels \<Rightarrow> slot_index \<Rightarrow> order \<Rightarrow> replace_event \<Rightarrow> (bool \<times> order_book \<times> levels) res" where
  "replace_same ob ls slot old event =
     (case map_find ls (ord_price old) of
        None \<Rightarrow> Inl (Undefined ''dereferenced end iterator'')
      | Some level \<Rightarrow>
          let without_old = (ucast (lv_total level) :: u64) - ucast (ord_quantity old) in
          if without_old + ucast (new_quantity event) > 0xFFFFFFFF then Inr (False, ob, ls)
          else
            rbind (index_insert (index ob) (new_order_id event) slot) (\<lambda>(ok, idx).
            if \<not> ok then Inr (False, ob\<lparr>index := idx\<rparr>, ls)
            else
              rbind (unlink (ob\<lparr>index := idx\<rparr>) level slot) (\<lambda>(ob, level).
              let level = level\<lparr>lv_total := ucast (without_old + ucast (new_quantity event))\<rparr> in
              rbind (slot_upd ob slot (\<lambda>s. s\<lparr>sl_order := (sl_order s)\<lparr>ord_id := new_order_id event,
                       ord_quantity := new_quantity event\<rparr>\<rparr>)) (\<lambda>ob.
              rbind (link_at_tail ob level slot) (\<lambda>(ob, level).
              rbind (index_erase (index ob) (old_order_id event)) (\<lambda>(_, idx).
              Inr (True, ob\<lparr>index := idx\<rparr>, map_put (side_lt (ord_side old)) (ord_price old) level ls)))))))"

definition replace_move :: "order_book \<Rightarrow> levels \<Rightarrow> slot_index \<Rightarrow> order \<Rightarrow> replace_event \<Rightarrow> (bool \<times> order_book \<times> levels) res" where
  "replace_move ob ls slot old event =
     (let lt = side_lt (ord_side old);
          (ls, inserted) = try_emplace lt (new_price event) default_level ls;
          undo = (if inserted then map_erase (new_price event) ls else ls)
      in case map_find ls (new_price event) of
           None \<Rightarrow> Inl (Undefined ''try_emplace'')
         | Some new_level \<Rightarrow>
             if max_u32 - lv_total new_level < new_quantity event then Inr (False, ob, undo)
             else
               rbind (index_insert (index ob) (new_order_id event) slot) (\<lambda>(ok, idx).
               if \<not> ok then Inr (False, ob\<lparr>index := idx\<rparr>, undo)
               else
                 case map_find ls (ord_price old) of
                   None \<Rightarrow> Inl (Undefined ''dereferenced end iterator'')
                 | Some old_level \<Rightarrow>
                     rbind (unlink (ob\<lparr>index := idx\<rparr>) old_level slot) (\<lambda>(ob, old_level).
                     let old_level = old_level\<lparr>lv_total := lv_total old_level - ord_quantity old\<rparr> in
                     rbind (slot_upd ob slot (\<lambda>s. s\<lparr>sl_order := (sl_order s)\<lparr>ord_id := new_order_id event,
                              ord_quantity := new_quantity event, ord_price := new_price event\<rparr>\<rparr>)) (\<lambda>ob.
                     rbind (link_at_tail ob (new_level\<lparr>lv_total := lv_total new_level + new_quantity event\<rparr>) slot) (\<lambda>(ob, new_level).
                     rbind (index_erase (index ob) (old_order_id event)) (\<lambda>(_, idx).
                     let ls = map_put lt (new_price event) new_level (map_put lt (ord_price old) old_level ls) in
                     Inr (True, ob\<lparr>index := idx\<rparr>,
                       if lv_head old_level = kInvalidSlot then map_erase (ord_price old) ls else ls)))))))"

definition book_replace :: "order_book \<Rightarrow> replace_event \<Rightarrow> (bool \<times> order_book) res" where
  "book_replace ob event =
     rbind (index_find (index ob) (old_order_id event)) (\<lambda>old_slot.
     case old_slot of
       None \<Rightarrow> Inr (False, ob)
     | Some slot \<Rightarrow>
         if new_order_id event = 0 \<or> new_quantity event = 0 then Inr (False, ob)
         else
           rbind (index_find (index ob) (new_order_id event)) (\<lambda>clash.
           if clash \<noteq> None then Inr (False, ob)
           else
             rbind (slot_at ob slot) (\<lambda>s.
             let old = sl_order s in
             rbind (book_at ob (ord_symbol old)) (\<lambda>symbol_book.
             let ls = side_levels (ord_side old) symbol_book in
             rbind (if ord_price old = new_price event then replace_same ob ls slot old event
                    else replace_move ob ls slot old event) (\<lambda>(ok, ob, ls).
             Inr (ok, store_levels ob (ord_symbol old) (ord_side old) ls))))))"

fun book_apply :: "order_book \<Rightarrow> market_event \<Rightarrow> (bool \<times> order_book) res" where
  "book_apply ob (AddEvent e) = book_add ob e"
| "book_apply ob (ExecuteEvent e) = book_execute ob e"
| "book_apply ob (CancelEvent e) = book_cancel ob e"
| "book_apply ob (DeleteEvent e) = book_erase ob e"
| "book_apply ob (ReplaceEvent e) = book_replace ob e"

section \<open>Queries\<close>

definition book_find :: "order_book \<Rightarrow> order_id \<Rightarrow> order option res" where
  "book_find ob oid =
     rbind (index_find (index ob) oid) (\<lambda>slot.
     case slot of None \<Rightarrow> Inr None | Some i \<Rightarrow> rbind (slot_at ob i) (\<lambda>s. Inr (Some (sl_order s))))"

definition best_bid :: "order_book \<Rightarrow> symbol \<Rightarrow> price option" where
  "best_bid ob sy = (case map_find (books ob) sy of
     None \<Rightarrow> None
   | Some b \<Rightarrow> (case bids b of [] \<Rightarrow> None | (p, _) # _ \<Rightarrow> Some p))"

definition best_ask :: "order_book \<Rightarrow> symbol \<Rightarrow> price option" where
  "best_ask ob sy = (case map_find (books ob) sy of
     None \<Rightarrow> None
   | Some b \<Rightarrow> (case asks b of [] \<Rightarrow> None | (p, _) # _ \<Rightarrow> Some p))"

definition live_order_count :: "order_book \<Rightarrow> nat" where
  "live_order_count ob = idx_size (index ob)"

definition max_orders :: "order_book \<Rightarrow> nat" where
  "max_orders ob = length (slots ob)"

text \<open>
  The walk along a level's queue. A cyclic queue would never end: that is the value None, and that
  it does not occur is a theorem.
\<close>

partial_function (option) walk :: "slot list \<Rightarrow> slot_index \<Rightarrow> order list res option" where
  "walk ss slot =
     (if slot = kInvalidSlot then Some (Inr [])
      else if unat slot < length ss then
        Option.bind (walk ss (sl_next (ss ! unat slot))) (\<lambda>r.
        Some (rbind r (\<lambda>os. Inr (sl_order (ss ! unat slot) # os))))
      else Some (Inl (Undefined ''index out of range'')))"

fun obind :: "'a res option \<Rightarrow> ('a \<Rightarrow> 'b res option) \<Rightarrow> 'b res option" where
  "obind None f = None"
| "obind (Some (Inl e)) f = Some (Inl e)"
| "obind (Some (Inr x)) f = f x"

fun snapshots :: "slot list \<Rightarrow> levels \<Rightarrow> level_snapshot list res option" where
  "snapshots ss [] = Some (Inr [])"
| "snapshots ss ((p, level) # ls) =
     obind (walk ss (lv_head level)) (\<lambda>os.
     obind (snapshots ss ls) (\<lambda>out.
     Some (Inr (\<lparr>snap_price = p, snap_total = lv_total level, fifo_order_ids = map ord_id os\<rparr> # out))))"

definition bid_levels :: "order_book \<Rightarrow> symbol \<Rightarrow> level_snapshot list res option" where
  "bid_levels ob sy = (case map_find (books ob) sy of
     None \<Rightarrow> Some (Inr []) | Some b \<Rightarrow> snapshots (slots ob) (bids b))"

definition ask_levels :: "order_book \<Rightarrow> symbol \<Rightarrow> level_snapshot list res option" where
  "ask_levels ob sy = (case map_find (books ob) sy of
     None \<Rightarrow> Some (Inr []) | Some b \<Rightarrow> snapshots (slots ob) (asks b))"

definition hash_mix :: "u64 \<Rightarrow> u64 \<Rightarrow> u64" where
  "hash_mix h v = h XOR (v + 0x9e3779b97f4a7c15 + push_bit 6 h + drop_bit 2 h)"

definition hash_orders :: "order list \<Rightarrow> u64 \<Rightarrow> u64" where
  "hash_orders os h = foldl (\<lambda>h ord. hash_mix (hash_mix h (ord_id ord)) (ucast (ord_quantity ord))) h os"

fun hash_level_list :: "slot list \<Rightarrow> levels \<Rightarrow> u64 \<Rightarrow> u64 res option" where
  "hash_level_list ss [] h = Some (Inr h)"
| "hash_level_list ss ((p, level) # ls) h =
     (let h = hash_mix h (ucast p); h = hash_mix h (ucast (lv_total level)) in
      obind (walk ss (lv_head level)) (\<lambda>os.
      hash_level_list ss ls (hash_mix (hash_orders os h) (ucast kInvalidSlot))))"

definition hash_levels :: "slot list \<Rightarrow> levels \<Rightarrow> side \<Rightarrow> u64 \<Rightarrow> u64 res option" where
  "hash_levels ss ls s h =
     (let h = hash_mix h (case s of Buy \<Rightarrow> 0 | Sell \<Rightarrow> 1); h = hash_mix h (of_nat (length ls))
      in hash_level_list ss ls h)"

definition hash_symbol :: "symbol \<Rightarrow> u64 \<Rightarrow> u64" where
  "hash_symbol sy h = foldl (\<lambda>h c. hash_mix h (ucast c)) h (sym_bytes sy)"

fun hash_books :: "slot list \<Rightarrow> (symbol, symbol_book) std_map \<Rightarrow> u64 \<Rightarrow> u64 res option" where
  "hash_books ss [] h = Some (Inr h)"
| "hash_books ss ((sy, b) # bs) h =
     obind (hash_levels ss (bids b) Buy (hash_symbol sy h)) (\<lambda>h.
     obind (hash_levels ss (asks b) Sell h) (\<lambda>h.
     hash_books ss bs h))"

definition state_hash :: "order_book \<Rightarrow> u64 res option" where
  "state_hash ob =
     hash_books (slots ob) (books ob) (hash_mix 0xcbf29ce484222325 (of_nat (length (books ob))))"

end
