(* ===== verification/Book_Queues.thy ===== *)
theory Book_Queues
  imports Order_Book
begin

text \<open>
  The pointer structures of the order book's arena: doubly linked first-in-first-out queues and
  the free list, both threaded through the slots by index. What \<open>link_at_tail\<close>, \<open>unlink\<close>,
  \<open>allocate_slot\<close> and \<open>release_slot\<close> do to them is stated once here, as facts on lists of slot
  indices; the refinement proof of the book rests on these facts only.
\<close>

section \<open>Slots\<close>

definition sat :: "slot list \<Rightarrow> slot_index \<Rightarrow> slot" where
  "sat ss i = ss ! unat i"

definition supd :: "slot list \<Rightarrow> slot_index \<Rightarrow> (slot \<Rightarrow> slot) \<Rightarrow> slot list" where
  "supd ss i f = ss[unat i := f (sat ss i)]"

definition arena :: "slot list \<Rightarrow> slot_index set" where
  "arena ss = {i. unat i < length ss}"

lemma length_supd [simp]: "length (supd ss i f) = length ss"
  by (simp add: supd_def)

lemma arena_supd [simp]: "arena (supd ss i f) = arena ss"
  by (simp add: arena_def)

lemma sat_supd: "i \<in> arena ss \<Longrightarrow> sat (supd ss i f) j = (if j = i then f (sat ss i) else sat ss j)"
  by (simp add: sat_def supd_def arena_def nth_list_update word_unat_eq_iff)

lemma slot_at_arena [simp]: "i \<in> arena (slots ob) \<Longrightarrow> slot_at ob i = Inr (sat (slots ob) i)"
  by (simp add: slot_at_def sat_def arena_def)

lemma slot_upd_arena [simp]: "i \<in> arena (slots ob) \<Longrightarrow> slot_upd ob i f = Inr (ob\<lparr>slots := supd (slots ob) i f\<rparr>)"
  by (simp add: slot_upd_def) (simp add: arena_def supd_def)

lemma arena_valid: "length ss \<le> unat kInvalidSlot \<Longrightarrow> i \<in> arena ss \<Longrightarrow> i \<noteq> kInvalidSlot"
  by (auto simp: arena_def)

section \<open>Queues\<close>

text \<open>\<open>lseg ss p xs n\<close>: the slots \<open>xs\<close> are linked in this order, after \<open>p\<close> and before \<open>n\<close>.\<close>

fun lseg :: "slot list \<Rightarrow> slot_index \<Rightarrow> slot_index list \<Rightarrow> slot_index \<Rightarrow> bool" where
  "lseg ss p [] n = True"
| "lseg ss p (x # xs) n \<longleftrightarrow>
     sl_prev (sat ss x) = p \<and> sl_next (sat ss x) = hd (xs @ [n]) \<and> lseg ss x xs n"

abbreviation queue_in :: "slot list \<Rightarrow> slot_index list \<Rightarrow> bool" where
  "queue_in ss c \<equiv> lseg ss kInvalidSlot c kInvalidSlot"

lemma lseg_append:
  "lseg ss p (xs @ ys) n \<longleftrightarrow> lseg ss p xs (hd (ys @ [n])) \<and> lseg ss (last (p # xs)) ys n"
  by (induction xs arbitrary: p) (auto simp: hd_append)

lemma lseg_cong:
  "(\<And>x. x \<in> set xs \<Longrightarrow> sl_prev (sat ss x) = sl_prev (sat ss' x) \<and> sl_next (sat ss x) = sl_next (sat ss' x)) \<Longrightarrow>
   lseg ss p xs n = lseg ss' p xs n"
  by (induction xs arbitrary: p) auto

lemma lseg_set_next:
  assumes "lseg ss p (ys @ [t]) m" and "t \<notin> set ys" and "t \<in> arena ss"
  shows "lseg (supd ss t (\<lambda>s. s\<lparr>sl_next := n\<rparr>)) p (ys @ [t]) n"
proof -
  have "lseg (supd ss t (\<lambda>s. s\<lparr>sl_next := n\<rparr>)) p ys t = lseg ss p ys t"
    using assms(2,3) by (intro lseg_cong) (auto simp: sat_supd)
  with assms(1,3) show ?thesis by (simp add: lseg_append sat_supd)
qed

lemma lseg_set_prev:
  assumes "lseg ss p (z # zs) n" and "z \<notin> set zs" and "z \<in> arena ss"
  shows "lseg (supd ss z (\<lambda>s. s\<lparr>sl_prev := q\<rparr>)) q (z # zs) n"
proof -
  have "lseg (supd ss z (\<lambda>s. s\<lparr>sl_prev := q\<rparr>)) z zs n = lseg ss z zs n"
    using assms(2,3) by (intro lseg_cong) (auto simp: sat_supd)
  with assms(1,3) show ?thesis by (simp add: sat_supd)
qed

text \<open>The slots after linking \<open>i\<close> behind the queue \<open>c\<close>.\<close>

definition linked :: "slot list \<Rightarrow> slot_index list \<Rightarrow> slot_index \<Rightarrow> slot list" where
  "linked ss c i =
     (let ss = supd ss i (\<lambda>s. s\<lparr>sl_prev := last (kInvalidSlot # c), sl_next := kInvalidSlot\<rparr>)
      in if c = [] then ss else supd ss (last c) (\<lambda>s. s\<lparr>sl_next := i\<rparr>))"

lemma arena_linked [simp]: "arena (linked ss c i) = arena ss" "length (linked ss c i) = length ss"
  by (simp_all add: linked_def Let_def)

lemma linked_slot:
  assumes "set c \<subseteq> arena ss" and "i \<in> arena ss"
  shows "sl_order (sat (linked ss c i) j) = sl_order (sat ss j)"
    and "sl_next_free (sat (linked ss c i) j) = sl_next_free (sat ss j)"
    and "j \<notin> set c \<Longrightarrow> j \<noteq> i \<Longrightarrow> sat (linked ss c i) j = sat ss j"
  using assms by (cases c rule: rev_cases; auto simp: linked_def sat_supd Let_def)+

lemma lseg_linked:
  assumes "queue_in ss c" and "distinct (c @ [i])" and "set c \<subseteq> arena ss" and "i \<in> arena ss"
  shows "queue_in (linked ss c i) (c @ [i])"
proof (cases c rule: rev_cases)
  case Nil
  with assms show ?thesis by (simp add: linked_def sat_supd)
next
  case (snoc ys t)
  let ?ss = "supd ss i (\<lambda>s. s\<lparr>sl_prev := t, sl_next := kInvalidSlot\<rparr>)"
  have "queue_in ?ss (ys @ [t]) = queue_in ss (ys @ [t])"
    using assms snoc by (intro lseg_cong) (auto simp: sat_supd)
  with assms snoc have "lseg (supd ?ss t (\<lambda>s. s\<lparr>sl_next := i\<rparr>)) kInvalidSlot (ys @ [t]) i"
    by (intro lseg_set_next) auto
  with assms snoc show ?thesis by (auto simp: linked_def lseg_append sat_supd)
qed

lemma link_at_tail_eq:
  assumes "set c \<subseteq> arena (slots ob)" and "i \<in> arena (slots ob)" and "length (slots ob) \<le> unat kInvalidSlot"
    and "lv_head level = hd (c @ [kInvalidSlot])" and "lv_tail level = last (kInvalidSlot # c)"
  shows "link_at_tail ob level i =
    Inr (ob\<lparr>slots := linked (slots ob) c i\<rparr>, level\<lparr>lv_head := hd (c @ [i]), lv_tail := i\<rparr>)"
proof (cases c rule: rev_cases)
  case Nil
  with assms show ?thesis by (simp add: link_at_tail_def linked_def)
next
  case (snoc ys t)
  then have t: "t \<in> arena (slots ob)" using assms(1) by simp
  then have "t \<noteq> kInvalidSlot" using assms(3) arena_valid by blast
  with snoc t assms show ?thesis
    by (cases level) (auto simp: link_at_tail_def linked_def hd_append)
qed

text \<open>The slots after unlinking \<open>i\<close> from the queue \<open>ys @ i # zs\<close>.\<close>

definition unlinked :: "slot list \<Rightarrow> slot_index list \<Rightarrow> slot_index \<Rightarrow> slot_index list \<Rightarrow> slot list" where
  "unlinked ss ys i zs =
     (let p = last (kInvalidSlot # ys); n = hd (zs @ [kInvalidSlot]);
          ss = (if ys = [] then ss else supd ss p (\<lambda>s. s\<lparr>sl_next := n\<rparr>));
          ss = (if zs = [] then ss else supd ss n (\<lambda>s. s\<lparr>sl_prev := p\<rparr>))
      in supd ss i (\<lambda>s. s\<lparr>sl_prev := kInvalidSlot, sl_next := kInvalidSlot\<rparr>))"

lemma arena_unlinked [simp]: "arena (unlinked ss ys i zs) = arena ss" "length (unlinked ss ys i zs) = length ss"
  by (simp_all add: unlinked_def Let_def)

lemma unlinked_slot:
  assumes "set (ys @ i # zs) \<subseteq> arena ss"
  shows "sl_order (sat (unlinked ss ys i zs) j) = sl_order (sat ss j)"
    and "sl_next_free (sat (unlinked ss ys i zs) j) = sl_next_free (sat ss j)"
    and "j \<notin> set (ys @ i # zs) \<Longrightarrow> sat (unlinked ss ys i zs) j = sat ss j"
  using assms by (cases ys rule: rev_cases; cases zs; auto simp: unlinked_def sat_supd Let_def)+

lemma lseg_unlinked:
  assumes q: "queue_in ss (ys @ i # zs)" and d: "distinct (ys @ i # zs)" and a: "set (ys @ i # zs) \<subseteq> arena ss"
  shows "queue_in (unlinked ss ys i zs) (ys @ zs)"
proof -
  define p n where "p = last (kInvalidSlot # ys)" and "n = hd (zs @ [kInvalidSlot])"
  define ss1 where "ss1 = (if ys = [] then ss else supd ss p (\<lambda>s. s\<lparr>sl_next := n\<rparr>))"
  define ss2 where "ss2 = (if zs = [] then ss1 else supd ss1 n (\<lambda>s. s\<lparr>sl_prev := p\<rparr>))"
  have q': "lseg ss kInvalidSlot ys i" "lseg ss i zs kInvalidSlot" using q by (simp_all add: lseg_append)
  have 1: "lseg ss1 kInvalidSlot ys n"
    using q'(1) d a by (cases ys rule: rev_cases) (auto simp: ss1_def p_def intro!: lseg_set_next)
  have "lseg ss1 i zs kInvalidSlot = lseg ss i zs kInvalidSlot"
    using d a by (cases ys rule: rev_cases; intro lseg_cong) (auto simp: ss1_def p_def sat_supd)
  with q'(2) have q1: "lseg ss1 i zs kInvalidSlot" by simp
  have 2: "lseg ss2 p zs kInvalidSlot"
  proof (cases zs)
    case (Cons z zs')
    then have "z \<in> arena ss1" "z \<notin> set zs'" using a d by (auto simp: ss1_def)
    with Cons q1 lseg_set_prev [of ss1 i z zs' kInvalidSlot p] show ?thesis by (simp add: ss2_def n_def)
  qed simp
  have "lseg ss2 kInvalidSlot ys n = lseg ss1 kInvalidSlot ys n"
  proof (cases zs)
    case (Cons z zs')
    then have "z \<in> arena ss1" "z \<notin> set ys" using a d by (auto simp: ss1_def)
    with Cons show ?thesis by (intro lseg_cong) (auto simp: ss2_def n_def sat_supd)
  qed (simp add: ss2_def)
  with 1 2 have q2: "queue_in ss2 (ys @ zs)"
    by (simp add: lseg_append n_def p_def)
  have "unlinked ss ys i zs = supd ss2 i (\<lambda>s. s\<lparr>sl_prev := kInvalidSlot, sl_next := kInvalidSlot\<rparr>)"
    by (simp add: unlinked_def ss2_def ss1_def p_def n_def Let_def)
  moreover have "i \<in> arena ss2" using a by (simp add: ss2_def ss1_def)
  ultimately have "queue_in (unlinked ss ys i zs) (ys @ zs) = queue_in ss2 (ys @ zs)"
    using d by (intro lseg_cong) (auto simp: sat_supd)
  with q2 show ?thesis by simp
qed

lemma unlink_eq:
  assumes q: "queue_in (slots ob) (ys @ i # zs)" and d: "distinct (ys @ i # zs)"
    and a: "set (ys @ i # zs) \<subseteq> arena (slots ob)" and v: "length (slots ob) \<le> unat kInvalidSlot"
    and h: "lv_head level = hd (ys @ [i])" and t: "lv_tail level = last (i # zs)"
  shows "unlink ob level i =
    Inr (ob\<lparr>slots := unlinked (slots ob) ys i zs\<rparr>,
         level\<lparr>lv_head := hd (ys @ zs @ [kInvalidSlot]), lv_tail := last (kInvalidSlot # ys @ zs)\<rparr>)"
proof -
  have s: "sl_prev (sat (slots ob) i) = last (kInvalidSlot # ys)"
    "sl_next (sat (slots ob) i) = hd (zs @ [kInvalidSlot])"
    using q by (simp_all add: lseg_append)
  have iv: "j \<noteq> kInvalidSlot" if "j \<in> set (ys @ i # zs)" for j
    using that a v arena_valid by blast
  have ia: "i \<in> arena (slots ob)" using a by simp
  have pa: "ys \<noteq> [] \<Longrightarrow> last ys \<in> arena (slots ob)" "ys \<noteq> [] \<Longrightarrow> last ys \<noteq> kInvalidSlot"
    using a iv [of "last ys"] by (auto intro: last_in_set)
  have na: "zs \<noteq> [] \<Longrightarrow> hd zs \<in> arena (slots ob)" "zs \<noteq> [] \<Longrightarrow> hd zs \<noteq> kInvalidSlot"
    using a iv [of "hd zs"] by (auto intro: hd_in_set)
  show ?thesis
    using h t s
    by (cases level; cases "ys = []"; cases "zs = []")
      (simp_all add: unlink_def ia pa na unlinked_def Let_def hd_append)
qed

section \<open>The free list\<close>

fun fseg :: "slot list \<Rightarrow> slot_index list \<Rightarrow> slot_index \<Rightarrow> bool" where
  "fseg ss [] h \<longleftrightarrow> h = kInvalidSlot"
| "fseg ss (x # xs) h \<longleftrightarrow> h = x \<and> fseg ss xs (sl_next_free (sat ss x))"

lemma fseg_cong:
  "(\<And>x. x \<in> set xs \<Longrightarrow> sl_next_free (sat ss x) = sl_next_free (sat ss' x)) \<Longrightarrow> fseg ss xs h = fseg ss' xs h"
  by (induction xs arbitrary: h) auto

text \<open>What allocation and release do to the slots and the free list.\<close>

definition allocated :: "slot list \<Rightarrow> slot_index \<Rightarrow> slot list" where
  "allocated ss i = supd ss i (\<lambda>s. s\<lparr>sl_next_free := kInvalidSlot, sl_alive := True\<rparr>)"

definition released :: "slot list \<Rightarrow> slot_index \<Rightarrow> slot_index \<Rightarrow> slot list" where
  "released ss i h = supd ss i (\<lambda>_. default_slot\<lparr>sl_next_free := h\<rparr>)"

lemma allocate_none:
  assumes "fseg (slots ob) [] (free_head ob)"
  shows "allocate_slot ob = Inr (kInvalidSlot, ob)"
  using assms by (simp add: allocate_slot_def)

lemma allocate_some:
  assumes "fseg (slots ob) (i # F) (free_head ob)" and "i \<in> arena (slots ob)"
    and "length (slots ob) \<le> unat kInvalidSlot"
  shows "\<exists>h. allocate_slot ob = Inr (i, ob\<lparr>slots := allocated (slots ob) i, free_head := h\<rparr>) \<and> fseg (slots ob) F h"
  using assms arena_valid [of "slots ob" i]
  by (intro exI [of _ "sl_next_free (sat (slots ob) i)"])
    (cases ob, auto simp: allocate_slot_def Let_def allocated_def)

lemma release_eq:
  assumes "i \<in> arena (slots ob)"
  shows "release_slot ob i = Inr (ob\<lparr>slots := released (slots ob) i (free_head ob), free_head := i\<rparr>)"
  using assms by (simp add: release_slot_def released_def)

lemma fseg_released:
  assumes "fseg ss F h" and "i \<in> arena ss" and "i \<notin> set F"
  shows "fseg (released ss i h) (i # F) i"
proof -
  have "fseg (released ss i h) F h = fseg ss F h"
    using assms by (intro fseg_cong) (auto simp: released_def sat_supd)
  with assms show ?thesis by (simp add: released_def sat_supd)
qed

section \<open>Walking a queue\<close>

lemma walk_queue:
  assumes "length ss \<le> unat kInvalidSlot"
  shows "lseg ss p c kInvalidSlot \<Longrightarrow> set c \<subseteq> arena ss \<Longrightarrow>
    walk ss (hd (c @ [kInvalidSlot])) = Some (Inr (map (\<lambda>i. sl_order (sat ss i)) c))"
proof (induction c arbitrary: p)
  case Nil
  then show ?case by (subst walk.simps) simp
next
  case (Cons x c)
  then have "x \<noteq> kInvalidSlot" "unat x < length ss" using arena_valid [OF assms] by (auto simp: arena_def)
  moreover have "sl_next (ss ! unat x) = hd (c @ [kInvalidSlot])" using Cons.prems by (simp add: sat_def)
  moreover have "walk ss (hd (c @ [kInvalidSlot])) = Some (Inr (map (\<lambda>i. sl_order (sat ss i)) c))"
    using Cons by auto
  ultimately show ?case
    by (subst walk.simps) (simp add: sat_def)
qed

end
