(* ===== verification/Book_Spec.thy ===== *)
theory Book_Spec
  imports Types
begin

text \<open>
  What the order book promises, without arena, index, queues and maps: the live orders in time
  priority, oldest first. An operation appends, removes or changes an order of this list; a
  replaced order loses its priority. An operation is refused when it would make the shares at one
  price exceed 32 bits, or the number of orders exceed the capacity.
\<close>

type_synonym level_key = "symbol \<times> side \<times> price"

definition order_key :: "order \<Rightarrow> level_key" where
  "order_key ord = (ord_symbol ord, ord_side ord, ord_price ord)"

definition at_level :: "order list \<Rightarrow> level_key \<Rightarrow> order list" where
  "at_level os k = filter (\<lambda>ord. order_key ord = k) os"

definition shares_of :: "order list \<Rightarrow> nat" where
  "shares_of os = sum_list (map (\<lambda>ord. unat (ord_quantity ord)) os)"

definition find_order :: "order list \<Rightarrow> order_id \<Rightarrow> order option" where
  "find_order os oid = List.find (\<lambda>ord. ord_id ord = oid) os"

definition without :: "order list \<Rightarrow> order_id \<Rightarrow> order list" where
  "without os oid = filter (\<lambda>ord. ord_id ord \<noteq> oid) os"

definition spec_add :: "nat \<Rightarrow> order list \<Rightarrow> order \<Rightarrow> bool \<times> order list" where
  "spec_add cap os ord =
     (if ord_id ord = 0 \<or> ord_quantity ord = 0 \<or> find_order os (ord_id ord) \<noteq> None \<or> cap \<le> length os \<or>
         shares_of (at_level os (order_key ord)) + unat (ord_quantity ord) > 0xFFFFFFFF
      then (False, os) else (True, os @ [ord]))"

definition spec_delete :: "order list \<Rightarrow> order_id \<Rightarrow> bool \<times> order list" where
  "spec_delete os oid = (case find_order os oid of None \<Rightarrow> (False, os) | Some _ \<Rightarrow> (True, without os oid))"

definition spec_reduce :: "order list \<Rightarrow> order_id \<Rightarrow> quantity \<Rightarrow> bool \<times> order list" where
  "spec_reduce os oid n =
     (case find_order os oid of
        None \<Rightarrow> (False, os)
      | Some ord \<Rightarrow>
          if n = 0 \<or> n > ord_quantity ord then (False, os)
          else if n = ord_quantity ord then (True, without os oid)
          else (True, map (\<lambda>x. if ord_id x = oid then x\<lparr>ord_quantity := ord_quantity x - n\<rparr> else x) os))"

definition spec_replace :: "order list \<Rightarrow> replace_event \<Rightarrow> bool \<times> order list" where
  "spec_replace os e =
     (case find_order os (old_order_id e) of
        None \<Rightarrow> (False, os)
      | Some old \<Rightarrow>
          let ord = old\<lparr>ord_id := new_order_id e, ord_quantity := new_quantity e, ord_price := new_price e\<rparr>;
              rest = without os (old_order_id e)
          in if new_order_id e = 0 \<or> new_quantity e = 0 \<or> find_order os (new_order_id e) \<noteq> None \<or>
                shares_of (at_level rest (order_key ord)) + unat (new_quantity e) > 0xFFFFFFFF
             then (False, os) else (True, rest @ [ord]))"

fun spec_apply :: "nat \<Rightarrow> order list \<Rightarrow> market_event \<Rightarrow> bool \<times> order list" where
  "spec_apply cap os (AddEvent e) = spec_add cap os (add_order e)"
| "spec_apply cap os (ExecuteEvent e) = spec_reduce os (exec_order_id e) (executed_shares e)"
| "spec_apply cap os (CancelEvent e) = spec_reduce os (cancel_order_id e) (canceled_shares e)"
| "spec_apply cap os (DeleteEvent e) = spec_delete os (delete_order_id e)"
| "spec_apply cap os (ReplaceEvent e) = spec_replace os e"

section \<open>Views\<close>

text \<open>The distinct prices of a side in priority order, the best one, and the levels.\<close>

definition side_orders :: "order list \<Rightarrow> symbol \<Rightarrow> side \<Rightarrow> order list" where
  "side_orders os sy sd = filter (\<lambda>ord. ord_symbol ord = sy \<and> ord_side ord = sd) os"

definition side_prices :: "order list \<Rightarrow> symbol \<Rightarrow> side \<Rightarrow> price list" where
  "side_prices os sy sd =
     (let ps = sort (remdups (map ord_price (side_orders os sy sd)))
      in case sd of Buy \<Rightarrow> rev ps | Sell \<Rightarrow> ps)"

definition live_symbols :: "order list \<Rightarrow> symbol list" where
  "live_symbols os = sort (remdups (map ord_symbol os))"

section \<open>The invariant of the specification\<close>

definition orders_ok :: "nat \<Rightarrow> order list \<Rightarrow> bool" where
  "orders_ok cap os \<longleftrightarrow>
     distinct (map ord_id os) \<and> length os \<le> cap \<and>
     (\<forall>ord \<in> set os. ord_id ord \<noteq> 0 \<and> ord_quantity ord \<noteq> 0) \<and>
     (\<forall>k. shares_of (at_level os k) \<le> 0xFFFFFFFF)"

lemma find_order_Some:
  "find_order os oid = Some ord \<Longrightarrow> ord \<in> set os \<and> ord_id ord = oid"
  by (auto simp: find_order_def find_Some_iff)

lemma find_order_None: "find_order os oid = None \<longleftrightarrow> (\<forall>ord \<in> set os. ord_id ord \<noteq> oid)"
  by (auto simp: find_order_def find_None_iff)

lemma find_order_eq:
  "distinct (map ord_id os) \<Longrightarrow> ord \<in> set os \<Longrightarrow> find_order os (ord_id ord) = Some ord"
  unfolding find_order_def by (induction os) auto

lemma shares_append [simp]: "shares_of (xs @ ys) = shares_of xs + shares_of ys"
  by (simp add: shares_of_def)

lemma shares_Cons [simp]: "shares_of (x # xs) = unat (ord_quantity x) + shares_of xs"
  by (simp add: shares_of_def)

lemma shares_Nil [simp]: "shares_of [] = 0"
  by (simp add: shares_of_def)

lemma shares_filter_le: "shares_of (filter P os) \<le> shares_of os"
  by (induction os) auto

lemma at_level_append [simp]: "at_level (xs @ ys) k = at_level xs k @ at_level ys k"
  by (simp add: at_level_def)

lemma at_level_single [simp]: "at_level [ord] k = (if order_key ord = k then [ord] else [])"
  by (simp add: at_level_def)

lemma at_level_without: "at_level (without os oid) k = without (at_level os k) oid"
  by (simp add: at_level_def without_def conj_commute)

lemma shares_without_le: "shares_of (at_level (without os oid) k) \<le> shares_of (at_level os k)"
  unfolding at_level_without by (simp add: without_def shares_filter_le)

lemma orders_ok_mono:
  assumes "orders_ok cap os" and "distinct (map ord_id os')" and "length os' \<le> length os"
    and "\<forall>ord \<in> set os'. ord_id ord \<noteq> 0 \<and> ord_quantity ord \<noteq> 0"
    and "\<And>k. shares_of (at_level os' k) \<le> shares_of (at_level os k)"
  shows "orders_ok cap os'"
  using assms unfolding orders_ok_def by (meson le_trans)

lemma orders_ok_without: "orders_ok cap os \<Longrightarrow> orders_ok cap (without os oid)"
  by (rule orders_ok_mono, assumption)
    (auto simp: shares_without_le, auto simp: without_def orders_ok_def distinct_map_filter)

lemma orders_ok_snoc:
  assumes "orders_ok cap os" and "length os < cap" and "ord_id ord \<noteq> 0" and "ord_quantity ord \<noteq> 0"
    and "find_order os (ord_id ord) = None"
    and "shares_of (at_level os (order_key ord)) + unat (ord_quantity ord) \<le> 0xFFFFFFFF"
  shows "orders_ok cap (os @ [ord])"
  using assms unfolding orders_ok_def find_order_None by auto

lemma order_key_quantity [simp]: "order_key (x\<lparr>ord_quantity := q\<rparr>) = order_key x"
  by (simp add: order_key_def)

lemma shares_map_le:
  assumes "\<And>x. order_key (f x) = order_key x" and "\<And>x. x \<in> set os \<Longrightarrow> ord_quantity (f x) \<le> ord_quantity x"
  shows "shares_of (at_level (map f os) k) \<le> shares_of (at_level os k)"
  using assms by (induction os) (auto simp: at_level_def word_le_nat_alt add_mono)

lemma spec_delete_ok: "orders_ok cap os \<Longrightarrow> orders_ok cap (snd (spec_delete os oid))"
  by (auto simp: spec_delete_def orders_ok_without split: option.splits)

lemma spec_add_ok: "orders_ok cap os \<Longrightarrow> orders_ok cap (snd (spec_add cap os ord))"
  by (auto simp: spec_add_def intro!: orders_ok_snoc)

lemma spec_reduce_ok:
  assumes ok: "orders_ok cap os"
  shows "orders_ok cap (snd (spec_reduce os oid n))"
proof -
  let ?f = "\<lambda>x. if ord_id x = oid then x\<lparr>ord_quantity := ord_quantity x - n\<rparr> else x"
  have "orders_ok cap (map ?f os)" if ord: "find_order os oid = Some ord" "n \<le> ord_quantity ord" "n \<noteq> ord_quantity ord" for ord
  proof -
    have uniq: "x = ord" if "x \<in> set os" "ord_id x = oid" for x
      using that ord(1) ok find_order_eq [of os x] by (simp add: orders_ok_def)
    have ids: "map ord_id (map ?f os) = map ord_id os" by simp
    have "shares_of (at_level (map ?f os) k) \<le> shares_of (at_level os k)" for k
      using uniq ord by (intro shares_map_le) (auto simp: word_sub_le)
    moreover have "\<forall>x \<in> set os. ord_id (?f x) \<noteq> 0 \<and> ord_quantity (?f x) \<noteq> 0"
      using ok uniq ord by (auto simp: orders_ok_def)
    ultimately show ?thesis using ok by (intro orders_ok_mono [OF ok]) (unfold ids, auto simp: orders_ok_def)
  qed
  with ok show ?thesis
    by (auto simp: spec_reduce_def orders_ok_without not_less split: option.splits)
qed

lemma length_without:
  "find_order os oid \<noteq> None \<Longrightarrow> length (without os oid) < length os"
  by (auto simp: find_order_None without_def intro!: length_filter_less)

lemma find_without: "find_order os n = None \<Longrightarrow> find_order (without os oid) n = None"
  by (auto simp: find_order_None without_def)

lemma spec_replace_ok:
  assumes ok: "orders_ok cap os"
  shows "orders_ok cap (snd (spec_replace os e))"
proof (cases "find_order os (old_order_id e)")
  case (Some old)
  have "length (without os (old_order_id e)) < cap"
    using length_without [of os "old_order_id e"] Some ok by (auto simp: orders_ok_def)
  with ok Some show ?thesis
    by (auto simp: spec_replace_def Let_def intro!: orders_ok_snoc orders_ok_without find_without)
qed (simp add: spec_replace_def ok)

lemma spec_apply_ok: "orders_ok cap os \<Longrightarrow> orders_ok cap (snd (spec_apply cap os e))"
  by (cases e) (simp_all add: spec_add_ok spec_delete_ok spec_reduce_ok spec_replace_ok)

end
