(* ===== verification/Book_Levels.thy ===== *)
theory Book_Levels
  imports Order_Book Book_Spec
begin

text \<open>
  The nested ordered maps of the book, symbol to side to price, seen as one map from level keys
  to price levels. Every update the operations make is stated as an update of that map; the
  ordering of the maps and the absence of empty books are kept beside it.
\<close>

interpretation side_order: strict_order "side_lt sd" for sd
  by (cases sd; unfold_locales) (auto simp: side_lt_def)

lemma side_levels_set [simp]: "side_levels s (set_side_levels s' ls b) = (if s = s' then ls else side_levels s b)"
  by (cases s; cases s'; simp add: side_levels_def set_side_levels_def)

lemma book_empty_iff: "book_empty b \<longleftrightarrow> (\<forall>s. side_levels s b = [])"
proof
  assume "\<forall>s. side_levels s b = []"
  from spec [OF this, of Buy] spec [OF this, of Sell] show "book_empty b"
    by (simp add: book_empty_def side_levels_def)
qed (auto simp: book_empty_def side_levels_def split: side.splits)

lemma default_book_levels [simp]: "side_levels s default_book = []"
  by (cases s; simp add: side_levels_def default_book_def)

fun level_map :: "(symbol, symbol_book) std_map \<Rightarrow> level_key \<Rightarrow> price_level option" where
  "level_map bs (sy, sd, p) =
     (case map_find bs sy of None \<Rightarrow> None | Some b \<Rightarrow> map_find (side_levels sd b) p)"

definition books_sorted :: "(symbol, symbol_book) std_map \<Rightarrow> bool" where
  "books_sorted bs \<longleftrightarrow> map_sorted (<) bs \<and> (\<forall>e \<in> set bs. \<forall>sd. map_sorted (side_lt sd) (side_levels sd (snd e)))"

definition books_full :: "(symbol, symbol_book) std_map \<Rightarrow> bool" where
  "books_full bs \<longleftrightarrow> (\<forall>e \<in> set bs. \<not> book_empty (snd e))"

definition books_ok :: "(symbol, symbol_book) std_map \<Rightarrow> bool" where
  "books_ok bs \<longleftrightarrow> books_sorted bs \<and> books_full bs"

lemma get_book_level: "map_of (side_levels sd (get_book ob sy)) p = level_map (books ob) (sy, sd, p)"
  by (simp add: get_book_def split: option.splits)

lemma get_book_sorted:
  "books_sorted (books ob) \<Longrightarrow> map_sorted (side_lt sd) (side_levels sd (get_book ob sy))"
  by (auto simp: get_book_def books_sorted_def split: option.splits dest!: map_of_SomeD)

lemma store_levels_fields [simp]:
  "slots (store_levels ob sy sd ls) = slots ob" "free_head (store_levels ob sy sd ls) = free_head ob"
  "index (store_levels ob sy sd ls) = index ob"
  by (simp_all add: store_levels_def)

lemma drop_empty_book_fields [simp]:
  "slots (drop_empty_book ob sy) = slots ob" "free_head (drop_empty_book ob sy) = free_head ob"
  "index (drop_empty_book ob sy) = index ob"
  by (simp_all add: drop_empty_book_def)

lemma level_map_store:
  "level_map (books (store_levels ob sy sd ls)) (sy', sd', p) =
     (if sy' = sy \<and> sd' = sd then map_of ls p else level_map (books ob) (sy', sd', p))"
  by (auto simp: store_levels_def get_book_def split: option.splits)

text \<open>Writing back a side map that differs from the stored one at one price.\<close>

lemma level_map_store_upd:
  assumes "map_of ls = (map_of (side_levels sd (get_book ob sy)))(p := x)"
  shows "level_map (books (store_levels ob sy sd ls)) = (level_map (books ob))((sy, sd, p) := x)"
proof
  fix k :: level_key
  show "level_map (books (store_levels ob sy sd ls)) k = ((level_map (books ob))((sy, sd, p) := x)) k"
    by (cases k) (auto simp: level_map_store assms get_book_level simp del: level_map.simps)
qed

lemma level_map_store_same:
  assumes "map_of ls = map_of (side_levels sd (get_book ob sy))"
  shows "level_map (books (store_levels ob sy sd ls)) = level_map (books ob)"
proof
  fix k :: level_key
  show "level_map (books (store_levels ob sy sd ls)) k = level_map (books ob) k"
    by (cases k) (auto simp: level_map_store assms get_book_level simp del: level_map.simps)
qed

lemma books_sorted_store:
  assumes "books_sorted (books ob)" and "map_sorted (side_lt sd) ls"
  shows "books_sorted (books (store_levels ob sy sd ls))"
proof -
  let ?b = "set_side_levels sd ls (get_book ob sy)"
  have b: "map_sorted (side_lt s) (side_levels s ?b)" for s
    using assms get_book_sorted by simp
  have "set (books (store_levels ob sy sd ls)) \<subseteq> insert (sy, ?b) (set (books ob))"
    by (simp add: store_levels_def map_put_subset)
  then show ?thesis
    using assms(1) b less_order.sorted_map_put unfolding books_sorted_def
    by (fastforce simp: store_levels_def)
qed

lemma books_full_store:
  assumes "books_full (books ob)" and "\<not> book_empty (set_side_levels sd ls (get_book ob sy))"
  shows "books_full (books (store_levels ob sy sd ls))"
proof -
  have "set (books (store_levels ob sy sd ls)) \<subseteq>
      insert (sy, set_side_levels sd ls (get_book ob sy)) (set (books ob))"
    by (simp add: store_levels_def map_put_subset)
  then show ?thesis using assms unfolding books_full_def by auto
qed

lemma books_ok_store:
  assumes "books_ok (books ob)" and "map_sorted (side_lt sd) ls" and "ls \<noteq> []"
  shows "books_ok (books (store_levels ob sy sd ls))"
proof -
  have "\<not> book_empty (set_side_levels sd ls (get_book ob sy))"
    using assms(3) by (auto simp: book_empty_iff intro!: exI [of _ sd])
  with assms books_sorted_store books_full_store show ?thesis by (simp add: books_ok_def)
qed

text \<open>Dropping the book of a symbol when both its sides are empty.\<close>

lemma level_map_drop [simp]: "level_map (books (drop_empty_book ob sy)) = level_map (books ob)"
proof
  fix k :: level_key
  show "level_map (books (drop_empty_book ob sy)) k = level_map (books ob) k"
    by (cases k) (auto simp: drop_empty_book_def get_book_def book_empty_iff split: option.splits)
qed

lemma books_sorted_map_of:
  "books_sorted bs \<Longrightarrow> (sy, b) \<in> set bs \<Longrightarrow> map_of bs sy = Some b"
  unfolding books_sorted_def using less_order.sorted_distinct by (auto intro: map_of_is_SomeI)

lemma books_ok_drop:
  assumes "books_sorted (books ob)" and "\<forall>e \<in> set (books ob). fst e \<noteq> sy \<longrightarrow> \<not> book_empty (snd e)"
  shows "books_ok (books (drop_empty_book ob sy))"
proof (cases "book_empty (get_book ob sy)")
  case True
  then have d: "books (drop_empty_book ob sy) = map_erase sy (books ob)" by (simp add: drop_empty_book_def)
  have "set (map_erase sy (books ob)) \<subseteq> set (books ob)" by (auto simp: map_erase_def)
  then have "books_sorted (map_erase sy (books ob))"
    using assms(1) less_order.sorted_map_erase unfolding books_sorted_def by blast
  then show ?thesis unfolding d books_ok_def using assms(2) by (auto simp: books_full_def map_erase_def)
next
  case False
  then have d: "books (drop_empty_book ob sy) = books ob" by (simp add: drop_empty_book_def)
  have "\<not> book_empty (snd e)" if "e \<in> set (books ob)" for e
  proof (cases "fst e = sy")
    case True
    then have "map_of (books ob) sy = Some (snd e)" using that assms(1) books_sorted_map_of by force
    then show ?thesis using False by (simp add: get_book_def)
  qed (use that assms(2) in blast)
  then show ?thesis unfolding d books_ok_def using assms(1) by (simp add: books_full_def)
qed

lemma books_ok_store_drop:
  assumes "books_ok (books ob)" and "map_sorted (side_lt sd) ls"
  shows "books_ok (books (drop_empty_book (store_levels ob sy sd ls) sy))"
proof (rule books_ok_drop)
  show "books_sorted (books (store_levels ob sy sd ls))"
    using assms books_sorted_store by (simp add: books_ok_def)
  have "set (books (store_levels ob sy sd ls)) \<subseteq>
      insert (sy, set_side_levels sd ls (get_book ob sy)) (set (books ob))"
    by (simp add: store_levels_def map_put_subset)
  then show "\<forall>e \<in> set (books (store_levels ob sy sd ls)). fst e \<noteq> sy \<longrightarrow> \<not> book_empty (snd e)"
    using assms(1) by (auto simp: books_ok_def books_full_def)
qed

section \<open>Levels of an order\<close>

lemma level_at_map:
  "level_map (books ob) (order_key ord) = Some level \<Longrightarrow> level_at ob ord = Inr level"
  by (auto simp: level_at_def book_at_def order_key_def split: option.splits)

lemma book_at_map:
  "level_map (books ob) (order_key ord) = Some level \<Longrightarrow> book_at ob (ord_symbol ord) = Inr (get_book ob (ord_symbol ord))"
  by (auto simp: book_at_def order_key_def get_book_def split: option.splits)

lemma store_level_fields [simp]:
  "slots (store_level ob ord lv) = slots ob" "free_head (store_level ob ord lv) = free_head ob"
  "index (store_level ob ord lv) = index ob"
  by (simp_all add: store_level_def)

lemma level_map_store_level:
  "level_map (books (store_level ob ord lv)) = (level_map (books ob))(order_key ord \<mapsto> lv)"
  unfolding store_level_def order_key_def by (rule level_map_store_upd) simp

lemma books_ok_store_level: "books_ok (books ob) \<Longrightarrow> books_ok (books (store_level ob ord lv))"
  unfolding store_level_def using get_book_sorted
  by (intro books_ok_store side_order.sorted_map_put) (auto simp: books_ok_def)

lemma erase_empty_level_fields [simp]:
  "slots (erase_empty_level ob ord) = slots ob" "free_head (erase_empty_level ob ord) = free_head ob"
  "index (erase_empty_level ob ord) = index ob"
  by (auto simp: erase_empty_level_def Let_def split: option.splits)

lemma erase_empty_level_map:
  assumes ok: "books_ok (books ob)" and lv: "level_map (books ob) (order_key ord) = Some lv"
  shows "books_ok (books (erase_empty_level ob ord)) \<and>
    level_map (books (erase_empty_level ob ord)) =
      (if lv_head lv = kInvalidSlot then (level_map (books ob))(order_key ord := None) else level_map (books ob))"
proof -
  let ?sy = "ord_symbol ord" and ?sd = "ord_side ord"
  let ?ls = "map_erase (ord_price ord) (side_levels ?sd (get_book ob ?sy))"
  obtain b where b: "map_of (books ob) ?sy = Some b" "map_of (side_levels ?sd b) (ord_price ord) = Some lv"
    using lv by (auto simp: order_key_def split: option.splits)
  then have e: "erase_empty_level ob ord = drop_empty_book
      (if lv_head lv = kInvalidSlot then store_levels ob ?sy ?sd ?ls else ob) ?sy"
    by (simp add: erase_empty_level_def Let_def get_book_def)
  show ?thesis
  proof (cases "lv_head lv = kInvalidSlot")
    case True
    have "map_sorted (side_lt ?sd) ?ls"
      using ok get_book_sorted by (intro side_order.sorted_map_erase) (simp add: books_ok_def)
    then have "books_ok (books (erase_empty_level ob ord))"
      using ok True books_ok_store_drop by (simp add: e)
    moreover have "level_map (books (store_levels ob ?sy ?sd ?ls)) = (level_map (books ob))(order_key ord := None)"
      unfolding order_key_def by (rule level_map_store_upd) simp
    ultimately show ?thesis using True by (simp add: e)
  next
    case False
    then show ?thesis using ok books_ok_drop [of ob ?sy] by (simp add: e books_ok_def books_full_def)
  qed
qed

end
