(* ===== verification/Book_Refine.thy ===== *)
theory Book_Refine
  imports Book_Queues Book_Levels
begin

text \<open>
  The order book implements its specification. A book represents a list of orders through two
  ghost lists of slot indices: the live slots in time priority and the free slots. The queue of a
  price level is the live list filtered by the level's key, so every operation on the arena is an
  operation on one list, and the queues, totals, index and maps follow.
\<close>

declare split_paired_All [simp del] split_paired_Ex [simp del]

section \<open>Representation\<close>

definition orders_of :: "slot list \<Rightarrow> slot_index list \<Rightarrow> order list" where
  "orders_of ss L = map (\<lambda>i. sl_order (sat ss i)) L"

definition chain :: "slot list \<Rightarrow> slot_index list \<Rightarrow> level_key \<Rightarrow> slot_index list" where
  "chain ss L k = filter (\<lambda>i. order_key (sl_order (sat ss i)) = k) L"

definition level_of :: "slot list \<Rightarrow> slot_index list \<Rightarrow> price_level option" where
  "level_of ss c =
     (if c = [] then None
      else Some \<lparr>lv_total = of_nat (shares_of (orders_of ss c)), lv_head = hd c, lv_tail = last c\<rparr>)"

definition levels_of :: "slot list \<Rightarrow> slot_index list \<Rightarrow> level_key \<Rightarrow> price_level option" where
  "levels_of ss L k = level_of ss (chain ss L k)"

definition queues_ok :: "slot list \<Rightarrow> slot_index list \<Rightarrow> bool" where
  "queues_ok ss L \<longleftrightarrow> (\<forall>k. queue_in ss (chain ss L k))"

definition index_rep :: "flat_index \<Rightarrow> slot list \<Rightarrow> slot_index list \<Rightarrow> bool" where
  "index_rep idx ss L \<longleftrightarrow>
     index_inv idx \<and> 2 * length ss \<le> length (entries idx) \<and> 16 \<le> length (entries idx) \<and>
     (\<forall>oid i. index_lookup idx oid = Some i \<longleftrightarrow> i \<in> set L \<and> ord_id (sl_order (sat ss i)) = oid)"

definition book_core :: "order_book \<Rightarrow> slot_index list \<Rightarrow> slot_index list \<Rightarrow> bool" where
  "book_core ob L F \<longleftrightarrow>
     length (slots ob) < unat kInvalidSlot \<and>
     distinct (L @ F) \<and> set (L @ F) = arena (slots ob) \<and>
     fseg (slots ob) F (free_head ob) \<and>
     index_rep (index ob) (slots ob) L \<and>
     queues_ok (slots ob) L \<and>
     books_ok (books ob) \<and> level_map (books ob) = levels_of (slots ob) L"

definition represents :: "nat \<Rightarrow> order_book \<Rightarrow> order list \<Rightarrow> bool" where
  "represents cap ob os \<longleftrightarrow>
     length (slots ob) = cap \<and> orders_ok cap os \<and>
     (\<exists>L F. book_core ob L F \<and> os = orders_of (slots ob) L)"

section \<open>Chains\<close>

lemma orders_of_append [simp]: "orders_of ss (xs @ ys) = orders_of ss xs @ orders_of ss ys"
  by (simp add: orders_of_def)

lemma orders_of_Cons [simp]: "orders_of ss (x # xs) = sl_order (sat ss x) # orders_of ss xs"
  by (simp add: orders_of_def)

lemma orders_of_Nil [simp]: "orders_of ss [] = []"
  by (simp add: orders_of_def)

lemma orders_of_cong:
  "(\<And>i. i \<in> set L \<Longrightarrow> sl_order (sat ss i) = sl_order (sat ss' i)) \<Longrightarrow> orders_of ss L = orders_of ss' L"
  by (simp add: orders_of_def)

lemma chain_cong:
  "(\<And>i. i \<in> set L \<Longrightarrow> sl_order (sat ss i) = sl_order (sat ss' i)) \<Longrightarrow> chain ss L k = chain ss' L k"
  by (auto simp: chain_def intro!: filter_cong)

lemma chain_subset: "set (chain ss L k) \<subseteq> set L"
  by (auto simp: chain_def)

lemma distinct_chain: "distinct L \<Longrightarrow> distinct (chain ss L k)"
  by (simp add: chain_def)

lemma filter_neq_id [simp]: "i \<notin> set xs \<Longrightarrow> filter (\<lambda>j. j \<noteq> i) xs = xs"
  by (induction xs) auto

lemma chain_append: "chain ss (L @ M) k = chain ss L k @ chain ss M k"
  by (simp add: chain_def)

lemma orders_of_chain: "orders_of ss (chain ss L k) = at_level (orders_of ss L) k"
  by (simp add: orders_of_def chain_def at_level_def filter_map o_def)

lemma chain_disjoint: "k \<noteq> k' \<Longrightarrow> set (chain ss L k) \<inter> set (chain ss L k') = {}"
  by (auto simp: chain_def)

lemma level_of_cong:
  "(\<And>i. i \<in> set c \<Longrightarrow> sl_order (sat ss i) = sl_order (sat ss' i)) \<Longrightarrow> level_of ss c = level_of ss' c"
  using orders_of_cong [of c ss ss'] by (simp add: level_of_def)

lemma levels_of_cong:
  assumes "\<And>i. i \<in> set L \<Longrightarrow> sl_order (sat ss i) = sl_order (sat ss' i)"
  shows "levels_of ss L = levels_of ss' L"
proof
  fix k
  have "chain ss L k = chain ss' L k" using assms by (rule chain_cong)
  moreover have "level_of ss (chain ss' L k) = level_of ss' (chain ss' L k)"
    using assms chain_subset [of ss' L k] by (intro level_of_cong) auto
  ultimately show "levels_of ss L k = levels_of ss' L k" by (simp add: levels_of_def)
qed

definition agree_on :: "slot_index set \<Rightarrow> slot list \<Rightarrow> slot list \<Rightarrow> bool" where
  "agree_on A ss ss' \<longleftrightarrow> (\<forall>i \<in> A. sl_order (sat ss i) = sl_order (sat ss' i) \<and>
     sl_prev (sat ss i) = sl_prev (sat ss' i) \<and> sl_next (sat ss i) = sl_next (sat ss' i))"

lemma queues_ok_cong:
  assumes "agree_on (set L) ss ss'" and "queues_ok ss L"
  shows "queues_ok ss' L"
  unfolding queues_ok_def
proof
  fix k
  have "chain ss' L k = chain ss L k" using assms(1) by (intro chain_cong) (simp add: agree_on_def)
  moreover have "queue_in ss' (chain ss L k) = queue_in ss (chain ss L k)"
    using assms(1) chain_subset [of ss L k] by (intro lseg_cong) (auto simp: agree_on_def)
  ultimately show "queue_in ss' (chain ss' L k)" using assms(2) by (simp add: queues_ok_def)
qed

text \<open>Appending a slot to the live list: its level's queue grows at the tail.\<close>

lemma queues_append:
  assumes q: "queues_ok ss L" and d: "distinct (L @ [i])" and a: "set (L @ [i]) \<subseteq> arena ss"
    and k: "k = order_key (sl_order (sat ss i))" and c: "c = chain ss L k"
  shows "queues_ok (linked ss c i) (L @ [i]) \<and>
    levels_of (linked ss c i) (L @ [i]) = (levels_of ss L)(k \<mapsto>
      \<lparr>lv_total = of_nat (shares_of (orders_of ss c) + unat (ord_quantity (sl_order (sat ss i)))),
       lv_head = hd (c @ [i]), lv_tail = i\<rparr>)"
proof -
  let ?ss = "linked ss c i"
  have ca: "set c \<subseteq> arena ss" "i \<in> arena ss" "i \<notin> set c"
    using a d chain_subset [of ss L k] by (auto simp: c)
  have ord: "sl_order (sat ?ss j) = sl_order (sat ss j)" for j using linked_slot(1) [OF ca(1,2)] .
  have ch: "chain ?ss (L @ [i]) k' = (if k' = k then c @ [i] else chain ss L k')" for k'
    using chain_cong [of L ?ss ss] ord k c by (simp add: chain_append) (simp add: chain_def)
  have other: "queue_in ?ss (chain ss L k')" if "k' \<noteq> k" for k'
  proof -
    have "queue_in ?ss (chain ss L k') = queue_in ss (chain ss L k')"
    proof (rule lseg_cong)
      fix x assume "x \<in> set (chain ss L k')"
      then have "x \<notin> set c" "x \<noteq> i" using that chain_disjoint [of k' k ss L] chain_subset [of ss L k'] d by (auto simp: c)
      then show "sl_prev (sat ?ss x) = sl_prev (sat ss x) \<and> sl_next (sat ?ss x) = sl_next (sat ss x)"
        using linked_slot(3) [OF ca(1,2)] by simp
    qed
    then show ?thesis using q by (simp add: queues_ok_def)
  qed
  have "queue_in ?ss (c @ [i])"
    using q d ca distinct_chain [of L ss k] by (intro lseg_linked) (auto simp: queues_ok_def c)
  with other have "queues_ok ?ss (L @ [i])" by (simp add: queues_ok_def ch)
  moreover have "levels_of ?ss (L @ [i]) = (levels_of ss L)(k \<mapsto>
      \<lparr>lv_total = of_nat (shares_of (orders_of ss c) + unat (ord_quantity (sl_order (sat ss i)))),
       lv_head = hd (c @ [i]), lv_tail = i\<rparr>)"
  proof
    fix k'
    show "levels_of ?ss (L @ [i]) k' = ((levels_of ss L)(k \<mapsto>
      \<lparr>lv_total = of_nat (shares_of (orders_of ss c) + unat (ord_quantity (sl_order (sat ss i)))),
       lv_head = hd (c @ [i]), lv_tail = i\<rparr>)) k'"
      using orders_of_cong [of _ ?ss ss] ord by (simp add: levels_of_def ch level_of_def)
  qed
  ultimately show ?thesis by blast
qed

text \<open>Taking a slot out of the live list: its level's queue closes over it.\<close>

lemma queues_remove:
  assumes q: "queues_ok ss L" and d: "distinct L" and a: "set L \<subseteq> arena ss"
    and k: "k = order_key (sl_order (sat ss i))" and c: "chain ss L k = ys @ i # zs"
  shows "queues_ok (unlinked ss ys i zs) (filter (\<lambda>j. j \<noteq> i) L) \<and>
    levels_of (unlinked ss ys i zs) (filter (\<lambda>j. j \<noteq> i) L) = (levels_of ss L)(k := level_of ss (ys @ zs))"
proof -
  let ?ss = "unlinked ss ys i zs" and ?L = "filter (\<lambda>j. j \<noteq> i) L"
  have ca: "set (ys @ i # zs) \<subseteq> arena ss" "distinct (ys @ i # zs)"
    using a chain_subset [of ss L k] distinct_chain [OF d, of ss k] unfolding c by auto
  have ord: "sl_order (sat ?ss j) = sl_order (sat ss j)" for j using unlinked_slot(1) [OF ca(1)] .
  have "chain ?ss ?L k' = filter (\<lambda>j. j \<noteq> i) (chain ss L k')" for k'
    by (simp add: chain_def ord conj_commute)
  moreover have "filter (\<lambda>j. j \<noteq> i) (chain ss L k') = chain ss L k'" if "k' \<noteq> k" for k'
    using that k unfolding chain_def filter_filter by (intro filter_cong) auto
  moreover have "filter (\<lambda>j. j \<noteq> i) (chain ss L k) = ys @ zs"
    using ca(2) unfolding c by simp
  ultimately have ch: "chain ?ss ?L k' = (if k' = k then ys @ zs else chain ss L k')" for k' by simp
  have other: "queue_in ?ss (chain ss L k')" if "k' \<noteq> k" for k'
  proof -
    have "queue_in ?ss (chain ss L k') = queue_in ss (chain ss L k')"
    proof (rule lseg_cong)
      fix x assume "x \<in> set (chain ss L k')"
      then have "x \<notin> set (ys @ i # zs)" using that chain_disjoint [of k' k ss L] unfolding c by blast
      then show "sl_prev (sat ?ss x) = sl_prev (sat ss x) \<and> sl_next (sat ?ss x) = sl_next (sat ss x)"
        using unlinked_slot(3) [OF ca(1)] by simp
    qed
    then show ?thesis using q by (simp add: queues_ok_def)
  qed
  have "queue_in ?ss (ys @ zs)"
    using q ca by (intro lseg_unlinked) (auto simp: queues_ok_def c [symmetric])
  with other have "queues_ok ?ss ?L" by (simp add: queues_ok_def ch)
  moreover have "levels_of ?ss ?L k' = ((levels_of ss L)(k := level_of ss (ys @ zs))) k'" for k'
    using level_of_cong [of _ ?ss ss] ord by (simp add: levels_of_def ch)
  ultimately show ?thesis by blast
qed

text \<open>Moving a slot to the end of the live list with another order in it: a replacement.\<close>

lemma queues_move:
  assumes q: "queues_ok ss L" and d: "distinct L" and a: "set L \<subseteq> arena ss" and i: "i \<in> set L"
    and k: "k = order_key (sl_order (sat ss i))" and c: "chain ss L k = ys @ i # zs"
    and ss': "ss' = supd (unlinked ss ys i zs) i (\<lambda>s. s\<lparr>sl_order := ord\<rparr>)"
    and k': "k' = order_key ord" and c': "c' = (if k' = k then ys @ zs else chain ss L k')"
  shows "queues_ok (linked ss' c' i) (filter (\<lambda>j. j \<noteq> i) L @ [i]) \<and>
    levels_of (linked ss' c' i) (filter (\<lambda>j. j \<noteq> i) L @ [i]) =
      (levels_of ss L)(k := level_of ss (ys @ zs), k' \<mapsto>
        \<lparr>lv_total = of_nat (shares_of (orders_of ss c') + unat (ord_quantity ord)),
         lv_head = hd (c' @ [i]), lv_tail = i\<rparr>)"
proof -
  let ?u = "unlinked ss ys i zs" and ?L = "filter (\<lambda>j. j \<noteq> i) L"
  have ca: "set (ys @ i # zs) \<subseteq> arena ss" "i \<in> arena ss" "distinct (ys @ i # zs)"
    using a i chain_subset [of ss L k] distinct_chain [OF d, of ss k] unfolding c by auto
  have rem: "queues_ok ?u ?L" "levels_of ?u ?L = (levels_of ss L)(k := level_of ss (ys @ zs))"
    using queues_remove [OF q d a k c] by blast+
  have sat': "sat ss' j = (if j = i then (sat ?u i)\<lparr>sl_order := ord\<rparr> else sat ?u j)" for j
    using ca(2) by (simp add: ss' sat_supd)
  have agree: "agree_on (set ?L) ?u ss'" by (auto simp: agree_on_def sat')
  have ord': "sl_order (sat ss' j) = sl_order (sat ss j)" if "j \<noteq> i" for j
    using that unlinked_slot(1) [OF ca(1)] by (simp add: sat')
  have key_i: "order_key (sl_order (sat ss i)) = k" by (simp add: k)
  have "chain ss' ?L k'' = filter (\<lambda>j. j \<noteq> i) (chain ss L k'')" for k''
    unfolding chain_def filter_filter by (rule filter_cong) (auto simp: ord')
  moreover have "filter (\<lambda>j. j \<noteq> i) (chain ss L k'') = chain ss L k''" if "k'' \<noteq> k" for k''
    using that key_i by (intro filter_neq_id) (auto simp: chain_def)
  ultimately have cc: "chain ss' ?L k' = c'" using ca(3) by (auto simp: c' c)
  have i_c': "i \<notin> set c'" using cc chain_subset [of ss' ?L k'] by auto
  then have oc: "orders_of ss' c' = orders_of ss c'" by (intro orders_of_cong ord') auto
  have "queues_ok ss' ?L" using queues_ok_cong [OF agree rem(1)] .
  moreover have "distinct (?L @ [i])" "set (?L @ [i]) \<subseteq> arena ss'" using d a i by (auto simp: ss')
  moreover have "k' = order_key (sl_order (sat ss' i))" by (simp add: sat' k')
  ultimately have "queues_ok (linked ss' c' i) (?L @ [i]) \<and>
    levels_of (linked ss' c' i) (?L @ [i]) = (levels_of ss' ?L)(k' \<mapsto>
      \<lparr>lv_total = of_nat (shares_of (orders_of ss' c') + unat (ord_quantity (sl_order (sat ss' i)))),
       lv_head = hd (c' @ [i]), lv_tail = i\<rparr>)"
    using queues_append [of ss' ?L i k' c'] cc by simp
  moreover have "levels_of ss' ?L = levels_of ?u ?L" using agree by (intro levels_of_cong) (auto simp: agree_on_def)
  ultimately show ?thesis by (simp add: rem(2) oc sat')
qed

section \<open>Consequences of the representation\<close>

lemma card_arena:
  assumes "length ss \<le> unat kInvalidSlot"
  shows "card (arena ss) = length ss" and "finite (arena ss)"
proof -
  have b: "unat (of_nat n :: slot_index) = n" if "n < length ss" for n
    using that assms by (simp add: unat_of_nat kInvalidSlot_def)
  have "arena ss = of_nat ` {..<length ss}"
    by (auto simp: arena_def b intro!: image_eqI [where x = "unat _"])
  moreover have "inj_on (of_nat :: nat \<Rightarrow> slot_index) {..<length ss}"
    using b by (intro inj_on_inverseI [where g = unat]) simp
  ultimately show "card (arena ss) = length ss" "finite (arena ss)" by (simp_all add: card_image)
qed

lemma core_length:
  assumes "book_core ob L F"
  shows "length L + length F = length (slots ob)"
proof -
  have "card (set (L @ F)) = length (L @ F)" using assms by (intro distinct_card) (simp add: book_core_def)
  with assms card_arena(1) [of "slots ob"] show ?thesis by (simp add: book_core_def)
qed

lemma core_live: "book_core ob L F \<Longrightarrow> i \<in> set L \<Longrightarrow> i \<in> arena (slots ob)"
  by (auto simp: book_core_def)

lemma core_index:
  assumes "book_core ob L F"
  shows "index_inv (index ob)"
    and "index_lookup (index ob) oid = Some i \<longleftrightarrow> i \<in> set L \<and> ord_id (sl_order (sat (slots ob) i)) = oid"
  using assms by (auto simp: book_core_def index_rep_def)

lemma core_find [simp]: "book_core ob L F \<Longrightarrow> index_find (index ob) oid = Inr (index_lookup (index ob) oid)"
  using core_index(1) flat.find_lookup by blast

lemma core_size:
  assumes "book_core ob L F"
  shows "idx_size (index ob) = length L"
proof -
  let ?id = "\<lambda>i. ord_id (sl_order (sat (slots ob) i))"
  have "dom (index_lookup (index ob)) = ?id ` set L"
    using core_index(2) [OF assms] by (force simp: dom_def)
  moreover have "inj_on ?id (set L)"
    using core_index(2) [OF assms] by (intro inj_onI) (metis option.inject)
  moreover have "card (set L) = length L" using assms by (intro distinct_card) (simp add: book_core_def)
  ultimately show ?thesis using flat.size_card [OF core_index(1) [OF assms]] by (simp add: card_image)
qed

lemma core_room:
  assumes "book_core ob L F"
  shows "idx_size (index ob) * 10 < length (entries (index ob)) * 7"
  using core_size [OF assms] core_length [OF assms] assms by (simp add: book_core_def index_rep_def)

lemma find_orders:
  assumes "book_core ob L F"
  shows "find_order (orders_of (slots ob) L) oid =
    map_option (\<lambda>i. sl_order (sat (slots ob) i)) (index_lookup (index ob) oid)"
proof (cases "index_lookup (index ob) oid")
  case None
  then have "\<forall>i \<in> set L. ord_id (sl_order (sat (slots ob) i)) \<noteq> oid"
    using core_index(2) [OF assms, of oid] by force
  then have "find_order (orders_of (slots ob) L) oid = None" by (auto simp: find_order_None orders_of_def)
  with None show ?thesis by simp
next
  case (Some i)
  then have i: "i \<in> set L" "ord_id (sl_order (sat (slots ob) i)) = oid" using core_index(2) [OF assms] by auto
  have uniq: "j = i" if "j \<in> set L" "ord_id (sl_order (sat (slots ob) j)) = oid" for j
    using that core_index(2) [OF assms, of oid j] Some by simp
  have "sl_order (sat (slots ob) i) \<in> set (orders_of (slots ob) L)" using i(1) by (simp add: orders_of_def)
  then have "find_order (orders_of (slots ob) L) oid \<noteq> None" using i(2) by (auto simp: find_order_None)
  then obtain ord where ord: "find_order (orders_of (slots ob) L) oid = Some ord" by blast
  from find_order_Some [OF this] obtain j where "j \<in> set L" "ord = sl_order (sat (slots ob) j)"
    "ord_id (sl_order (sat (slots ob) j)) = oid" by (auto simp: orders_of_def)
  with uniq ord Some show ?thesis by simp
qed

lemma orders_without:
  assumes "book_core ob L F" and "index_lookup (index ob) oid = Some i"
  shows "orders_of (slots ob) (filter (\<lambda>j. j \<noteq> i) L) = without (orders_of (slots ob) L) oid"
proof -
  have "j = i \<longleftrightarrow> ord_id (sl_order (sat (slots ob) j)) = oid" if "j \<in> set L" for j
    using that assms core_index(2) [OF assms(1), of oid] by (metis option.inject)
  then show ?thesis
    by (auto simp: orders_of_def without_def filter_map o_def intro!: arg_cong [where f = "map _"] filter_cong)
qed

lemma chain_split:
  assumes "i \<in> set L" and "distinct L"
  obtains ys zs where "chain ss L (order_key (sl_order (sat ss i))) = ys @ i # zs" "distinct (ys @ i # zs)"
    "set (ys @ i # zs) \<subseteq> set L"
proof -
  have "i \<in> set (chain ss L (order_key (sl_order (sat ss i))))" using assms(1) by (simp add: chain_def)
  then obtain ys zs where "chain ss L (order_key (sl_order (sat ss i))) = ys @ i # zs" by (meson split_list)
  with that distinct_chain [OF assms(2)] chain_subset show thesis by metis
qed

lemma level_of_chain:
  assumes "book_core ob L F" and "level_map (books ob) k = Some level"
  shows "lv_head level = hd (chain (slots ob) L k @ [kInvalidSlot])"
    and "lv_tail level = last (kInvalidSlot # chain (slots ob) L k)"
    and "lv_total level = of_nat (shares_of (orders_of (slots ob) (chain (slots ob) L k)))"
    and "chain (slots ob) L k \<noteq> []"
  using assms by (auto simp: book_core_def levels_of_def level_of_def split: if_splits)

lemma level_of_no_chain:
  assumes "book_core ob L F" and "level_map (books ob) k = None"
  shows "chain (slots ob) L k = []"
  using assms by (auto simp: book_core_def levels_of_def level_of_def split: if_splits)

end
