(* ===== verification/Book_Simulation.thy ===== *)
theory Book_Simulation
  imports Book_Refine
begin

text \<open>
  Every operation of the order book simulates its specification: on a book that represents a list
  of orders it throws nothing and has no undefined behaviour, returns the specified result, and
  leaves a book that represents the specified list.
\<close>

section \<open>Quantities\<close>

lemma total_overflow: "max_u32 - t < q \<longleftrightarrow> unat t + unat q > 0xFFFFFFFF"
proof -
  have "unat (max_u32 - t) = 0xFFFFFFFF - unat t"
    using unat_sub [of t max_u32] unat_u32_less [of t] by (simp add: word_le_nat_alt)
  then show ?thesis using unat_u32_less [of t] by (auto simp: word_less_nat_alt)
qed

lemma unat_shares: "n \<le> 0xFFFFFFFF \<Longrightarrow> unat (of_nat n :: quantity) = n"
  by (simp add: unat_of_nat)

lemma of_nat_unat_diff: "n \<le> q \<Longrightarrow> (of_nat (unat q - unat n) :: quantity) = q - n"
  by (simp add: unat_sub [symmetric])

section \<open>Removal\<close>

lemma hd_invalid:
  assumes "set c \<subseteq> arena ss" and "length ss \<le> unat kInvalidSlot"
  shows "hd (c @ [kInvalidSlot]) = kInvalidSlot \<longleftrightarrow> c = []"
  using assms arena_valid [of ss "hd c"] by (cases c) auto

lemma live_level:
  assumes "book_core ob L F" and "i \<in> set L" and "k = order_key (sl_order (sat (slots ob) i))"
    and "chain (slots ob) L k = ys @ i # zs"
  shows "level_map (books ob) k = Some \<lparr>lv_total = of_nat (shares_of (orders_of (slots ob) (ys @ i # zs))),
    lv_head = hd (ys @ i # zs), lv_tail = last (ys @ i # zs)\<rparr>"
  using assms by (simp add: book_core_def levels_of_def level_of_def)

lemma index_erase_rep:
  assumes rep: "index_rep idx ss L" and lk: "index_lookup idx oid = Some i"
    and ss': "length ss' = length ss" "\<And>j. j \<in> set L \<Longrightarrow> j \<noteq> i \<Longrightarrow> sl_order (sat ss' j) = sl_order (sat ss j)"
  shows "\<exists>idx'. index_erase idx oid = Inr (True, idx') \<and> index_rep idx' ss' (filter (\<lambda>j. j \<noteq> i) L)"
proof -
  have inv: "index_inv idx" using rep by (simp add: index_rep_def)
  obtain j where j: "index_erase idx oid = Inr (True, j)" "index_inv j"
    "index_lookup j = (index_lookup idx)(oid := None)" "length (entries j) = length (entries idx)"
    using flat.erase_present [OF inv, of oid] lk by auto
  have lk': "index_lookup idx x = Some y \<longleftrightarrow> y \<in> set L \<and> ord_id (sl_order (sat ss y)) = x" for x y
    using rep by (simp add: index_rep_def)
  have "index_lookup j x = Some y \<longleftrightarrow> y \<in> set (filter (\<lambda>j. j \<noteq> i) L) \<and> ord_id (sl_order (sat ss' y)) = x" for x y
  proof (cases "y = i")
    case True
    then show ?thesis using lk lk' [of oid i] lk' [of x i] by (auto simp: j(3))
  next
    case False
    then have "\<not> (y \<in> set L \<and> ord_id (sl_order (sat ss y)) = oid)" using lk lk' [of oid y] by simp
    then show ?thesis using lk' [of x y] ss'(2) [of y] False by (auto simp: j(3))
  qed
  with j rep ss'(1) show ?thesis by (auto simp: index_rep_def)
qed

text \<open>The queue a live slot is in, and the slot taken out of it.\<close>

lemma live_queue:
  assumes core: "book_core ob L F" and c: "chain (slots ob) L k = ys @ i # zs"
  shows "set (ys @ i # zs) \<subseteq> arena (slots ob)" "distinct (ys @ i # zs)" "queue_in (slots ob) (ys @ i # zs)"
    and "i \<in> arena (slots ob)"
proof -
  show "set (ys @ i # zs) \<subseteq> arena (slots ob)" "distinct (ys @ i # zs)"
    using core chain_subset [of "slots ob" L k] distinct_chain [of L "slots ob" k] unfolding c by (auto simp: book_core_def)
  then show "i \<in> arena (slots ob)" by simp
  show "queue_in (slots ob) (ys @ i # zs)" using core unfolding book_core_def queues_ok_def by (metis c)
qed

lemma unlink_live:
  assumes core: "book_core ob L F" and c: "chain (slots ob) L k = ys @ i # zs"
    and "slots ob' = slots ob" and "lv_head lv = hd (ys @ i # zs)" and "lv_tail lv = last (ys @ i # zs)"
  shows "unlink ob' lv i = Inr (ob'\<lparr>slots := unlinked (slots ob) ys i zs\<rparr>,
    lv\<lparr>lv_head := hd (ys @ zs @ [kInvalidSlot]), lv_tail := last (kInvalidSlot # ys @ zs)\<rparr>)"
  using unlink_eq [of ob' ys i zs lv] live_queue [OF core c] core assms(3-5) by (simp add: book_core_def hd_append)

lemma refill_live:
  assumes core: "book_core ob L F" and c: "chain (slots ob) L k = ys @ i # zs"
  shows "slot_upd (ob'\<lparr>slots := unlinked (slots ob) ys i zs\<rparr>) i (\<lambda>s. s\<lparr>sl_order := g (sl_order s)\<rparr>) =
    Inr (ob'\<lparr>slots := supd (unlinked (slots ob) ys i zs) i (\<lambda>s. s\<lparr>sl_order := g (sl_order (sat (slots ob) i))\<rparr>)\<rparr>)"
  using live_queue(4) [OF core c] unlinked_slot(1) [OF live_queue(1) [OF core c], of i] by (simp add: supd_def)

text \<open>A slot that is unlinked and put on the free list: what becomes of arena, queues and index.\<close>

lemma removed_arena:
  assumes core: "book_core ob L F" and lk: "index_lookup (index ob) oid = Some i"
    and c: "chain (slots ob) L (order_key (sl_order (sat (slots ob) i))) = ys @ i # zs"
    and L': "L' = filter (\<lambda>j. j \<noteq> i) L" and ss': "ss' = released (unlinked (slots ob) ys i zs) i (free_head ob)"
  shows "\<exists>ix. index_erase (index ob) oid = Inr (True, ix) \<and> index_rep ix ss' L'"
    and "queues_ok ss' L'" and "fseg ss' (i # F) i" and "length ss' = length (slots ob)"
    and "levels_of ss' L' = (levels_of (slots ob) L)(order_key (sl_order (sat (slots ob) i)) := level_of (slots ob) (ys @ zs))"
    and "orders_of ss' L' = without (orders_of (slots ob) L) oid"
proof -
  define ss u where "ss = slots ob" and "u = unlinked ss ys i zs"
  note core' = core [unfolded book_core_def, folded ss_def] and cs = c [folded ss_def]
  note q = live_queue [OF core c, folded ss_def] and us = unlinked_slot [OF live_queue(1) [OF core c], folded ss_def, folded u_def]
  have i: "distinct L" "set L \<subseteq> arena ss" "i \<notin> set F" using core' core_index(2) [OF core] lk by auto
  have so: "sat ss' j = sat u j" if "j \<noteq> i" for j
    using that q(4) by (simp add: ss' released_def sat_supd u_def ss_def)
  have len: "length ss' = length ss" "arena ss' = arena ss" by (simp_all add: ss' released_def ss_def)
  show "\<exists>ix. index_erase (index ob) oid = Inr (True, ix) \<and> index_rep ix ss' L'"
    using index_erase_rep [of "index ob" ss L oid i ss'] core' lk len so us(1) by (auto simp: L')
  have qs: "queues_ok u L'" "levels_of u L' = (levels_of ss L)(order_key (sl_order (sat ss i)) := level_of ss (ys @ zs))"
    using queues_remove [OF _ i(1,2) refl cs] core' by (auto simp: u_def L')
  have agree: "agree_on (set L') u ss'" using so by (simp add: agree_on_def L')
  show "queues_ok ss' L'" by (rule queues_ok_cong [OF agree qs(1)])
  have "levels_of ss' L' = levels_of u L'" using agree by (intro levels_of_cong) (simp add: agree_on_def)
  then show "levels_of ss' L' = (levels_of (slots ob) L)(order_key (sl_order (sat (slots ob) i)) := level_of (slots ob) (ys @ zs))"
    using qs(2) by (simp add: ss_def)
  have "fseg u F (free_head ob)" using core' fseg_cong [of F u ss] us(2) by simp
  then show "fseg ss' (i # F) i" using fseg_released [of u F "free_head ob" i] i(3) q(4) by (simp add: ss' u_def ss_def)
  show "length ss' = length (slots ob)" using len by (simp add: ss_def)
  have "orders_of ss' L' = orders_of ss L'" using so us(1) by (intro orders_of_cong) (simp add: L')
  then show "orders_of ss' L' = without (orders_of (slots ob) L) oid" using orders_without [OF core lk] by (simp add: L' ss_def)
qed

lemma erase_unlinked_level:
  assumes "books_ok (books ob)" and "level_map (books ob) = m(order_key ord \<mapsto> lv)"
    and "set c \<subseteq> arena ss" and "length ss \<le> unat kInvalidSlot" and "lv_head lv = hd (c @ [kInvalidSlot])"
    and "c \<noteq> [] \<Longrightarrow> level_of ss c = Some lv"
  shows "books_ok (books (erase_empty_level ob ord))"
    and "level_map (books (erase_empty_level ob ord)) = m(order_key ord := level_of ss c)"
proof -
  have "lv_head lv = kInvalidSlot \<longleftrightarrow> c = []" using hd_invalid [of c ss] assms(3-5) by simp
  then show "books_ok (books (erase_empty_level ob ord))"
    "level_map (books (erase_empty_level ob ord)) = m(order_key ord := level_of ss c)"
    using erase_empty_level_map [of ob ord lv] assms(1,2,6) by (auto simp: level_of_def)
qed

lemma remove_core:
  assumes core: "book_core ob L F" and lk: "index_lookup (index ob) oid = Some i"
  shows "\<exists>ob'. remove_order ob oid = Inr (True, ob') \<and> length (slots ob') = length (slots ob) \<and>
    book_core ob' (filter (\<lambda>j. j \<noteq> i) L) (i # F) \<and>
    orders_of (slots ob') (filter (\<lambda>j. j \<noteq> i) L) = without (orders_of (slots ob) L) oid"
proof -
  define ord L' where "ord = sl_order (sat (slots ob) i)" and "L' = filter (\<lambda>j. j \<noteq> i) L"
  note core' = core [unfolded book_core_def]
  have i: "i \<in> set L" "distinct L" "i \<notin> set F" using core' core_index(2) [OF core] lk by auto
  obtain ys zs where c: "chain (slots ob) L (order_key ord) = ys @ i # zs"
    unfolding ord_def by (rule chain_split [OF i(1,2), of "slots ob"])
  note q = live_queue [OF core c]
  define lv where "lv = \<lparr>lv_total = of_nat (shares_of (orders_of (slots ob) (ys @ i # zs))),
    lv_head = hd (ys @ i # zs), lv_tail = last (ys @ i # zs)\<rparr>"
  have lv: "level_map (books ob) (order_key ord) = Some lv"
    using live_level [OF core i(1), of "order_key ord" ys zs] c by (simp add: ord_def lv_def)
  define lv' where "lv' = lv\<lparr>lv_total := lv_total lv - ord_quantity ord,
    lv_head := hd (ys @ zs @ [kInvalidSlot]), lv_tail := last (kInvalidSlot # ys @ zs)\<rparr>"
  define u where "u = unlinked (slots ob) ys i zs"
  have un: "unlink ob (lv\<lparr>lv_total := lv_total lv - ord_quantity ord\<rparr>) i = Inr (ob\<lparr>slots := u\<rparr>, lv')"
    using unlink_live [OF core c refl] by (simp add: lv_def lv'_def u_def)
  define ss' where "ss' = released u i (free_head ob)"
  note ra = removed_arena [OF core lk c [unfolded ord_def] L'_def ss'_def [unfolded u_def]]
  then obtain ix where ix: "index_erase (index ob) oid = Inr (True, ix)" "index_rep ix ss' L'" by blast
  define ob2 where "ob2 = store_level (ob\<lparr>slots := u\<rparr>) ord lv'"
  define ob4 where "ob4 = ob2\<lparr>index := ix, slots := ss', free_head := i\<rparr>"
  have rel: "release_slot (ob2\<lparr>index := ix\<rparr>) i = Inr ob4"
    using release_eq [of i "ob2\<lparr>index := ix\<rparr>"] q(4) by (simp add: ob4_def ob2_def ss'_def u_def)
  have run: "remove_order ob oid = Inr (True, erase_empty_level ob4 ord)"
    using core lk q(4) level_at_map [OF lv] un ix(1) rel
    by (simp add: remove_order_def Let_def ord_def [symmetric] ob2_def)
  have "books_ok (books ob4)" "level_map (books ob4) = (levels_of (slots ob) L)(order_key ord \<mapsto> lv')"
    using core' books_ok_store_level [of "ob\<lparr>slots := u\<rparr>"] by (simp_all add: ob4_def ob2_def level_map_store_level)
  moreover have "ys @ zs \<noteq> [] \<Longrightarrow> level_of (slots ob) (ys @ zs) = Some lv'"
    by (auto simp: level_of_def lv'_def lv_def ord_def hd_append)
  ultimately have "books_ok (books (erase_empty_level ob4 ord))"
    "level_map (books (erase_empty_level ob4 ord)) = (levels_of (slots ob) L)(order_key ord := level_of (slots ob) (ys @ zs))"
    using erase_unlinked_level [of ob4 _ ord lv' "ys @ zs" "slots ob"] q(1) core' by (simp_all add: lv'_def)
  then have "book_core (erase_empty_level ob4 ord) L' (i # F)"
    using core' ra ix(2) i q(4) unfolding book_core_def by (auto simp: ob4_def L'_def ord_def arena_def)
  then show ?thesis using run ra(4,6) by (simp add: ob4_def L'_def)
qed

section \<open>Reduction\<close>

lemma queues_reduce:
  assumes q: "queues_ok ss L" and i: "i \<in> set L" "i \<in> arena ss" "distinct L"
    and ord: "ord = sl_order (sat ss i)" and n: "n \<le> ord_quantity ord"
    and lv: "levels_of ss L (order_key ord) = Some lv"
    and ss': "ss' = supd ss i (\<lambda>s. s\<lparr>sl_order := ord\<lparr>ord_quantity := ord_quantity ord - n\<rparr>\<rparr>)"
  shows "queues_ok ss' L \<and> levels_of ss' L = (levels_of ss L)(order_key ord \<mapsto> lv\<lparr>lv_total := lv_total lv - n\<rparr>)"
proof -
  have s: "sat ss' j = (if j = i then (sat ss i)\<lparr>sl_order := ord\<lparr>ord_quantity := ord_quantity ord - n\<rparr>\<rparr> else sat ss j)" for j
    using i(2) by (simp add: ss' sat_supd)
  have ch: "chain ss' L k = chain ss L k" for k
    unfolding chain_def by (rule filter_cong) (simp_all add: s ord)
  have "queue_in ss' c = queue_in ss c" for c by (rule lseg_cong) (simp add: s)
  then have "queues_ok ss' L" using q by (simp add: queues_ok_def ch)
  moreover have "levels_of ss' L k = ((levels_of ss L)(order_key ord \<mapsto> lv\<lparr>lv_total := lv_total lv - n\<rparr>)) k" for k
  proof (cases "k = order_key ord")
    case True
    obtain ys zs where c: "chain ss L k = ys @ i # zs" "distinct (ys @ i # zs)"
      using chain_split [OF i(1,3)] True unfolding ord by metis
    have "orders_of ss' ys = orders_of ss ys" "orders_of ss' zs = orders_of ss zs"
      using c(2) by (auto intro!: orders_of_cong simp: s)
    then have "(of_nat (shares_of (orders_of ss' (ys @ i # zs))) :: quantity) =
        of_nat (shares_of (orders_of ss (ys @ i # zs))) - n"
      using n by (simp add: s ord)
    then show ?thesis using True lv c(1) by (auto simp: levels_of_def level_of_def ch)
  next
    case False
    then have "i \<notin> set (chain ss L k)" by (auto simp: chain_def ord)
    then have "level_of ss' (chain ss L k) = level_of ss (chain ss L k)" by (intro level_of_cong) (auto simp: s)
    then show ?thesis using False by (simp add: levels_of_def ch)
  qed
  ultimately show ?thesis by blast
qed

lemma reduce_core:
  assumes core: "book_core ob L F" and lk: "index_lookup (index ob) oid = Some i"
    and ord: "ord = sl_order (sat (slots ob) i)" and n: "n \<le> ord_quantity ord"
    and lv: "level_map (books ob) (order_key ord) = Some lv"
    and ob': "ob' = (store_level ob ord (lv\<lparr>lv_total := lv_total lv - n\<rparr>))\<lparr>slots :=
      supd (slots ob) i (\<lambda>s. s\<lparr>sl_order := ord\<lparr>ord_quantity := ord_quantity ord - n\<rparr>\<rparr>)\<rparr>"
  shows "book_core ob' L F \<and> orders_of (slots ob') L =
    map (\<lambda>x. if ord_id x = oid then x\<lparr>ord_quantity := ord_quantity x - n\<rparr> else x) (orders_of (slots ob) L)"
proof -
  note core' = core [unfolded book_core_def]
  have i: "i \<in> set L" "i \<in> arena (slots ob)" "distinct L" "ord_id ord = oid"
    using core' core_index(2) [OF core] lk by (auto simp: ord)
  have s: "sat (slots ob') j = (if j = i then (sat (slots ob) i)\<lparr>sl_order := ord\<lparr>ord_quantity := ord_quantity ord - n\<rparr>\<rparr>
      else sat (slots ob) j)" for j
    using i(2) by (simp add: ob' sat_supd)
  have q: "queues_ok (slots ob') L"
    "levels_of (slots ob') L = (levels_of (slots ob) L)(order_key ord \<mapsto> lv\<lparr>lv_total := lv_total lv - n\<rparr>)"
    using queues_reduce [OF _ i(1-3) ord n, of lv "slots ob'"] core' lv by (simp_all add: ob')
  have "fseg (slots ob') F (free_head ob')" using core' fseg_cong [of F "slots ob'" "slots ob"] by (simp add: s) (simp add: ob')
  moreover have "index_rep (index ob') (slots ob') L"
    using core' by (auto simp: index_rep_def ob' sat_supd i(2) ord)
  moreover have "books_ok (books ob')" "level_map (books ob') = levels_of (slots ob') L"
    using core' books_ok_store_level q(2) by (simp_all add: ob' level_map_store_level)
  ultimately have "book_core ob' L F" using core' q(1) by (simp add: book_core_def ob')
  moreover have "orders_of (slots ob') L =
      map (\<lambda>x. if ord_id x = oid then x\<lparr>ord_quantity := ord_quantity x - n\<rparr> else x) (orders_of (slots ob) L)"
  proof -
    have "j = i \<longleftrightarrow> ord_id (sl_order (sat (slots ob) j)) = oid" if "j \<in> set L" for j
      using that lk core_index(2) [OF core, of oid] by (metis option.inject)
    then show ?thesis by (simp add: orders_of_def s ord) metis
  qed
  ultimately show ?thesis by blast
qed

text \<open>Removing an order that was reduced to nothing, or to anything else, leaves the same orders.\<close>

lemma without_map_same:
  "(\<And>x. ord_id (f x) = ord_id x) \<Longrightarrow> (\<And>x. ord_id x \<noteq> oid \<Longrightarrow> f x = x) \<Longrightarrow> without (map f os) oid = without os oid"
  by (induction os) (auto simp: without_def)

lemma represents_core:
  assumes "represents cap ob os"
  obtains L F where "book_core ob L F" "os = orders_of (slots ob) L" "length (slots ob) = cap" "orders_ok cap os"
    "\<And>oid. find_order os oid = map_option (\<lambda>i. sl_order (sat (slots ob) i)) (index_lookup (index ob) oid)"
  using assms find_orders unfolding represents_def by blast

lemma representsI:
  "book_core ob L F \<Longrightarrow> orders_of (slots ob) L = os \<Longrightarrow> length (slots ob) = cap \<Longrightarrow> orders_ok cap os \<Longrightarrow>
   represents cap ob os"
  unfolding represents_def by blast

lemma live_has_level:
  assumes "book_core ob L F" and "i \<in> set L"
  obtains lv where "level_map (books ob) (order_key (sl_order (sat (slots ob) i))) = Some lv"
proof -
  have "distinct L" using assms(1) by (simp add: book_core_def)
  obtain ys zs where "chain (slots ob) L (order_key (sl_order (sat (slots ob) i))) = ys @ i # zs"
    by (rule chain_split [OF assms(2) \<open>distinct L\<close>, of "slots ob"])
  with live_level [OF assms refl] that show thesis by blast
qed

lemma remove_sim:
  assumes rep: "represents cap ob os"
  shows "\<exists>ob'. remove_order ob oid = Inr (fst (spec_delete os oid), ob') \<and> represents cap ob' (snd (spec_delete os oid))"
proof -
  obtain L F where core: "book_core ob L F" "os = orders_of (slots ob) L" "length (slots ob) = cap" "orders_ok cap os"
    and fo: "find_order os oid = map_option (\<lambda>i. sl_order (sat (slots ob) i)) (index_lookup (index ob) oid)"
    using represents_core [OF rep] by metis
  show ?thesis
  proof (cases "index_lookup (index ob) oid")
    case None
    with core fo rep show ?thesis by (simp add: remove_order_def spec_delete_def)
  next
    case (Some i)
    from remove_core [OF core(1) this] obtain ob' where "remove_order ob oid = Inr (True, ob')"
      "length (slots ob') = length (slots ob)" "book_core ob' (filter (\<lambda>j. j \<noteq> i) L) (i # F)"
      "orders_of (slots ob') (filter (\<lambda>j. j \<noteq> i) L) = without os oid" unfolding core(2) by blast
    with core fo Some show ?thesis
      by (auto simp: spec_delete_def orders_ok_without intro: representsI)
  qed
qed

text \<open>A reduction the guards let through.\<close>

lemma reduce_live:
  assumes core: "book_core ob L F" and lk: "index_lookup (index ob) oid = Some i"
    and ord: "ord = sl_order (sat (slots ob) i)" and n: "n \<noteq> 0" "n \<le> ord_quantity ord"
  shows "\<exists>ob' L' F'. reduce_order ob oid n = Inr (True, ob') \<and> book_core ob' L' F' \<and> length (slots ob') = length (slots ob) \<and>
    orders_of (slots ob') L' = (if ord_quantity ord = n then without (orders_of (slots ob) L) oid
      else map (\<lambda>x. if ord_id x = oid then x\<lparr>ord_quantity := ord_quantity x - n\<rparr> else x) (orders_of (slots ob) L))"
proof -
  have i: "i \<in> set L" "i \<in> arena (slots ob)" using core_index(2) [OF core] lk core_live [OF core] by auto
  obtain lv where lv: "level_map (books ob) (order_key ord) = Some lv"
    using live_has_level [OF core i(1)] by (auto simp: ord)
  define ob1 where "ob1 = (store_level ob ord (lv\<lparr>lv_total := lv_total lv - n\<rparr>))\<lparr>slots :=
    supd (slots ob) i (\<lambda>s. s\<lparr>sl_order := ord\<lparr>ord_quantity := ord_quantity ord - n\<rparr>\<rparr>)\<rparr>"
  let ?f = "\<lambda>x. if ord_id x = oid then x\<lparr>ord_quantity := ord_quantity x - n\<rparr> else x"
  have c1: "book_core ob1 L F" "orders_of (slots ob1) L = map ?f (orders_of (slots ob) L)"
    using reduce_core [OF core lk ord n(2) lv ob1_def] by auto
  have run: "reduce_order ob oid n = (if ord_quantity ord = n then remove_order ob1 oid else Inr (True, ob1))"
    using core lk i(2) n level_at_map [OF lv]
    by (auto simp: reduce_order_def Let_def ord [symmetric] ob1_def not_less [symmetric])
  have len: "length (slots ob1) = length (slots ob)" and lk1: "index_lookup (index ob1) oid = Some i"
    using lk by (simp_all add: ob1_def)
  have "without (map ?f os) oid = without os oid" for os by (rule without_map_same) auto
  with remove_core [OF c1(1) lk1] run c1 len show ?thesis by (cases "ord_quantity ord = n") auto
qed

lemma reduce_sim:
  assumes rep: "represents cap ob os"
  shows "\<exists>ob'. reduce_order ob oid n = Inr (fst (spec_reduce os oid n), ob') \<and> represents cap ob' (snd (spec_reduce os oid n))"
proof -
  obtain L F where core: "book_core ob L F" "os = orders_of (slots ob) L" "length (slots ob) = cap" "orders_ok cap os"
    and fo: "find_order os oid = map_option (\<lambda>i. sl_order (sat (slots ob) i)) (index_lookup (index ob) oid)"
    using represents_core [OF rep] by metis
  show ?thesis
  proof (cases "index_lookup (index ob) oid")
    case None
    with core fo rep show ?thesis by (simp add: reduce_order_def spec_reduce_def)
  next
    case (Some i)
    define ord where "ord = sl_order (sat (slots ob) i)"
    have ia: "i \<in> arena (slots ob)" using core_index(2) [OF core(1)] Some core_live [OF core(1)] by auto
    have fo': "find_order os oid = Some ord" using fo Some by (simp add: ord_def)
    show ?thesis
    proof (cases "n = 0 \<or> n > ord_quantity ord")
      case True
      with core(1) Some ia fo' rep show ?thesis
        by (auto simp: reduce_order_def spec_reduce_def ord_def Let_def)
    next
      case False
      then have n: "n \<noteq> 0" "n \<le> ord_quantity ord" by auto
      obtain ob' L' F' where r: "reduce_order ob oid n = Inr (True, ob')" "book_core ob' L' F'" "length (slots ob') = cap"
        "spec_reduce os oid n = (True, orders_of (slots ob') L')"
        using reduce_live [OF core(1) Some ord_def n] fo' n core(2,3) by (auto simp: spec_reduce_def not_less [symmetric])
      with representsI [OF r(2) refl r(3)] spec_reduce_ok [OF core(4), of oid n] show ?thesis by auto
    qed
  qed
qed

section \<open>Addition\<close>

text \<open>
  The level an order is linked to: the one found, or the fresh one. Its ends are those of the
  level's chain, and its total is the number of shares queued there.
\<close>

definition level_or_new :: "price_level option \<Rightarrow> price_level" where
  "level_or_new l = (case l of None \<Rightarrow> default_level | Some lv \<Rightarrow> lv)"

lemma level_or_new_chain:
  assumes "book_core ob L F" and "orders_ok cap (orders_of (slots ob) L)"
    and c: "c = chain (slots ob) L k" and lv: "lv = level_or_new (level_map (books ob) k)"
  shows "lv_head lv = hd (c @ [kInvalidSlot])" and "lv_tail lv = last (kInvalidSlot # c)"
    and "unat (lv_total lv) = shares_of (at_level (orders_of (slots ob) L) k)"
    and "lv_total lv = of_nat (shares_of (orders_of (slots ob) c))"
proof -
  have "lv_head lv = hd (c @ [kInvalidSlot]) \<and> lv_tail lv = last (kInvalidSlot # c) \<and>
      lv_total lv = of_nat (shares_of (orders_of (slots ob) c))"
    using level_of_chain [OF assms(1), of k] level_of_no_chain [OF assms(1), of k]
    by (cases "level_map (books ob) k") (simp_all add: c lv level_or_new_def default_level_def)
  moreover have "shares_of (at_level (orders_of (slots ob) L) k) \<le> 0xFFFFFFFF"
    using assms(2) by (simp add: orders_ok_def)
  ultimately show "lv_head lv = hd (c @ [kInvalidSlot])" "lv_tail lv = last (kInvalidSlot # c)"
    "unat (lv_total lv) = shares_of (at_level (orders_of (slots ob) L) k)"
    "lv_total lv = of_nat (shares_of (orders_of (slots ob) c))"
    by (simp_all add: c orders_of_chain unat_shares)
qed

lemma add_to_refused:
  assumes "map_sorted (side_lt (ord_side ord)) ls"
    and "0xFFFFFFFF < unat (lv_total (level_or_new (map_of ls (ord_price ord)))) + unat (ord_quantity ord)"
  shows "\<exists>ls'. add_to ob ls ord i = Inr (False, ob, ls') \<and> map_of ls' = map_of ls \<and> map_sorted (side_lt (ord_side ord)) ls'"
proof -
  let ?te = "try_emplace (side_lt (ord_side ord)) (ord_price ord) default_level ls"
  have "add_to ob ls ord i = Inr (False, ob, if snd ?te then map_erase (ord_price ord) (fst ?te) else fst ?te)"
    using assms(2) by (simp add: add_to_def Let_def split_beta map_of_try_emplace total_overflow level_or_new_def)
  then show ?thesis
    by - (intro exI conjI, assumption, rule map_of_undo_emplace, rule side_order.sorted_undo_emplace [OF assms(1)])
qed

lemma add_to_accepted:
  assumes "map_sorted (side_lt (ord_side ord)) ls" and lv: "lv = level_or_new (map_of ls (ord_price ord))"
    and "unat (lv_total lv) + unat (ord_quantity ord) \<le> 0xFFFFFFFF"
    and "set c \<subseteq> arena (slots ob)" and "i \<in> arena (slots ob)" and "length (slots ob) \<le> unat kInvalidSlot"
    and "lv_head lv = hd (c @ [kInvalidSlot])" and "lv_tail lv = last (kInvalidSlot # c)"
  shows "\<exists>ls'. add_to ob ls ord i = Inr (True, ob\<lparr>slots := linked (slots ob) c i\<rparr>, ls') \<and>
    map_of ls' = (map_of ls)(ord_price ord \<mapsto>
      \<lparr>lv_total = lv_total lv + ord_quantity ord, lv_head = hd (c @ [i]), lv_tail = i\<rparr>) \<and>
    map_sorted (side_lt (ord_side ord)) ls' \<and> ls' \<noteq> []"
proof -
  let ?lt = "side_lt (ord_side ord)"
  let ?te = "try_emplace ?lt (ord_price ord) default_level ls"
  have l: "link_at_tail ob (lv\<lparr>lv_total := lv_total lv + ord_quantity ord\<rparr>) i =
      Inr (ob\<lparr>slots := linked (slots ob) c i\<rparr>,
        \<lparr>lv_total = lv_total lv + ord_quantity ord, lv_head = hd (c @ [i]), lv_tail = i\<rparr>)"
    using link_at_tail_eq [of c ob i "lv\<lparr>lv_total := lv_total lv + ord_quantity ord\<rparr>"] assms(4-8) by (cases lv) simp
  have "map_of (fst ?te) = (map_of ls)(ord_price ord \<mapsto> lv)"
    by (simp add: map_of_try_emplace lv level_or_new_def)
  then have "add_to ob ls ord i = Inr (True, ob\<lparr>slots := linked (slots ob) c i\<rparr>,
      map_put ?lt (ord_price ord)
        \<lparr>lv_total = lv_total lv + ord_quantity ord, lv_head = hd (c @ [i]), lv_tail = i\<rparr> (fst ?te))"
    using assms(3) l by (simp add: add_to_def Let_def split_beta total_overflow)
  then show ?thesis
    using side_order.sorted_map_put [OF side_order.sorted_try_emplace [OF assms(1)]]
    by (auto simp: map_of_try_emplace fun_eq_iff)
qed

text \<open>The slots, free list and index after the first free slot \<open>i\<close> was filled with an order.\<close>

definition slot_filled ::
  "order_book \<Rightarrow> slot_index list \<Rightarrow> slot_index list \<Rightarrow> slot_index \<Rightarrow> order \<Rightarrow> slot list \<Rightarrow> slot_index \<Rightarrow> flat_index \<Rightarrow> bool" where
  "slot_filled ob L F i ord ss h idx \<longleftrightarrow>
     length ss = length (slots ob) \<and> (\<forall>j. j \<noteq> i \<longrightarrow> sat ss j = sat (slots ob) j) \<and> sl_order (sat ss i) = ord \<and>
     fseg ss F h \<and> index_rep idx ss (L @ [i]) \<and>
     (\<exists>idx'. index_erase idx (ord_id ord) = Inr (True, idx') \<and> index_rep idx' ss L)"

lemma index_insert_rep:
  assumes rep: "index_rep idx ss L" and fresh: "index_lookup idx oid = None"
    and room: "idx_size idx * 10 < length (entries idx) * 7"
    and ss': "length ss' = length ss" "\<And>j. j \<in> set L \<Longrightarrow> sat ss' j = sat ss j" "ord_id (sl_order (sat ss' i)) = oid"
    and i: "i \<notin> set L"
  shows "\<exists>idx'. index_insert idx oid i = Inr (True, idx') \<and> index_rep idx' ss' (L @ [i]) \<and>
    (\<exists>idx''. index_erase idx' oid = Inr (True, idx'') \<and> index_rep idx'' ss' L)"
proof -
  have inv: "index_inv idx" using rep by (simp add: index_rep_def)
  from flat.insert_fresh [OF inv fresh room, of i]
  obtain idx' where idx': "index_insert idx oid i = Inr (True, idx')" "index_inv idx'"
    "index_lookup idx' = (index_lookup idx)(oid \<mapsto> i)" "length (entries idx') = length (entries idx)" by blast
  have lk: "index_lookup idx x = Some j \<longleftrightarrow> j \<in> set L \<and> ord_id (sl_order (sat ss' j)) = x" for x j
    using rep ss'(2) by (auto simp: index_rep_def)
  have new: "\<not> (j \<in> set L \<and> ord_id (sl_order (sat ss' j)) = oid)" for j using lk [of oid j] fresh by simp
  have "index_lookup idx' x = Some j \<longleftrightarrow> j \<in> set (L @ [i]) \<and> ord_id (sl_order (sat ss' j)) = x" for x j
    using lk [of x j] new [of j] ss'(3) i by (auto simp: idx'(3))
  then have rep': "index_rep idx' ss' (L @ [i])" using rep idx'(2,4) ss'(1) by (simp add: index_rep_def)
  obtain idx'' where "index_erase idx' oid = Inr (True, idx'')" "index_inv idx''"
    "index_lookup idx'' = index_lookup idx" "length (entries idx'') = length (entries idx)"
    using flat.insert_erase [OF inv fresh idx'(1)] by blast
  moreover from this have "index_rep idx'' ss' L" using rep ss'(1) lk by (simp add: index_rep_def)
  ultimately show ?thesis using idx'(1) rep' by blast
qed

lemma fill_slot:
  assumes core: "book_core ob L (i # F)" and fresh: "index_lookup (index ob) (ord_id ord) = None"
  shows "\<exists>ob0 h idx ss. allocate_slot ob = Inr (i, ob0) \<and>
    slot_upd ob0 i (\<lambda>s. s\<lparr>sl_order := ord\<rparr>) = Inr (ob\<lparr>slots := ss, free_head := h\<rparr>) \<and>
    index_insert (index ob) (ord_id ord) i = Inr (True, idx) \<and> slot_filled ob L F i ord ss h idx"
proof -
  note core' = core [unfolded book_core_def]
  have i: "i \<in> arena (slots ob)" "i \<notin> set L" "i \<notin> set F" using core' by auto
  obtain h where h: "allocate_slot ob = Inr (i, ob\<lparr>slots := allocated (slots ob) i, free_head := h\<rparr>)" "fseg (slots ob) F h"
    using allocate_some [of ob i F] core' i by auto
  define ss where "ss = supd (allocated (slots ob) i) i (\<lambda>s. s\<lparr>sl_order := ord\<rparr>)"
  have s: "length ss = length (slots ob)" "\<And>j. j \<noteq> i \<Longrightarrow> sat ss j = sat (slots ob) j" "sl_order (sat ss i) = ord"
    using i(1) by (simp_all add: ss_def allocated_def sat_supd)
  have "sat ss x = sat (slots ob) x" if "x \<in> set F" for x using that i(3) by (intro s(2)) auto
  then have f: "fseg ss F h" using h(2) fseg_cong [of F ss "slots ob" h] by simp
  have "sat ss j = sat (slots ob) j" if "j \<in> set L" for j using that i(2) by (intro s(2)) auto
  then obtain idx where "index_insert (index ob) (ord_id ord) i = Inr (True, idx)" "index_rep idx ss (L @ [i])"
    "\<exists>idx'. index_erase idx (ord_id ord) = Inr (True, idx') \<and> index_rep idx' ss L"
    using index_insert_rep [OF _ fresh core_room [OF core] s(1) _ _ i(2)] core' s(3) by blast
  moreover have "slot_upd (ob\<lparr>slots := allocated (slots ob) i, free_head := h\<rparr>) i (\<lambda>s. s\<lparr>sl_order := ord\<rparr>) =
      Inr (ob\<lparr>slots := ss, free_head := h\<rparr>)"
    using i(1) by (cases ob) (simp add: ss_def allocated_def)
  ultimately show ?thesis
    using h s f unfolding slot_filled_def by blast
qed

lemma book_add_filled:
  assumes core: "book_core ob L (i # F)" and ord: "ord = add_order e" "ord_id ord \<noteq> 0" "ord_quantity ord \<noteq> 0"
    and fresh: "index_lookup (index ob) (ord_id ord) = None"
  obtains h idx ss where "slot_filled ob L F i ord ss h idx"
    "book_add ob e =
      rbind (add_to (ob\<lparr>slots := ss, free_head := h, index := idx\<rparr>)
             (side_levels (ord_side ord) (get_book ob (ord_symbol ord))) ord i) (\<lambda>(added, ob, ls).
        let ob = store_levels ob (ord_symbol ord) (ord_side ord) ls in
        if added then Inr (True, ob)
        else let ob = drop_empty_book ob (ord_symbol ord) in
          rbind (index_erase (index ob) (ord_id ord)) (\<lambda>(_, idx).
          rbind (release_slot (ob\<lparr>index := idx\<rparr>) i) (\<lambda>ob. Inr (False, ob))))"
proof -
  obtain ob0 h idx ss where al: "allocate_slot ob = Inr (i, ob0)"
    "slot_upd ob0 i (\<lambda>s. s\<lparr>sl_order := ord\<rparr>) = Inr (ob\<lparr>slots := ss, free_head := h\<rparr>)"
    "index_insert (index ob) (ord_id ord) i = Inr (True, idx)" "slot_filled ob L F i ord ss h idx"
    using fill_slot [OF core fresh] by blast
  have "i \<noteq> kInvalidSlot" using core arena_valid [of "slots ob" i] by (auto simp: book_core_def)
  have "book_add ob e =
      rbind (add_to (ob\<lparr>slots := ss, free_head := h, index := idx\<rparr>)
             (side_levels (ord_side ord) (get_book ob (ord_symbol ord))) ord i) (\<lambda>(added, ob, ls).
        let ob = store_levels ob (ord_symbol ord) (ord_side ord) ls in
        if added then Inr (True, ob)
        else let ob = drop_empty_book ob (ord_symbol ord) in
          rbind (index_erase (index ob) (ord_id ord)) (\<lambda>(_, idx).
          rbind (release_slot (ob\<lparr>index := idx\<rparr>) i) (\<lambda>ob. Inr (False, ob))))"
    using core ord(2,3) fresh al \<open>i \<noteq> kInvalidSlot\<close>
    by (simp add: book_add_def Let_def ord(1) [symmetric] get_book_def)
  with al(4) that show thesis by blast
qed

lemma add_accepted:
  assumes core: "book_core ob L (i # F)" and ok: "orders_ok cap (orders_of (slots ob) L)"
    and filled: "slot_filled ob L F i ord ss h idx"
    and room: "shares_of (at_level (orders_of (slots ob) L) (order_key ord)) + unat (ord_quantity ord) \<le> 0xFFFFFFFF"
    and ob1: "ob1 = ob\<lparr>slots := ss, free_head := h, index := idx\<rparr>"
  shows "\<exists>ob2 ls. add_to ob1 (side_levels (ord_side ord) (get_book ob (ord_symbol ord))) ord i = Inr (True, ob2, ls) \<and>
    book_core (store_levels ob2 (ord_symbol ord) (ord_side ord) ls) (L @ [i]) F \<and>
    orders_of (slots ob2) (L @ [i]) = orders_of (slots ob) L @ [ord] \<and> length (slots ob2) = length (slots ob)"
proof -
  note core' = core [unfolded book_core_def] and fl = filled [unfolded slot_filled_def]
  define k c lv where "k = order_key ord" and "c = chain (slots ob) L k" and "lv = level_or_new (level_map (books ob) k)"
  have i: "i \<in> arena ss" "i \<notin> set L" "i \<notin> set F" using core' fl by (auto simp: arena_def)
  have same: "sat ss j = sat (slots ob) j" if "j \<in> set L \<union> set F" for j
    using that fl core' by (metis Un_iff distinct.simps(2) distinct_append disjoint_iff list.set_intros(1))
  have cL: "set c \<subseteq> set L" using chain_subset by (simp add: c_def)
  have a: "set (L @ [i]) \<subseteq> arena ss" "set c \<subseteq> arena ss" "length ss \<le> unat kInvalidSlot"
    using core' fl cL i(1) by (auto simp: arena_def)
  note lvc = level_or_new_chain [OF core ok c_def lv_def]
  have chs: "chain ss L k = c" unfolding c_def using same by (intro chain_cong) simp
  have os: "orders_of ss c = orders_of (slots ob) c" "orders_of ss L = orders_of (slots ob) L"
    using same cL by (auto intro!: orders_of_cong)
  have agree: "agree_on (set L) (slots ob) ss" using same by (simp add: agree_on_def)
  have lvs: "levels_of ss L = level_map (books ob)" using core' same by (simp add: levels_of_cong [of L ss "slots ob"])
  let ?lv = "\<lparr>lv_total = lv_total lv + ord_quantity ord, lv_head = hd (c @ [i]), lv_tail = i\<rparr>"
  have q: "queues_ok (linked ss c i) (L @ [i])" "levels_of (linked ss c i) (L @ [i]) = (level_map (books ob))(k \<mapsto> ?lv)"
    using queues_append [of ss L i k c] queues_ok_cong [OF agree] core' a(1) i(2) fl chs
    by (simp_all add: k_def os lvs lvc(4))
  have srt: "map_sorted (side_lt (ord_side ord)) (side_levels (ord_side ord) (get_book ob (ord_symbol ord)))"
    using core' get_book_sorted by (simp add: books_ok_def)
  have lvm: "lv = level_or_new (map_of (side_levels (ord_side ord) (get_book ob (ord_symbol ord))) (ord_price ord))"
    by (simp add: lv_def k_def order_key_def get_book_level del: level_map.simps)
  obtain ls where ls: "add_to ob1 (side_levels (ord_side ord) (get_book ob (ord_symbol ord))) ord i =
      Inr (True, ob1\<lparr>slots := linked ss c i\<rparr>, ls)"
    "map_of ls = (map_of (side_levels (ord_side ord) (get_book ob (ord_symbol ord))))(ord_price ord \<mapsto> ?lv)"
    "map_sorted (side_lt (ord_side ord)) ls" "ls \<noteq> []"
    using add_to_accepted [OF srt lvm, of c ob1 i] room lvc a i(1) by (auto simp: ob1 k_def)
  define ob2 where "ob2 = ob1\<lparr>slots := linked ss c i\<rparr>"
  have gb: "get_book ob2 sy = get_book ob sy" "books ob2 = books ob" for sy by (simp_all add: ob2_def ob1 get_book_def)
  have bk: "books_ok (books (store_levels ob2 (ord_symbol ord) (ord_side ord) ls))"
    "level_map (books (store_levels ob2 (ord_symbol ord) (ord_side ord) ls)) = (level_map (books ob))(k \<mapsto> ?lv)"
    using books_ok_store [of ob2 "ord_side ord" ls] level_map_store_upd [of ls "ord_side ord" ob2 "ord_symbol ord"] core' ls gb
    by (simp_all add: k_def order_key_def)
  have fs: "fseg (linked ss c i) F h" using fl fseg_cong [of F "linked ss c i" ss] linked_slot(2) [OF a(2) i(1)] by simp
  have ix: "index_rep idx (linked ss c i) (L @ [i])"
    using fl linked_slot(1) [OF a(2) i(1)] by (simp add: index_rep_def)
  have "book_core (store_levels ob2 (ord_symbol ord) (ord_side ord) ls) (L @ [i]) F"
    using core' q bk fs ix i fl by (auto simp: book_core_def ob2_def ob1 arena_def)
  moreover have "orders_of (linked ss c i) (L @ [i]) = orders_of (slots ob) L @ [ord]"
    using orders_of_cong [of _ "linked ss c i" ss] linked_slot(1) [OF a(2) i(1)] os(2) fl by simp
  ultimately show ?thesis using ls(1) fl by (intro exI [of _ ob2] exI [of _ ls]) (simp add: ob2_def)
qed

text \<open>
  A slot that was filled is given back: the index entry is erased, the slot released. \<open>bs\<close> are the
  books by then, with the levels they had before.
\<close>

lemma undo_fill:
  assumes core: "book_core ob L (i # F)" and filled: "slot_filled ob L F i ord ss h idx"
    and bs: "books_ok bs" "level_map bs = level_map (books ob)"
  shows "\<exists>idx' ss'. index_erase idx (ord_id ord) = Inr (True, idx') \<and>
    (\<forall>ob3. slots ob3 = ss \<and> free_head ob3 = h \<longrightarrow>
       release_slot (ob3\<lparr>index := idx'\<rparr>) i = Inr (ob3\<lparr>index := idx', slots := ss', free_head := i\<rparr>)) \<and>
    book_core \<lparr>slots = ss', free_head = i, index = idx', books = bs\<rparr> L (i # F) \<and>
    orders_of ss' L = orders_of (slots ob) L \<and> length ss' = length (slots ob)"
proof -
  note core' = core [unfolded book_core_def] and fl = filled [unfolded slot_filled_def]
  have i: "i \<in> arena ss" "i \<notin> set L" "i \<notin> set F" using core' fl by (auto simp: arena_def)
  have same: "sat ss j = sat (slots ob) j" if "j \<in> set L" for j using that fl i(2) by metis
  obtain idx' where er: "index_erase idx (ord_id ord) = Inr (True, idx')" "index_rep idx' ss L" using fl by blast
  define ss' where "ss' = released ss i h"
  have rel: "release_slot (ob3\<lparr>index := idx'\<rparr>) i = Inr (ob3\<lparr>index := idx', slots := ss', free_head := i\<rparr>)"
    if "slots ob3 = ss" "free_head ob3 = h" for ob3
    using release_eq [of i "ob3\<lparr>index := idx'\<rparr>"] i(1) that by (simp add: ss'_def)
  have s': "sat ss' j = sat (slots ob) j" if "j \<in> set L" for j
  proof -
    have "j \<noteq> i" using that i(2) by auto
    then show ?thesis using i(1) same [OF that] by (simp add: ss'_def released_def sat_supd)
  qed
  have fs: "fseg ss' (i # F) i" using fseg_released [of ss F h i] fl i by (simp add: ss'_def)
  have agree: "agree_on (set L) (slots ob) ss'" using s' by (simp add: agree_on_def)
  have len: "length ss' = length (slots ob)" using fl by (simp add: ss'_def released_def)
  have "index_rep idx' ss' L" using er(2) same s' len fl by (auto simp: index_rep_def)
  then have "book_core \<lparr>slots = ss', free_head = i, index = idx', books = bs\<rparr> L (i # F)"
    using core' bs fs len queues_ok_cong [OF agree] levels_of_cong [of L ss' "slots ob"] s'
    by (simp add: book_core_def arena_def)
  moreover have "orders_of ss' L = orders_of (slots ob) L" using s' by (intro orders_of_cong) simp
  ultimately show ?thesis using er(1) rel len by blast
qed

text \<open>A refused addition undoes the level, the book, the index entry and the slot.\<close>

lemma add_refused:
  assumes core: "book_core ob L (i # F)" and ok: "orders_ok cap (orders_of (slots ob) L)"
    and filled: "slot_filled ob L F i ord ss h idx"
    and full: "shares_of (at_level (orders_of (slots ob) L) (order_key ord)) + unat (ord_quantity ord) > 0xFFFFFFFF"
    and ob1: "ob1 = ob\<lparr>slots := ss, free_head := h, index := idx\<rparr>"
  shows "\<exists>ls idx' ob4. add_to ob1 (side_levels (ord_side ord) (get_book ob (ord_symbol ord))) ord i = Inr (False, ob1, ls) \<and>
    index_erase idx (ord_id ord) = Inr (True, idx') \<and>
    release_slot ((drop_empty_book (store_levels ob1 (ord_symbol ord) (ord_side ord) ls) (ord_symbol ord))\<lparr>index := idx'\<rparr>) i =
      Inr ob4 \<and>
    book_core ob4 L (i # F) \<and> orders_of (slots ob4) L = orders_of (slots ob) L \<and> length (slots ob4) = length (slots ob)"
proof -
  note core' = core [unfolded book_core_def]
  let ?ls = "side_levels (ord_side ord) (get_book ob (ord_symbol ord))"
  have srt: "map_sorted (side_lt (ord_side ord)) ?ls"
    using core' get_book_sorted by (simp add: books_ok_def)
  have "level_or_new (map_of ?ls (ord_price ord)) = level_or_new (level_map (books ob) (order_key ord))"
    by (simp add: order_key_def get_book_level del: level_map.simps)
  with full level_or_new_chain(3) [OF core ok refl refl, of "order_key ord"]
  obtain ls where ls: "add_to ob1 ?ls ord i = Inr (False, ob1, ls)" "map_of ls = map_of ?ls"
    "map_sorted (side_lt (ord_side ord)) ls"
    using add_to_refused [OF srt, of ob1 i] by auto
  define ob3 where "ob3 = drop_empty_book (store_levels ob1 (ord_symbol ord) (ord_side ord) ls) (ord_symbol ord)"
  have gb: "get_book ob1 sy = get_book ob sy" "books ob1 = books ob" for sy by (simp_all add: ob1 get_book_def)
  have "books_ok (books ob3)" "level_map (books ob3) = level_map (books ob)"
    using books_ok_store_drop [of ob1 "ord_side ord" ls] level_map_store_same [of ls "ord_side ord" ob1 "ord_symbol ord"] core' ls gb
    by (simp_all add: ob3_def)
  from undo_fill [OF core filled this] obtain idx' ss' where u: "index_erase idx (ord_id ord) = Inr (True, idx')"
    "\<And>ob3. slots ob3 = ss \<Longrightarrow> free_head ob3 = h \<Longrightarrow>
       release_slot (ob3\<lparr>index := idx'\<rparr>) i = Inr (ob3\<lparr>index := idx', slots := ss', free_head := i\<rparr>)"
    "book_core \<lparr>slots = ss', free_head = i, index = idx', books = books ob3\<rparr> L (i # F)"
    "orders_of ss' L = orders_of (slots ob) L" "length ss' = length (slots ob)" by blast
  define ob4 where "ob4 = ob3\<lparr>index := idx', slots := ss', free_head := i\<rparr>"
  have "release_slot (ob3\<lparr>index := idx'\<rparr>) i = Inr ob4" using u(2) [of ob3] by (simp add: ob4_def ob3_def ob1)
  moreover have "ob4 = \<lparr>slots = ss', free_head = i, index = idx', books = books ob3\<rparr>" by (cases ob3) (simp add: ob4_def)
  ultimately show ?thesis using ls(1) u by (intro exI [of _ ls] exI [of _ idx'] exI [of _ ob4]) (simp add: ob3_def)
qed

lemma add_sim:
  assumes rep: "represents cap ob os"
  shows "\<exists>ob'. book_add ob e = Inr (fst (spec_add cap os (add_order e)), ob') \<and>
    represents cap ob' (snd (spec_add cap os (add_order e)))"
proof -
  obtain L F where core: "book_core ob L F" "os = orders_of (slots ob) L" "length (slots ob) = cap" "orders_ok cap os"
    and fo: "\<And>oid. find_order os oid = map_option (\<lambda>i. sl_order (sat (slots ob) i)) (index_lookup (index ob) oid)"
    using represents_core [OF rep] by metis
  define ord where "ord = add_order e"
  have len: "length os + length F = cap" using core_length [OF core(1)] core(2,3) by (simp add: orders_of_def)
  have sp: "orders_ok cap (snd (spec_add cap os ord))" using spec_add_ok [OF core(4)] .
  show ?thesis
  proof (cases "ord_id ord = 0 \<or> ord_quantity ord = 0 \<or> index_lookup (index ob) (ord_id ord) \<noteq> None \<or> F = []")
    case True
    then have "spec_add cap os ord = (False, os)" using fo [of "ord_id ord"] len by (auto simp: spec_add_def)
    moreover have "F = [] \<Longrightarrow> allocate_slot ob = Inr (kInvalidSlot, ob)"
      using core(1) by (intro allocate_none) (auto simp: book_core_def)
    then have "book_add ob e = Inr (False, ob)"
      using True core(1) by (auto simp: book_add_def Let_def ord_def [symmetric])
    ultimately show ?thesis using rep by (simp add: ord_def)
  next
    case False
    then obtain i F' where F: "F = i # F'" by (cases F) auto
    note core1 = core(1) [unfolded F]
    have fresh: "index_lookup (index ob) (ord_id ord) = None" "ord_id ord \<noteq> 0" "ord_quantity ord \<noteq> 0"
      using False by auto
    obtain h idx ss where fl: "slot_filled ob L F' i ord ss h idx" and run: "book_add ob e =
      rbind (add_to (ob\<lparr>slots := ss, free_head := h, index := idx\<rparr>)
             (side_levels (ord_side ord) (get_book ob (ord_symbol ord))) ord i) (\<lambda>(added, ob, ls).
        let ob = store_levels ob (ord_symbol ord) (ord_side ord) ls in
        if added then Inr (True, ob)
        else let ob = drop_empty_book ob (ord_symbol ord) in
          rbind (index_erase (index ob) (ord_id ord)) (\<lambda>(_, idx).
          rbind (release_slot (ob\<lparr>index := idx\<rparr>) i) (\<lambda>ob. Inr (False, ob))))"
      by (rule book_add_filled [OF core1 ord_def fresh(2,3,1)])
    have spec: "spec_add cap os ord = (if shares_of (at_level os (order_key ord)) + unat (ord_quantity ord) > 0xFFFFFFFF
        then (False, os) else (True, os @ [ord]))"
      using fresh fo [of "ord_id ord"] len F by (simp add: spec_add_def)
    show ?thesis
    proof (cases "shares_of (at_level os (order_key ord)) + unat (ord_quantity ord) > 0xFFFFFFFF")
      case True
      from add_refused [OF core1 core(4) [unfolded core(2)] fl True [unfolded core(2)] refl] run core(2,3) sp spec True
      show ?thesis by (auto simp: Let_def ord_def intro: representsI)
    next
      case False
      then have "shares_of (at_level os (order_key ord)) + unat (ord_quantity ord) \<le> 0xFFFFFFFF" by simp
      from add_accepted [OF core1 core(4) [unfolded core(2)] fl this [unfolded core(2)] refl] run core(2,3) sp spec False
      show ?thesis by (auto simp: Let_def ord_def intro!: representsI [where L = "L @ [i]"])
    qed
  qed
qed

section \<open>Replacement\<close>

lemma index_rekey_rep:
  assumes core: "book_core ob L F" and old: "index_lookup (index ob) old = Some i"
    and new: "index_lookup (index ob) new = None"
    and ss': "length ss' = length (slots ob)" "\<And>j. j \<noteq> i \<Longrightarrow> sl_order (sat ss' j) = sl_order (sat (slots ob) j)"
      "ord_id (sl_order (sat ss' i)) = new"
  shows "\<exists>idx idx'. index_insert (index ob) new i = Inr (True, idx) \<and> index_erase idx old = Inr (True, idx') \<and>
    index_rep idx' ss' (filter (\<lambda>j. j \<noteq> i) L @ [i])"
proof -
  from flat.rekey [OF core_index(1) [OF core] old new core_room [OF core]]
  obtain idx idx' where ix: "index_insert (index ob) new i = Inr (True, idx)" "index_erase idx old = Inr (True, idx')"
    "index_inv idx'" "index_lookup idx' = (index_lookup (index ob))(new \<mapsto> i, old := None)"
    "length (entries idx') = length (entries (index ob))" by blast
  note lk = core_index(2) [OF core]
  have ne: "new \<noteq> old" using old new by auto
  have "index_lookup idx' x = Some y \<longleftrightarrow>
      y \<in> set (filter (\<lambda>j. j \<noteq> i) L @ [i]) \<and> ord_id (sl_order (sat ss' y)) = x" for x y
  proof (cases "y = i")
    case True
    then show ?thesis using lk [of x i] lk [of old i] old ne ss'(3) by (auto simp: ix(4))
  next
    case False
    then have "\<not> (y \<in> set L \<and> ord_id (sl_order (sat (slots ob) y)) = old)" using lk [of old y] old by simp
    then show ?thesis using False lk [of x y] lk [of new y] new ss'(2) [of y] by (auto simp: ix(4))
  qed
  then have "index_rep idx' ss' (filter (\<lambda>j. j \<noteq> i) L @ [i])"
    using core ix(3,5) ss'(1) by (simp add: book_core_def index_rep_def)
  with ix(1,2) show ?thesis by blast
qed

text \<open>
  The arena, the index and the orders after a replacement: \<open>ss3\<close> are the slots, \<open>c'\<close> the queue
  the order is appended to.
\<close>

lemma replace_arena:
  assumes core: "book_core ob L F" and old: "index_lookup (index ob) oid = Some i"
    and new: "index_lookup (index ob) (ord_id ord) = None"
    and k: "k = order_key (sl_order (sat (slots ob) i))" and c: "chain (slots ob) L k = ys @ i # zs"
    and c': "c' = (if order_key ord = k then ys @ zs else chain (slots ob) L (order_key ord))"
    and ss2: "ss2 = supd (unlinked (slots ob) ys i zs) i (\<lambda>s. s\<lparr>sl_order := ord\<rparr>)"
    and L': "L' = filter (\<lambda>j. j \<noteq> i) L @ [i]"
  shows "\<exists>idx idx'. index_insert (index ob) (ord_id ord) i = Inr (True, idx) \<and> index_erase idx oid = Inr (True, idx') \<and>
    (\<forall>bs. books_ok bs \<and> level_map bs = (level_map (books ob))(k := level_of (slots ob) (ys @ zs), order_key ord \<mapsto>
        \<lparr>lv_total = of_nat (shares_of (orders_of (slots ob) c') + unat (ord_quantity ord)),
         lv_head = hd (c' @ [i]), lv_tail = i\<rparr>) \<longrightarrow>
      book_core (ob\<lparr>slots := linked ss2 c' i, index := idx', books := bs\<rparr>) L' F) \<and>
    orders_of (linked ss2 c' i) L' = without (orders_of (slots ob) L) oid @ [ord] \<and>
    set c' \<subseteq> arena ss2 \<and> i \<notin> set c'"
proof -
  define ss where "ss = slots ob"
  note core' = core [unfolded book_core_def, folded ss_def]
  have i: "i \<in> set L" "i \<in> arena ss" "distinct L" "set L \<subseteq> arena ss" "i \<notin> set F"
    using core' core_index(2) [OF core] old by auto
  note k' = k [folded ss_def] and cs = c [folded ss_def] and cs' = c' [folded ss_def] and ss2' = ss2 [folded ss_def]
  have a: "set (ys @ i # zs) \<subseteq> arena ss" "distinct (ys @ i # zs)" "set (ys @ i # zs) \<subseteq> set L"
    using i(4) chain_subset [of ss L k] distinct_chain [OF i(3), of ss k] unfolding cs by auto
  have ar: "arena ss2 = arena ss" "length ss2 = length ss" by (simp_all add: ss2')
  have ca: "set c' \<subseteq> arena ss2" "i \<notin> set c'"
    using a i(4) chain_subset [of ss L "order_key ord"] k' unfolding ar cs' by (auto simp: chain_def)
  have i2: "i \<in> arena ss2" using i(2) ar by simp
  have s2: "sl_order (sat ss2 j) = (if j = i then ord else sl_order (sat ss j))"
    "sl_next_free (sat ss2 j) = sl_next_free (sat ss j)" for j
    using unlinked_slot [OF a(1)] i(2) by (simp_all add: ss2' sat_supd)
  define ss3 where "ss3 = linked ss2 c' i"
  have s3: "sl_order (sat ss3 j) = (if j = i then ord else sl_order (sat ss j))"
    "sl_next_free (sat ss3 j) = sl_next_free (sat ss j)" "length ss3 = length ss" "arena ss3 = arena ss" for j
    using linked_slot [OF ca(1) i2] s2 ar by (simp_all add: ss3_def)
  obtain idx idx' where ix: "index_insert (index ob) (ord_id ord) i = Inr (True, idx)" "index_erase idx oid = Inr (True, idx')"
    "index_rep idx' ss3 L'"
    using index_rekey_rep [OF core old new, of ss3] s3 by (auto simp: L' ss_def)
  have q: "queues_ok ss3 L'" "levels_of ss3 L' = (levels_of ss L)(k := level_of ss (ys @ zs), order_key ord \<mapsto>
        \<lparr>lv_total = of_nat (shares_of (orders_of ss c') + unat (ord_quantity ord)), lv_head = hd (c' @ [i]), lv_tail = i\<rparr>)"
    using queues_move [OF _ i(3,4,1) k' cs ss2' refl cs'] core' by (simp_all add: ss3_def L')
  have fs: "fseg ss3 F (free_head ob)" using core' fseg_cong [of F ss3 ss] s3(2) by simp
  have "book_core (ob\<lparr>slots := ss3, index := idx', books := bs\<rparr>) L' F"
    if "books_ok bs" "level_map bs = levels_of ss3 L'" for bs
    using that core' q(1) fs ix(3) s3(3,4) i by (auto simp: book_core_def L')
  moreover have "orders_of ss3 (filter (\<lambda>j. j \<noteq> i) L) = orders_of ss (filter (\<lambda>j. j \<noteq> i) L)"
    using s3(1) by (intro orders_of_cong) simp
  then have "orders_of ss3 L' = without (orders_of ss L) oid @ [ord]"
    using orders_without [OF core old] s3(1) [of i] by (simp add: L' ss_def)
  ultimately show ?thesis
    using ix(1,2) q(2) core' ca unfolding ss3_def ss_def by auto
qed

lemma u32_to_u64: "(ucast (x :: u32) :: u64) = of_nat (unat x)"
  by (rule of_nat_unat [symmetric])

lemma u64_to_u32: "(ucast (x :: u64) :: u32) = of_nat (unat x)"
  by (rule of_nat_unat [symmetric])

lemma without_old_eq:
  assumes "t + unat oq \<le> 0xFFFFFFFF"
  shows "(ucast (of_nat (t + unat oq) :: quantity) :: u64) - ucast (oq :: quantity) = of_nat t"
  unfolding u32_to_u64 unat_shares [OF assms] by simp

lemma new_total:
  assumes "t \<le> 0xFFFFFFFF"
  shows "of_nat t + (ucast (q :: quantity) :: u64) > 0xFFFFFFFF \<longleftrightarrow> t + unat q > 0xFFFFFFFF"
    and "(ucast (of_nat t + (ucast q :: u64)) :: quantity) = of_nat (t + unat q)"
proof -
  have s: "of_nat t + (ucast q :: u64) = of_nat (t + unat q)" unfolding u32_to_u64 by simp
  have u: "unat (of_nat (t + unat q) :: u64) = t + unat q"
    using assms unat_u32_less [of q] by (simp add: unat_of_nat del: of_nat_add)
  show "of_nat t + (ucast q :: u64) > 0xFFFFFFFF \<longleftrightarrow> t + unat q > 0xFFFFFFFF"
    unfolding s word_less_nat_alt u by simp
  show "(ucast (of_nat t + (ucast q :: u64)) :: quantity) = of_nat (t + unat q)"
    unfolding s u64_to_u32 u ..
qed

text \<open>What the two branches of the replacement compute.\<close>

lemma replace_same_eq:
  assumes core: "book_core ob L F" and i: "i \<in> set L" and old: "old = sl_order (sat (slots ob) i)"
    and c: "chain (slots ob) L (order_key old) = ys @ i # zs"
    and t: "t = shares_of (orders_of (slots ob) (ys @ zs))" "t + unat (ord_quantity old) \<le> 0xFFFFFFFF"
    and ls: "map_of ls (ord_price old) = level_map (books ob) (order_key old)"
    and ord: "ord = old\<lparr>ord_id := new_order_id e, ord_quantity := new_quantity e\<rparr>"
    and ss2: "ss2 = supd (unlinked (slots ob) ys i zs) i (\<lambda>s. s\<lparr>sl_order := ord\<rparr>)"
    and ix: "index_insert (index ob) (new_order_id e) i = Inr (True, idx)" "index_erase idx (old_order_id e) = Inr (True, idx')"
  shows "replace_same ob ls i old e =
    (if t + unat (new_quantity e) > 0xFFFFFFFF then Inr (False, ob, ls)
     else Inr (True, ob\<lparr>slots := linked ss2 (ys @ zs) i, index := idx'\<rparr>,
       map_put (side_lt (ord_side old)) (ord_price old)
         \<lparr>lv_total = of_nat (t + unat (new_quantity e)), lv_head = hd (ys @ zs @ [i]), lv_tail = i\<rparr> ls))"
proof -
  note core' = core [unfolded book_core_def]
  note q = live_queue [OF core c]
  define lv where "lv = \<lparr>lv_total = of_nat (t + unat (ord_quantity old)), lv_head = hd (ys @ i # zs), lv_tail = last (ys @ i # zs)\<rparr>"
  have lv: "map_of ls (ord_price old) = Some lv"
    using live_level [OF core i, of "order_key old" ys zs] c ls t(1) by (simp add: old lv_def add_ac)
  have un: "unlink (ob\<lparr>index := idx\<rparr>) lv i = Inr (ob\<lparr>index := idx, slots := unlinked (slots ob) ys i zs\<rparr>,
      lv\<lparr>lv_head := hd (ys @ zs @ [kInvalidSlot]), lv_tail := last (kInvalidSlot # ys @ zs)\<rparr>)"
    using unlink_live [OF core c, of "ob\<lparr>index := idx\<rparr>" lv] by (simp add: lv_def)
  have up: "slot_upd (ob\<lparr>index := idx, slots := unlinked (slots ob) ys i zs\<rparr>) i (\<lambda>s. s\<lparr>sl_order := (sl_order s)\<lparr>
      ord_id := new_order_id e, ord_quantity := new_quantity e\<rparr>\<rparr>) = Inr (ob\<lparr>index := idx, slots := ss2\<rparr>)"
    using refill_live [OF core c, of "ob\<lparr>index := idx\<rparr>"] by (simp add: ss2 ord old)
  have li: "link_at_tail (ob\<lparr>index := idx, slots := ss2\<rparr>)
      \<lparr>lv_total = n, lv_head = hd (ys @ zs @ [kInvalidSlot]), lv_tail = last (kInvalidSlot # ys @ zs)\<rparr> i =
      Inr (ob\<lparr>index := idx, slots := linked ss2 (ys @ zs) i\<rparr>,
        \<lparr>lv_total = n, lv_head = hd (ys @ zs @ [i]), lv_tail = i\<rparr>)" for n
    using link_at_tail_eq [of "ys @ zs" "ob\<lparr>index := idx, slots := ss2\<rparr>" i] q(1) core' by (simp add: ss2)
  have tt: "t \<le> 0xFFFFFFFF" using t(2) by simp
  note nt = new_total [OF tt, of "new_quantity e"] and wo = without_old_eq [OF t(2)]
  show ?thesis
    using lv un up li [of "of_nat (t + unat (new_quantity e))"] ix wo nt
    unfolding replace_same_def by (simp add: Let_def lv_def)
qed

lemma replace_move_refused:
  assumes "map_sorted (side_lt (ord_side old)) ls"
    and "0xFFFFFFFF < unat (lv_total (level_or_new (map_of ls (new_price e)))) + unat (new_quantity e)"
  shows "\<exists>ls'. replace_move ob ls i old e = Inr (False, ob, ls') \<and> map_of ls' = map_of ls \<and>
    map_sorted (side_lt (ord_side old)) ls'"
proof -
  let ?te = "try_emplace (side_lt (ord_side old)) (new_price e) default_level ls"
  have "replace_move ob ls i old e = Inr (False, ob, if snd ?te then map_erase (new_price e) (fst ?te) else fst ?te)"
    using assms(2) by (simp add: replace_move_def Let_def split_beta map_of_try_emplace total_overflow level_or_new_def)
  then show ?thesis
    by - (intro exI conjI, assumption, rule map_of_undo_emplace, rule side_order.sorted_undo_emplace [OF assms(1)])
qed

lemma map_of_Some_not_Nil: "map_of m k = Some v \<Longrightarrow> m \<noteq> []"
  by auto

lemma replace_move_accepted:
  assumes core: "book_core ob L F" and i: "i \<in> set L" and old: "old = sl_order (sat (slots ob) i)"
    and c: "chain (slots ob) L (order_key old) = ys @ i # zs" and np: "new_price e \<noteq> ord_price old"
    and srt: "map_sorted (side_lt (ord_side old)) ls"
    and ls: "map_of ls (ord_price old) = level_map (books ob) (order_key old)"
    and nlv: "nlv = level_or_new (map_of ls (new_price e))" "unat (lv_total nlv) + unat (new_quantity e) \<le> 0xFFFFFFFF"
      "lv_head nlv = hd (c' @ [kInvalidSlot])" "lv_tail nlv = last (kInvalidSlot # c')" "set c' \<subseteq> arena (slots ob)"
    and ord: "ord = old\<lparr>ord_id := new_order_id e, ord_quantity := new_quantity e, ord_price := new_price e\<rparr>"
    and ss2: "ss2 = supd (unlinked (slots ob) ys i zs) i (\<lambda>s. s\<lparr>sl_order := ord\<rparr>)"
    and ix: "index_insert (index ob) (new_order_id e) i = Inr (True, idx)" "index_erase idx (old_order_id e) = Inr (True, idx')"
  shows "\<exists>ls'. replace_move ob ls i old e = Inr (True, ob\<lparr>slots := linked ss2 c' i, index := idx'\<rparr>, ls') \<and>
    map_of ls' = (map_of ls)(ord_price old := level_of (slots ob) (ys @ zs), new_price e \<mapsto>
      \<lparr>lv_total = lv_total nlv + new_quantity e, lv_head = hd (c' @ [i]), lv_tail = i\<rparr>) \<and>
    map_sorted (side_lt (ord_side old)) ls' \<and> ls' \<noteq> []"
proof -
  note core' = core [unfolded book_core_def]
  let ?lt = "side_lt (ord_side old)"
  let ?te = "try_emplace ?lt (new_price e) default_level ls"
  note q = live_queue [OF core c]
  define lv where "lv = \<lparr>lv_total = of_nat (shares_of (orders_of (slots ob) (ys @ i # zs))),
    lv_head = hd (ys @ i # zs), lv_tail = last (ys @ i # zs)\<rparr>"
  have lv: "map_of ls (ord_price old) = Some lv"
    using live_level [OF core i, of "order_key old" ys zs] c ls by (simp add: old lv_def)
  let ?un = "lv\<lparr>lv_head := hd (ys @ zs @ [kInvalidSlot]), lv_tail := last (kInvalidSlot # ys @ zs)\<rparr>"
  have un: "unlink (ob\<lparr>index := idx\<rparr>) lv i = Inr (ob\<lparr>index := idx, slots := unlinked (slots ob) ys i zs\<rparr>, ?un)"
    using unlink_live [OF core c, of "ob\<lparr>index := idx\<rparr>" lv] by (simp add: lv_def)
  have up: "slot_upd (ob\<lparr>index := idx, slots := unlinked (slots ob) ys i zs\<rparr>) i (\<lambda>s. s\<lparr>sl_order := (sl_order s)\<lparr>
      ord_id := new_order_id e, ord_quantity := new_quantity e, ord_price := new_price e\<rparr>\<rparr>) =
      Inr (ob\<lparr>index := idx, slots := ss2\<rparr>)"
    using refill_live [OF core c, of "ob\<lparr>index := idx\<rparr>"] by (simp add: ss2 ord old)
  define nl where "nl = \<lparr>lv_total = lv_total nlv + new_quantity e, lv_head = hd (c' @ [i]), lv_tail = i\<rparr>"
  have li: "link_at_tail (ob\<lparr>index := idx, slots := ss2\<rparr>) (nlv\<lparr>lv_total := lv_total nlv + new_quantity e\<rparr>) i =
      Inr (ob\<lparr>index := idx, slots := linked ss2 c' i\<rparr>, nl)"
    using link_at_tail_eq [of c' "ob\<lparr>index := idx, slots := ss2\<rparr>" i "nlv\<lparr>lv_total := lv_total nlv + new_quantity e\<rparr>"]
      nlv(3-5) q(4) core' by (cases nlv) (simp add: ss2 nl_def)
  define ol where "ol = ?un\<lparr>lv_total := lv_total lv - ord_quantity old\<rparr>"
  define ls1 where "ls1 = map_put ?lt (new_price e) nl (map_put ?lt (ord_price old) ol (fst ?te))"
  have m: "map_of (fst ?te) = (map_of ls)(new_price e \<mapsto> nlv)" by (simp add: map_of_try_emplace nlv(1) level_or_new_def)
  have run: "replace_move ob ls i old e = Inr (True, ob\<lparr>slots := linked ss2 c' i, index := idx'\<rparr>,
      if lv_head ol = kInvalidSlot then map_erase (ord_price old) ls1 else ls1)"
    using nlv(2) m lv np ix un up li
    by (simp add: replace_move_def Let_def split_beta total_overflow ls1_def ol_def)
  have "level_of (slots ob) (ys @ zs) = (if lv_head ol = kInvalidSlot then None else Some ol)"
    using hd_invalid [of "ys @ zs" "slots ob"] q(1) core'
    by (auto simp: level_of_def ol_def lv_def old hd_append)
  moreover have "map_sorted ?lt ls1"
    unfolding ls1_def using side_order.sorted_try_emplace [OF srt] by (intro side_order.sorted_map_put)
  moreover have "map_of (if lv_head ol = kInvalidSlot then map_erase (ord_price old) ls1 else ls1) =
      (map_of ls)(ord_price old := (if lv_head ol = kInvalidSlot then None else Some ol), new_price e \<mapsto> nl)"
    using np m by (auto simp: ls1_def fun_eq_iff)
  moreover from this have "(if lv_head ol = kInvalidSlot then map_erase (ord_price old) ls1 else ls1) \<noteq> []"
    by (intro map_of_Some_not_Nil [where k = "new_price e" and v = nl]) simp
  ultimately show ?thesis
    using run side_order.sorted_map_erase [of "ord_side old" ls1] by (auto simp: nl_def)
qed

lemma level_map_store_upd2:
  assumes "map_of ls = (map_of (side_levels sd (get_book ob sy)))(p := x, p' := y)"
  shows "level_map (books (store_levels ob sy sd ls)) = (level_map (books ob))((sy, sd, p) := x, (sy, sd, p') := y)"
proof
  fix k :: level_key
  show "level_map (books (store_levels ob sy sd ls)) k = ((level_map (books ob))((sy, sd, p) := x, (sy, sd, p') := y)) k"
    by (cases k) (auto simp: level_map_store assms get_book_level simp del: level_map.simps)
qed

lemma core_store_same:
  assumes core: "book_core ob L F" and "map_of ls = map_of (side_levels sd (get_book ob sy))"
    and "map_sorted (side_lt sd) ls" and "ls \<noteq> []"
  shows "book_core (store_levels ob sy sd ls) L F"
  using assms level_map_store_same [OF assms(2)] books_ok_store [of ob sd ls] by (simp add: book_core_def)

text \<open>The orders left at a level once an order is taken out.\<close>

lemma rest_at_level:
  assumes core: "book_core ob L F" and lk: "index_lookup (index ob) oid = Some i"
    and c: "chain (slots ob) L (order_key (sl_order (sat (slots ob) i))) = ys @ i # zs"
  shows "at_level (without (orders_of (slots ob) L) oid) k =
    orders_of (slots ob) (if k = order_key (sl_order (sat (slots ob) i)) then ys @ zs else chain (slots ob) L k)"
proof -
  have "distinct (ys @ i # zs)"
    using core distinct_chain [of L "slots ob" "order_key (sl_order (sat (slots ob) i))"] unfolding c by (simp add: book_core_def)
  then have "filter (\<lambda>j. j \<noteq> i) (ys @ i # zs) = ys @ zs" by simp
  moreover have "chain (slots ob) (filter (\<lambda>j. j \<noteq> i) L) k = filter (\<lambda>j. j \<noteq> i) (chain (slots ob) L k)"
    by (simp add: chain_def conj_commute)
  moreover have "filter (\<lambda>j. j \<noteq> i) (chain (slots ob) L k) = chain (slots ob) L k"
    if "k \<noteq> order_key (sl_order (sat (slots ob) i))"
    using that by (intro filter_neq_id) (auto simp: chain_def)
  ultimately show ?thesis
    using orders_of_chain [of "slots ob" "filter (\<lambda>j. j \<noteq> i) L" k] c
    unfolding orders_without [OF core lk] by auto
qed

text \<open>
  A replacement the guards let through: the accepted case once the side map has been computed.
\<close>

lemma replace_finish:
  assumes core: "book_core ob L F" and lk: "index_lookup (index ob) oid = Some i"
    and new: "index_lookup (index ob) (ord_id ord) = None" and old: "old = sl_order (sat (slots ob) i)"
    and c: "chain (slots ob) L (order_key old) = ys @ i # zs"
    and same: "ord_symbol ord = ord_symbol old" "ord_side ord = ord_side old"
    and cn: "cn = (if order_key ord = order_key old then ys @ zs else chain (slots ob) L (order_key ord))"
    and ss2: "ss2 = supd (unlinked (slots ob) ys i zs) i (\<lambda>s. s\<lparr>sl_order := ord\<rparr>)"
  shows "\<exists>idx idx'. index_insert (index ob) (ord_id ord) i = Inr (True, idx) \<and> index_erase idx oid = Inr (True, idx') \<and>
    set cn \<subseteq> arena (slots ob) \<and>
    (\<forall>ls'. map_of ls' = (map_of (side_levels (ord_side old) (get_book ob (ord_symbol old))))
          (ord_price old := level_of (slots ob) (ys @ zs), ord_price ord \<mapsto>
             \<lparr>lv_total = of_nat (shares_of (orders_of (slots ob) cn) + unat (ord_quantity ord)), lv_head = hd (cn @ [i]), lv_tail = i\<rparr>) \<and>
        map_sorted (side_lt (ord_side old)) ls' \<and> ls' \<noteq> [] \<longrightarrow>
      (\<exists>L'. book_core (store_levels (ob\<lparr>slots := linked ss2 cn i, index := idx'\<rparr>) (ord_symbol old) (ord_side old) ls') L' F \<and>
        orders_of (linked ss2 cn i) L' = without (orders_of (slots ob) L) oid @ [ord]))"
proof -
  let ?L = "filter (\<lambda>j. j \<noteq> i) L @ [i]"
  obtain idx idx' where ix: "index_insert (index ob) (ord_id ord) i = Inr (True, idx)" "index_erase idx oid = Inr (True, idx')"
    and bc: "\<And>bs. books_ok bs \<Longrightarrow> level_map bs = (level_map (books ob))(order_key old := level_of (slots ob) (ys @ zs), order_key ord \<mapsto>
        \<lparr>lv_total = of_nat (shares_of (orders_of (slots ob) cn) + unat (ord_quantity ord)), lv_head = hd (cn @ [i]), lv_tail = i\<rparr>) \<Longrightarrow>
      book_core (ob\<lparr>slots := linked ss2 cn i, index := idx', books := bs\<rparr>) ?L F"
    and os: "orders_of (linked ss2 cn i) ?L = without (orders_of (slots ob) L) oid @ [ord]" and cna: "set cn \<subseteq> arena ss2"
    using replace_arena [OF core lk new _ c cn ss2 refl] old by auto
  let ?ob = "ob\<lparr>slots := linked ss2 cn i, index := idx'\<rparr>"
  have gb: "get_book ?ob sy = get_book ob sy" for sy by (simp add: get_book_def)
  have "book_core (store_levels ?ob (ord_symbol old) (ord_side old) ls') ?L F"
    if "map_of ls' = (map_of (side_levels (ord_side old) (get_book ob (ord_symbol old))))
          (ord_price old := level_of (slots ob) (ys @ zs), ord_price ord \<mapsto>
             \<lparr>lv_total = of_nat (shares_of (orders_of (slots ob) cn) + unat (ord_quantity ord)), lv_head = hd (cn @ [i]), lv_tail = i\<rparr>)"
      "map_sorted (side_lt (ord_side old)) ls'" "ls' \<noteq> []" for ls'
  proof -
    let ?bs = "books (store_levels ?ob (ord_symbol old) (ord_side old) ls')"
    have "books_ok ?bs" using books_ok_store [of ?ob "ord_side old" ls'] core that(2,3) by (simp add: book_core_def)
    moreover have "level_map ?bs = (level_map (books ob))(order_key old := level_of (slots ob) (ys @ zs), order_key ord \<mapsto>
        \<lparr>lv_total = of_nat (shares_of (orders_of (slots ob) cn) + unat (ord_quantity ord)), lv_head = hd (cn @ [i]), lv_tail = i\<rparr>)"
      using level_map_store_upd2 [of ls' "ord_side old" ?ob "ord_symbol old"] that(1) gb same by (simp add: order_key_def)
    ultimately have "book_core (ob\<lparr>slots := linked ss2 cn i, index := idx', books := ?bs\<rparr>) ?L F" by (rule bc)
    then show ?thesis by (simp add: store_levels_def)
  qed
  moreover have "set cn \<subseteq> arena (slots ob)" using cna by (simp add: ss2)
  ultimately show ?thesis using ix os by blast
qed

text \<open>What is known when the branches are entered, with the queue the order will join and its level afterwards.\<close>

definition joined_queue :: "order_book \<Rightarrow> slot_index list \<Rightarrow> order \<Rightarrow> order \<Rightarrow> slot_index list \<Rightarrow> slot_index list" where
  "joined_queue ob L old ord others = (if order_key ord = order_key old then others else chain (slots ob) L (order_key ord))"

definition joined_level :: "order_book \<Rightarrow> slot_index list \<Rightarrow> quantity \<Rightarrow> slot_index \<Rightarrow> price_level" where
  "joined_level ob c n i =
     \<lparr>lv_total = of_nat (shares_of (orders_of (slots ob) c) + unat n), lv_head = hd (c @ [i]), lv_tail = i\<rparr>"

definition replaced_slots :: "order_book \<Rightarrow> slot_index list \<Rightarrow> slot_index \<Rightarrow> slot_index list \<Rightarrow> order \<Rightarrow> slot list" where
  "replaced_slots ob ys i zs ord = supd (unlinked (slots ob) ys i zs) i (\<lambda>s. s\<lparr>sl_order := ord\<rparr>)"

definition replace_done ::
  "order_book \<Rightarrow> slot_index list \<Rightarrow> slot_index list \<Rightarrow> order \<Rightarrow> order \<Rightarrow> order list \<Rightarrow> (bool \<times> order_book \<times> levels) res \<Rightarrow> bool" where
  "replace_done ob L F old ord rest result \<longleftrightarrow>
     (\<exists>ob' ls' r. result = Inr (r, ob', ls') \<and>
       (r \<longleftrightarrow> shares_of (at_level rest (order_key ord)) + unat (ord_quantity ord) \<le> 0xFFFFFFFF) \<and>
       length (slots ob') = length (slots ob) \<and>
       (if r then \<exists>L'. book_core (store_levels ob' (ord_symbol old) (ord_side old) ls') L' F \<and>
           orders_of (slots ob') L' = rest @ [ord]
        else ob' = ob \<and> book_core (store_levels ob (ord_symbol old) (ord_side old) ls') L F))"

definition replace_ready ::
  "order_book \<Rightarrow> slot_index list \<Rightarrow> slot_index list \<Rightarrow> replace_event \<Rightarrow> slot_index \<Rightarrow> order \<Rightarrow> order \<Rightarrow> order list \<Rightarrow> levels \<Rightarrow>
   slot_index list \<Rightarrow> slot_index list \<Rightarrow> flat_index \<Rightarrow> flat_index \<Rightarrow> bool" where
  "replace_ready ob L F e i old ord rest ls ys zs idx idx' \<longleftrightarrow>
     (let c = joined_queue ob L old ord (ys @ zs) in
      book_core ob L F \<and> i \<in> set L \<and> old = sl_order (sat (slots ob) i) \<and>
      ord = old\<lparr>ord_id := new_order_id e, ord_quantity := new_quantity e, ord_price := new_price e\<rparr> \<and>
      chain (slots ob) L (order_key old) = ys @ i # zs \<and> set c \<subseteq> arena (slots ob) \<and>
      at_level rest (order_key ord) = orders_of (slots ob) c \<and>
      map_of ls = map_of (side_levels (ord_side old) (get_book ob (ord_symbol old))) \<and>
      map_sorted (side_lt (ord_side old)) ls \<and> ls \<noteq> [] \<and>
      map_of ls (ord_price old) = level_map (books ob) (order_key old) \<and>
      map_of ls (new_price e) = level_map (books ob) (order_key ord) \<and>
      index_insert (index ob) (new_order_id e) i = Inr (True, idx) \<and> index_erase idx (old_order_id e) = Inr (True, idx') \<and>
      (\<forall>ls'. map_of ls' = (map_of ls)(ord_price old := level_of (slots ob) (ys @ zs),
            new_price e \<mapsto> joined_level ob c (new_quantity e) i) \<and>
          map_sorted (side_lt (ord_side old)) ls' \<and> ls' \<noteq> [] \<longrightarrow>
        (\<exists>L'. book_core (store_levels (ob\<lparr>slots := linked (replaced_slots ob ys i zs ord) c i, index := idx'\<rparr>)
              (ord_symbol old) (ord_side old) ls') L' F \<and>
            orders_of (linked (replaced_slots ob ys i zs ord) c i) L' = rest @ [ord])))"

lemma replace_readyD:
  assumes "replace_ready ob L F e i old ord rest ls ys zs idx idx'"
  shows "book_core ob L F" "i \<in> set L" "old = sl_order (sat (slots ob) i)"
    and "chain (slots ob) L (order_key old) = ys @ i # zs" "set (joined_queue ob L old ord (ys @ zs)) \<subseteq> arena (slots ob)"
    and "at_level rest (order_key ord) = orders_of (slots ob) (joined_queue ob L old ord (ys @ zs))"
    and "map_of ls = map_of (side_levels (ord_side old) (get_book ob (ord_symbol old)))"
    and "map_sorted (side_lt (ord_side old)) ls" "ls \<noteq> []"
    and "map_of ls (ord_price old) = level_map (books ob) (order_key old)"
    and "map_of ls (new_price e) = level_map (books ob) (order_key ord)"
    and "index_insert (index ob) (new_order_id e) i = Inr (True, idx)" "index_erase idx (old_order_id e) = Inr (True, idx')"
    and "ord = old\<lparr>ord_id := new_order_id e, ord_quantity := new_quantity e, ord_price := new_price e\<rparr>"
  using assms unfolding replace_ready_def Let_def by blast+

lemma replace_ready_finish:
  assumes "replace_ready ob L F e i old ord rest ls ys zs idx idx'" and "c = joined_queue ob L old ord (ys @ zs)"
    and "map_of ls' = (map_of ls)(ord_price old := level_of (slots ob) (ys @ zs), new_price e \<mapsto> joined_level ob c (new_quantity e) i)"
    and "map_sorted (side_lt (ord_side old)) ls'" and "ls' \<noteq> []"
  shows "\<exists>L'. book_core (store_levels (ob\<lparr>slots := linked (replaced_slots ob ys i zs ord) c i, index := idx'\<rparr>)
      (ord_symbol old) (ord_side old) ls') L' F \<and> orders_of (linked (replaced_slots ob ys i zs ord) c i) L' = rest @ [ord]"
  using assms unfolding replace_ready_def Let_def by blast

lemma replace_ready_live:
  assumes core: "book_core ob L F"
    and lk: "index_lookup (index ob) (old_order_id e) = Some i" and new: "index_lookup (index ob) (new_order_id e) = None"
    and old: "old = sl_order (sat (slots ob) i)"
    and ord: "ord = old\<lparr>ord_id := new_order_id e, ord_quantity := new_quantity e, ord_price := new_price e\<rparr>"
    and rest: "rest = without (orders_of (slots ob) L) (old_order_id e)"
    and ls: "ls = side_levels (ord_side old) (get_book ob (ord_symbol old))"
  obtains ys zs idx idx' where "replace_ready ob L F e i old ord rest ls ys zs idx idx'"
proof -
  note core' = core [unfolded book_core_def]
  have i: "i \<in> set L" "distinct L" using core' core_index(2) [OF core] lk by auto
  obtain ys zs where c: "chain (slots ob) L (order_key old) = ys @ i # zs"
    unfolding old by (rule chain_split [OF i, of "slots ob"])
  have srt: "map_sorted (side_lt (ord_side old)) ls" using core' get_book_sorted by (simp add: ls books_ok_def)
  have mk: "map_of ls p = level_map (books ob) (ord_symbol old, ord_side old, p)" for p
    by (simp add: ls get_book_level del: level_map.simps)
  then have m: "map_of ls (ord_price old) = level_map (books ob) (order_key old)"
    "map_of ls (new_price e) = level_map (books ob) (order_key ord)"
    by (simp_all add: order_key_def ord del: level_map.simps)
  have ne: "ls \<noteq> []" using live_level [OF core i(1), of "order_key old" ys zs] c m(1) by (auto simp: old)
  let ?c = "joined_queue ob L old ord (ys @ zs)"
  have t: "at_level rest (order_key ord) = orders_of (slots ob) ?c"
    using rest_at_level [OF core lk] c by (simp add: old rest joined_queue_def)
  have f: "ord_id ord = new_order_id e" "ord_quantity ord = new_quantity e" "ord_price ord = new_price e"
    "ord_symbol ord = ord_symbol old" "ord_side ord = ord_side old" by (simp_all add: ord)
  note fin = replace_finish [OF core lk new [folded f(1)] old c f(4,5) joined_queue_def replaced_slots_def,
    unfolded f(1-3), folded ls rest joined_level_def]
  obtain idx idx' where "index_insert (index ob) (new_order_id e) i = Inr (True, idx)"
      "index_erase idx (old_order_id e) = Inr (True, idx')" "set ?c \<subseteq> arena (slots ob)"
      "\<forall>ls'. map_of ls' = (map_of ls)(ord_price old := level_of (slots ob) (ys @ zs),
          new_price e \<mapsto> joined_level ob ?c (new_quantity e) i) \<and>
        map_sorted (side_lt (ord_side old)) ls' \<and> ls' \<noteq> [] \<longrightarrow>
      (\<exists>L'. book_core (store_levels (ob\<lparr>slots := linked (replaced_slots ob ys i zs ord) ?c i, index := idx'\<rparr>)
            (ord_symbol old) (ord_side old) ls') L' F \<and>
          orders_of (linked (replaced_slots ob ys i zs ord) ?c i) L' = rest @ [ord])"
    using fin by blast
  with that core i(1) old ord c t srt ne m ls show thesis unfolding replace_ready_def Let_def by blast
qed

lemma replace_same_live:
  assumes ready: "replace_ready ob L F e i old ord rest ls ys zs idx idx'"
    and ok: "orders_ok cap (orders_of (slots ob) L)" and same: "ord_price old = new_price e"
  shows "replace_done ob L F old ord rest (replace_same ob ls i old e)"
proof -
  note r = replace_readyD [OF ready]
  have ord: "ord = old\<lparr>ord_id := new_order_id e, ord_quantity := new_quantity e\<rparr>" using r(14) same by (cases old) simp
  then have c: "joined_queue ob L old ord (ys @ zs) = ys @ zs" by (simp add: joined_queue_def order_key_def)
  have "shares_of (at_level (orders_of (slots ob) L) (order_key old)) \<le> 0xFFFFFFFF" using ok by (simp add: orders_ok_def)
  then have t: "shares_of (orders_of (slots ob) (ys @ zs)) + unat (ord_quantity old) \<le> 0xFFFFFFFF"
    unfolding orders_of_chain [symmetric] r(4) by (simp add: r(3))
  let ?ls = "map_put (side_lt (ord_side old)) (ord_price old) (joined_level ob (ys @ zs) (new_quantity e) i) ls"
  let ?ob = "ob\<lparr>slots := linked (replaced_slots ob ys i zs ord) (ys @ zs) i, index := idx'\<rparr>"
  have eq: "replace_same ob ls i old e =
      (if shares_of (orders_of (slots ob) (ys @ zs)) + unat (new_quantity e) > 0xFFFFFFFF then Inr (False, ob, ls)
       else Inr (True, ?ob, ?ls))"
    unfolding replace_same_eq [OF r(1-4) refl t r(10) ord refl r(12,13)] joined_level_def replaced_slots_def by simp
  have "map_of ?ls = (map_of ls)(ord_price old := level_of (slots ob) (ys @ zs),
      new_price e \<mapsto> joined_level ob (ys @ zs) (new_quantity e) i)" using same by simp
  from replace_ready_finish [OF ready c [symmetric] this side_order.sorted_map_put [OF r(8)]]
  obtain L' where "book_core (store_levels ?ob (ord_symbol old) (ord_side old) ?ls) L' F" "orders_of (slots ?ob) L' = rest @ [ord]"
    by auto
  moreover have "length (slots ?ob) = length (slots ob)" by (simp add: replaced_slots_def)
  moreover have "shares_of (at_level rest (order_key ord)) + unat (ord_quantity ord) =
      shares_of (orders_of (slots ob) (ys @ zs)) + unat (new_quantity e)" using r(6) c ord by simp
  ultimately show ?thesis
    using core_store_same [OF r(1,7,8,9)] unfolding replace_done_def eq by (auto simp: not_less)
qed

lemma replace_move_live:
  assumes ready: "replace_ready ob L F e i old ord rest ls ys zs idx idx'"
    and ok: "orders_ok cap (orders_of (slots ob) L)" and moved: "new_price e \<noteq> ord_price old"
  shows "replace_done ob L F old ord rest (replace_move ob ls i old e)"
proof -
  note r = replace_readyD [OF ready]
  define c where "c = joined_queue ob L old ord (ys @ zs)"
  have ch: "c = chain (slots ob) L (order_key ord)" using r(14) moved by (simp add: c_def joined_queue_def order_key_def)
  define lv where "lv = level_or_new (map_of ls (new_price e))"
  note lvc = level_or_new_chain [OF r(1) ok ch lv_def [unfolded r(11)]]
  have tot: "shares_of (at_level rest (order_key ord)) + unat (ord_quantity ord) = unat (lv_total lv) + unat (new_quantity e)"
    using lvc(3) r(6,14) ch by (simp add: c_def orders_of_chain)
  let ?ob = "ob\<lparr>slots := linked (replaced_slots ob ys i zs ord) c i, index := idx'\<rparr>"
  show ?thesis
  proof (cases "unat (lv_total lv) + unat (new_quantity e) \<le> 0xFFFFFFFF")
    case True
    from replace_move_accepted [OF r(1-4) moved r(8,10) lv_def True lvc(1,2) r(5) [folded c_def] r(14) replaced_slots_def r(12,13)]
    obtain ls' where ls': "replace_move ob ls i old e = Inr (True, ?ob, ls')"
      "map_of ls' = (map_of ls)(ord_price old := level_of (slots ob) (ys @ zs), new_price e \<mapsto> joined_level ob c (new_quantity e) i)"
      "map_sorted (side_lt (ord_side old)) ls'" "ls' \<noteq> []"
      by (auto simp: joined_level_def lvc(4))
    have "length (slots ?ob) = length (slots ob)" by (simp add: replaced_slots_def)
    with replace_ready_finish [OF ready c_def ls'(2-4)] show ?thesis
      unfolding replace_done_def ls'(1) tot using True by auto
  next
    case False
    then obtain ls' where ls': "replace_move ob ls i old e = Inr (False, ob, ls')" "map_of ls' = map_of ls"
      "map_sorted (side_lt (ord_side old)) ls'" using replace_move_refused [OF r(8), of e ob i] by (auto simp: lv_def)
    have "ls' \<noteq> []" using ls'(2) r(9) by (metis map_of_empty_iff)
    from core_store_same [OF r(1) ls'(2) [unfolded r(7)] ls'(3) this] show ?thesis
      unfolding replace_done_def ls'(1) tot using False by auto
  qed
qed

lemma replace_sim:
  assumes rep: "represents cap ob os"
  shows "\<exists>ob'. book_replace ob e = Inr (fst (spec_replace os e), ob') \<and> represents cap ob' (snd (spec_replace os e))"
proof -
  obtain L F where core: "book_core ob L F" "os = orders_of (slots ob) L" "length (slots ob) = cap" "orders_ok cap os"
    and fo: "\<And>oid. find_order os oid = map_option (\<lambda>i. sl_order (sat (slots ob) i)) (index_lookup (index ob) oid)"
    using represents_core [OF rep] by metis
  have sp: "orders_ok cap (snd (spec_replace os e))" using spec_replace_ok [OF core(4)] .
  show ?thesis
  proof (cases "index_lookup (index ob) (old_order_id e) = None \<or> new_order_id e = 0 \<or> new_quantity e = 0 \<or>
      index_lookup (index ob) (new_order_id e) \<noteq> None")
    case True
    then have "spec_replace os e = (False, os)" using fo by (auto simp: spec_replace_def Let_def split: option.splits)
    moreover have "book_replace ob e = Inr (False, ob)"
      using True core(1) by (auto simp: book_replace_def split: option.splits)
    ultimately show ?thesis using rep by simp
  next
    case False
    then obtain i where i: "index_lookup (index ob) (old_order_id e) = Some i"
      "index_lookup (index ob) (new_order_id e) = None" "new_order_id e \<noteq> 0" "new_quantity e \<noteq> 0" by auto
    define old where "old = sl_order (sat (slots ob) i)"
    define ord where "ord = old\<lparr>ord_id := new_order_id e, ord_quantity := new_quantity e, ord_price := new_price e\<rparr>"
    have live: "i \<in> set L" "i \<in> arena (slots ob)" using i(1) core_index(2) [OF core(1)] core_live [OF core(1)] by auto
    obtain lv where lv: "level_map (books ob) (order_key old) = Some lv"
      using live_has_level [OF core(1) live(1)] by (auto simp: old_def)
    let ?ls = "side_levels (ord_side old) (get_book ob (ord_symbol old))"
    obtain ys zs idx idx' where ready: "replace_ready ob L F e i old ord (without os (old_order_id e)) ?ls ys zs idx idx'"
      unfolding core(2) by (rule replace_ready_live [OF core(1) i(1,2) old_def ord_def refl refl])
    have "replace_done ob L F old ord (without os (old_order_id e))
        (if ord_price old = new_price e then replace_same ob ?ls i old e else replace_move ob ?ls i old e)"
      using replace_same_live [OF ready core(4) [unfolded core(2)]] replace_move_live [OF ready core(4) [unfolded core(2)]] by auto
    then obtain ob' ls' r where r: "(if ord_price old = new_price e then replace_same ob ?ls i old e
          else replace_move ob ?ls i old e) = Inr (r, ob', ls')"
      "r \<longleftrightarrow> shares_of (at_level (without os (old_order_id e)) (order_key ord)) + unat (new_quantity e) \<le> 0xFFFFFFFF"
      "length (slots ob') = cap"
      "if r then \<exists>L'. book_core (store_levels ob' (ord_symbol old) (ord_side old) ls') L' F \<and>
          orders_of (slots ob') L' = without os (old_order_id e) @ [ord]
       else ob' = ob \<and> book_core (store_levels ob (ord_symbol old) (ord_side old) ls') L F"
      unfolding replace_done_def using core(3) by (auto simp: ord_def)
    have run: "book_replace ob e = Inr (r, store_levels ob' (ord_symbol old) (ord_side old) ls')"
      using core(1) i live(2) book_at_map [OF lv] r(1)
      by (cases "ord_price old = new_price e") (simp_all add: book_replace_def Let_def old_def [symmetric])
    have "spec_replace os e = (if r then (True, without os (old_order_id e) @ [ord]) else (False, os))"
      using fo i r(2) by (auto simp: spec_replace_def Let_def old_def ord_def)
    with run r(3,4) sp core(2) show ?thesis by (cases r) (auto intro: representsI)
  qed
qed

end
