(* ===== verification/Book_Views.thy ===== *)
theory Book_Views
  imports Book_Simulation
begin

text \<open>
  The constructor and the queries of the order book, and the book as a whole: from construction on,
  every sequence of events behaves as the specification, and every query is the corresponding view
  of the specified list of orders.
\<close>

section \<open>Construction\<close>

lemma init_free_list:
  assumes n: "n < unat kInvalidSlot" and k: "k \<le> n"
    and ss: "ss = map (\<lambda>i. default_slot\<lparr>sl_next_free := (if i + 1 < n then of_nat (i + 1) else kInvalidSlot)\<rparr>) [0..<n]"
  shows "fseg ss (map of_nat [k..<n]) (if k < n then of_nat k else kInvalidSlot)"
  using k
proof (induction "n - k" arbitrary: k)
  case 0
  then show ?case by simp
next
  case (Suc m)
  then have k: "k < n" by simp
  have "unat (of_nat k :: slot_index) = k" using k n by (simp add: unat_of_nat kInvalidSlot_def)
  then have "sl_next_free (sat ss (of_nat k)) = (if Suc k < n then of_nat (Suc k) else kInvalidSlot)"
    using k by (simp add: sat_def ss)
  moreover have "fseg ss (map of_nat [Suc k..<n]) (if Suc k < n then of_nat (Suc k) else kInvalidSlot)"
    using Suc.hyps(1) [of "Suc k"] Suc.hyps(2) k by simp
  ultimately have "fseg ss (of_nat k # map of_nat [Suc k..<n]) (of_nat k)" by (simp only: fseg.simps simp_thms)
  then show ?case using k by (simp only: upt_conv_Cons [OF k] list.map if_True)
qed

lemma init_represents:
  assumes n: "0 < n" "n < unat kInvalidSlot"
  shows "\<exists>ob. order_book_init n = Inr ob \<and> represents n ob []"
proof -
  define ss where "ss = map (\<lambda>i. default_slot\<lparr>sl_next_free := (if i + 1 < n then of_nat (i + 1) else kInvalidSlot)\<rparr>) [0..<n]"
  define ob where "ob = \<lparr>slots = ss, free_head = 0, index = index_init n, books = []\<rparr>"
  have init: "order_book_init n = Inr ob" using n by (simp add: order_book_init_def ob_def ss_def)
  have b: "unat (of_nat k :: slot_index) = k" if "k < n" for k
    using that n by (simp add: unat_of_nat kInvalidSlot_def)
  let ?F = "map of_nat [0..<n] :: slot_index list"
  have "fseg ss ?F 0" using init_free_list [OF n(2), of 0 ss] n(1) by (simp add: ss_def)
  moreover have "distinct ?F" using b by (auto simp: distinct_map intro!: inj_on_inverseI [where g = unat])
  moreover have "set ?F = arena ss"
    by (auto simp: arena_def ss_def b intro!: image_eqI [where x = "unat _"])
  moreover have "n < 2 ^ 62" using n by (simp add: kInvalidSlot_def)
  then have "index_rep (index_init n) ss []"
    using index_init_ok [of n] by (auto simp: index_rep_def ss_def)
  moreover have "queues_ok ss []" "level_map [] = levels_of ss []"
    by (auto simp: queues_ok_def chain_def levels_of_def level_of_def fun_eq_iff)
  moreover have "books_ok []" by (simp add: books_ok_def books_sorted_def books_full_def)
  ultimately have "book_core ob [] ?F" using n by (simp add: book_core_def ob_def ss_def)
  moreover have "orders_ok n []" by (simp add: orders_ok_def at_level_def)
  ultimately show ?thesis using init by (auto simp: ob_def ss_def intro!: representsI)
qed

section \<open>Events\<close>

lemma apply_sim:
  assumes "represents cap ob os"
  shows "\<exists>ob'. book_apply ob e = Inr (fst (spec_apply cap os e), ob') \<and> represents cap ob' (snd (spec_apply cap os e))"
  using assms
  by (cases e) (simp_all add: add_sim reduce_sim remove_sim replace_sim book_execute_def book_cancel_def book_erase_def)

interpretation book: simulation book_apply "spec_apply cap" "represents cap" for cap
  using apply_sim by unfold_locales

section \<open>Queries\<close>

lemma find_view:
  assumes "represents cap ob os"
  shows "book_find ob oid = Inr (find_order os oid)"
proof -
  obtain L F where core: "book_core ob L F"
    and fo: "find_order os oid = map_option (\<lambda>i. sl_order (sat (slots ob) i)) (index_lookup (index ob) oid)"
    using represents_core [OF assms] by metis
  show ?thesis
  proof (cases "index_lookup (index ob) oid")
    case None
    with core fo show ?thesis by (simp add: book_find_def)
  next
    case (Some i)
    then have "i \<in> arena (slots ob)" using core_index(2) [OF core] core_live [OF core] by auto
    with Some core fo show ?thesis by (simp add: book_find_def)
  qed
qed

lemma count_view: "represents cap ob os \<Longrightarrow> live_order_count ob = length os"
  using core_size by (auto simp: represents_def live_order_count_def orders_of_def)

text \<open>The keys of the maps are the live symbols and the prices of a side, in the order of the view.\<close>

lemma side_prices_sorted: "sorted_wrt (side_lt sd) (side_prices os sy sd)"
proof -
  have s: "sorted_wrt (<) (sort (remdups xs))" for xs :: "price list"
    by (simp add: strict_sorted_iff)
  show ?thesis
    using s by (cases sd) (simp_all add: side_prices_def side_lt_def sorted_wrt_rev Let_def)
qed

lemma set_side_prices: "set (side_prices os sy sd) = {p. at_level os (sy, sd, p) \<noteq> []}"
  by (cases sd) (auto simp: side_prices_def side_orders_def at_level_def order_key_def Let_def filter_empty_conv)

lemma set_live_symbols: "set (live_symbols os) = {sy. \<exists>sd p. at_level os (sy, sd, p) \<noteq> []}"
  by (auto simp: live_symbols_def at_level_def order_key_def filter_empty_conv)

lemma level_map_view:
  assumes "book_core ob L F"
  shows "level_map (books ob) k = None \<longleftrightarrow> at_level (orders_of (slots ob) L) k = []"
  using assms orders_of_chain [of "slots ob" L k]
  by (auto simp: book_core_def levels_of_def level_of_def orders_of_def)

lemma prices_view:
  assumes core: "book_core ob L F"
  shows "map fst (side_levels sd (get_book ob sy)) = side_prices (orders_of (slots ob) L) sy sd"
proof (rule side_order.sorted_unique [of sd])
  let ?ls = "side_levels sd (get_book ob sy)"
  show "sorted_wrt (side_lt sd) (map fst ?ls)"
    using core get_book_sorted by (simp add: book_core_def books_ok_def map_sorted_def [symmetric])
  show "sorted_wrt (side_lt sd) (side_prices (orders_of (slots ob) L) sy sd)" by (rule side_prices_sorted)
  have "p \<in> set (map fst ?ls) \<longleftrightarrow> level_map (books ob) (sy, sd, p) \<noteq> None" for p
    by (simp only: get_book_level [symmetric] map_of_eq_None_iff) simp
  then show "set (map fst ?ls) = set (side_prices (orders_of (slots ob) L) sy sd)"
    using level_map_view [OF core] by (auto simp: set_side_prices simp del: level_map.simps)
qed

lemma symbols_view:
  assumes core: "book_core ob L F"
  shows "map fst (books ob) = live_symbols (orders_of (slots ob) L)"
proof (rule less_order.sorted_unique)
  have bo: "books_sorted (books ob)" "books_full (books ob)" using core by (simp_all add: book_core_def books_ok_def)
  show "sorted_wrt (<) (map fst (books ob))" using bo(1) by (simp add: books_sorted_def map_sorted_def)
  show "sorted_wrt (<) (live_symbols (orders_of (slots ob) L))" by (simp add: live_symbols_def strict_sorted_iff)
  have "sy \<in> fst ` set (books ob) \<longleftrightarrow> (\<exists>sd p. level_map (books ob) (sy, sd, p) \<noteq> None)" for sy
  proof
    assume "sy \<in> fst ` set (books ob)"
    then obtain b where b: "(sy, b) \<in> set (books ob)" by auto
    then have "\<not> book_empty b" using bo(2) by (auto simp: books_full_def)
    then obtain sd where "side_levels sd b \<noteq> []" by (auto simp: book_empty_iff)
    then obtain p where "map_of (side_levels sd b) p \<noteq> None" by (metis map_of_empty_iff)
    then show "\<exists>sd p. level_map (books ob) (sy, sd, p) \<noteq> None"
      using books_sorted_map_of [OF bo(1) b] by auto
  next
    assume "\<exists>sd p. level_map (books ob) (sy, sd, p) \<noteq> None"
    then have "map_of (books ob) sy \<noteq> None" by (auto split: option.splits)
    then show "sy \<in> fst ` set (books ob)" by (simp add: map_of_eq_None_iff)
  qed
  then show "set (map fst (books ob)) = set (live_symbols (orders_of (slots ob) L))"
    unfolding level_map_view [OF core] set_live_symbols by (simp add: set_eq_iff)
qed

lemma alist_eta:
  assumes "distinct (map fst m)"
  shows "m = map (\<lambda>k. (k, the (map_of m k))) (map fst m)"
proof -
  have "map (\<lambda>e. (fst e, the (map_of m (fst e)))) m = map (\<lambda>e. e) m"
    using assms by (intro map_cong) (auto simp: map_of_is_SomeI)
  then show ?thesis by (simp add: o_def)
qed

text \<open>The level of a price, and the walk along its queue.\<close>

definition level_at_price :: "order_book \<Rightarrow> symbol \<Rightarrow> side \<Rightarrow> price \<Rightarrow> price_level" where
  "level_at_price ob sy sd p = the (level_map (books ob) (sy, sd, p))"

lemma levels_view:
  assumes core: "book_core ob L F"
  shows "side_levels sd (get_book ob sy) =
    map (\<lambda>p. (p, level_at_price ob sy sd p)) (side_prices (orders_of (slots ob) L) sy sd)"
proof -
  let ?ls = "side_levels sd (get_book ob sy)"
  have "distinct (map fst ?ls)"
    using core get_book_sorted by (intro side_order.sorted_distinct [of sd]) (simp add: book_core_def books_ok_def)
  from alist_eta [OF this] show ?thesis
    unfolding prices_view [OF core] get_book_level level_at_price_def .
qed

lemma level_walk:
  assumes core: "book_core ob L F" and p: "p \<in> set (side_prices (orders_of (slots ob) L) sy sd)"
  shows "walk (slots ob) (lv_head (level_at_price ob sy sd p)) = Some (Inr (at_level (orders_of (slots ob) L) (sy, sd, p)))"
    and "lv_total (level_at_price ob sy sd p) = of_nat (shares_of (at_level (orders_of (slots ob) L) (sy, sd, p)))"
proof -
  let ?c = "chain (slots ob) L (sy, sd, p)"
  have "level_map (books ob) (sy, sd, p) \<noteq> None"
    using p level_map_view [OF core, of "(sy, sd, p)"] by (simp add: set_side_prices del: level_map.simps)
  then obtain lv where lv: "level_map (books ob) (sy, sd, p) = Some lv" by blast
  note lvc = level_of_chain [OF core lv]
  have "queue_in (slots ob) ?c" "set ?c \<subseteq> arena (slots ob)" "length (slots ob) \<le> unat kInvalidSlot"
    using core chain_subset [of "slots ob" L "(sy, sd, p)"] by (auto simp: book_core_def queues_ok_def)
  with walk_queue lvc(1) lv orders_of_chain [of "slots ob" L "(sy, sd, p)"]
  show "walk (slots ob) (lv_head (level_at_price ob sy sd p)) = Some (Inr (at_level (orders_of (slots ob) L) (sy, sd, p)))"
    by (simp add: level_at_price_def orders_of_def del: level_map.simps)
  show "lv_total (level_at_price ob sy sd p) = of_nat (shares_of (at_level (orders_of (slots ob) L) (sy, sd, p)))"
    using lvc(3) lv orders_of_chain [of "slots ob" L "(sy, sd, p)"] by (simp add: level_at_price_def del: level_map.simps)
qed

definition spec_level :: "order list \<Rightarrow> symbol \<Rightarrow> side \<Rightarrow> price \<Rightarrow> level_snapshot" where
  "spec_level os sy sd p =
     \<lparr>snap_price = p, snap_total = of_nat (shares_of (at_level os (sy, sd, p))),
      fifo_order_ids = map ord_id (at_level os (sy, sd, p))\<rparr>"

definition spec_levels :: "order list \<Rightarrow> symbol \<Rightarrow> side \<Rightarrow> level_snapshot list" where
  "spec_levels os sy sd = map (spec_level os sy sd) (side_prices os sy sd)"

lemma snapshots_view:
  assumes core: "book_core ob L F"
  shows "snapshots (slots ob) (side_levels sd (get_book ob sy)) = Some (Inr (spec_levels (orders_of (slots ob) L) sy sd))"
proof -
  have "set ps \<subseteq> set (side_prices (orders_of (slots ob) L) sy sd) \<Longrightarrow>
    snapshots (slots ob) (map (\<lambda>p. (p, level_at_price ob sy sd p)) ps) =
      Some (Inr (map (spec_level (orders_of (slots ob) L) sy sd) ps))" for ps
    by (induction ps) (simp_all add: level_walk [OF core] spec_level_def)
  then show ?thesis by (simp add: levels_view [OF core] spec_levels_def)
qed

lemma get_book_find: "map_of (books ob) sy = Some b \<Longrightarrow> get_book ob sy = b"
  by (simp add: get_book_def)

lemma no_book_levels:
  assumes "book_core ob L F" and "map_of (books ob) sy = None"
  shows "side_prices (orders_of (slots ob) L) sy sd = []"
  using prices_view [OF assms(1), of sd sy] assms(2) by (simp add: get_book_def)

lemma levels_queries:
  assumes "represents cap ob os"
  shows "bid_levels ob sy = Some (Inr (spec_levels os sy Buy))" and "ask_levels ob sy = Some (Inr (spec_levels os sy Sell))"
proof -
  obtain L F where core: "book_core ob L F" and os: "os = orders_of (slots ob) L"
    using represents_core [OF assms] by metis
  show "bid_levels ob sy = Some (Inr (spec_levels os sy Buy))" "ask_levels ob sy = Some (Inr (spec_levels os sy Sell))"
    using snapshots_view [OF core, of Buy sy] snapshots_view [OF core, of Sell sy] no_book_levels [OF core, of sy]
    by (auto simp: bid_levels_def ask_levels_def os spec_levels_def side_levels_def get_book_def split: option.splits)
qed

lemma best_queries:
  assumes "represents cap ob os"
  shows "best_bid ob sy = (case side_prices os sy Buy of [] \<Rightarrow> None | p # _ \<Rightarrow> Some p)"
    and "best_ask ob sy = (case side_prices os sy Sell of [] \<Rightarrow> None | p # _ \<Rightarrow> Some p)"
proof -
  obtain L F where core: "book_core ob L F" and os: "os = orders_of (slots ob) L"
    using represents_core [OF assms] by metis
  show "best_bid ob sy = (case side_prices os sy Buy of [] \<Rightarrow> None | p # _ \<Rightarrow> Some p)"
    "best_ask ob sy = (case side_prices os sy Sell of [] \<Rightarrow> None | p # _ \<Rightarrow> Some p)"
    using levels_view [OF core, of Buy sy] levels_view [OF core, of Sell sy] no_book_levels [OF core, of sy]
    by (auto simp: best_bid_def best_ask_def os side_levels_def get_book_def split: option.splits list.splits)
qed

section \<open>The state hash\<close>

text \<open>The hash as a function of the live orders alone.\<close>

definition spec_hash_level :: "order list \<Rightarrow> symbol \<Rightarrow> side \<Rightarrow> u64 \<Rightarrow> price \<Rightarrow> u64" where
  "spec_hash_level os sy sd h p =
     hash_mix (hash_orders (at_level os (sy, sd, p))
       (hash_mix (hash_mix h (ucast p)) (ucast (of_nat (shares_of (at_level os (sy, sd, p))) :: quantity)))) (ucast kInvalidSlot)"

definition spec_hash_side :: "order list \<Rightarrow> symbol \<Rightarrow> side \<Rightarrow> u64 \<Rightarrow> u64" where
  "spec_hash_side os sy sd h =
     foldl (spec_hash_level os sy sd)
       (hash_mix (hash_mix h (case sd of Buy \<Rightarrow> 0 | Sell \<Rightarrow> 1)) (of_nat (length (side_prices os sy sd))))
       (side_prices os sy sd)"

definition spec_hash :: "order list \<Rightarrow> u64" where
  "spec_hash os =
     foldl (\<lambda>h sy. spec_hash_side os sy Sell (spec_hash_side os sy Buy (hash_symbol sy h)))
       (hash_mix 0xcbf29ce484222325 (of_nat (length (live_symbols os)))) (live_symbols os)"

lemma hash_levels_view:
  assumes core: "book_core ob L F"
  shows "hash_levels (slots ob) (side_levels sd (get_book ob sy)) sd h =
    Some (Inr (spec_hash_side (orders_of (slots ob) L) sy sd h))"
proof -
  have "set ps \<subseteq> set (side_prices (orders_of (slots ob) L) sy sd) \<Longrightarrow>
    hash_level_list (slots ob) (map (\<lambda>p. (p, level_at_price ob sy sd p)) ps) h =
      Some (Inr (foldl (spec_hash_level (orders_of (slots ob) L) sy sd) h ps))" for ps h
    by (induction ps arbitrary: h) (simp_all add: level_walk [OF core] spec_hash_level_def Let_def)
  then show ?thesis by (simp add: hash_levels_def levels_view [OF core] spec_hash_side_def Let_def)
qed

lemma hash_view:
  assumes "represents cap ob os"
  shows "state_hash ob = Some (Inr (spec_hash os))"
proof -
  obtain L F where core: "book_core ob L F" and os: "os = orders_of (slots ob) L"
    using represents_core [OF assms] by metis
  have bo: "books_sorted (books ob)" using core by (simp add: book_core_def books_ok_def)
  have "set bs \<subseteq> set (books ob) \<Longrightarrow> hash_books (slots ob) bs h =
    Some (Inr (foldl (\<lambda>h sy. spec_hash_side os sy Sell (spec_hash_side os sy Buy (hash_symbol sy h))) h (map fst bs)))" for bs h
  proof (induction bs arbitrary: h)
    case (Cons e bs)
    obtain sy b where e: "e = (sy, b)" by (cases e)
    have "get_book ob sy = b" using Cons.prems books_sorted_map_of [OF bo] by (auto simp: e intro: get_book_find)
    then show ?case
      using Cons hash_levels_view [OF core, of Buy sy] hash_levels_view [OF core, of Sell sy]
      by (simp add: e os side_levels_def)
  qed simp
  from this [of "books ob"] show ?thesis
    unfolding state_hash_def spec_hash_def os symbols_view [OF core, symmetric] by simp
qed

section \<open>Reachable books\<close>

definition book_reached :: "nat \<Rightarrow> order_book \<Rightarrow> bool" where
  "book_reached n ob \<longleftrightarrow> (\<exists>ob0 es rs. order_book_init n = Inr ob0 \<and> run_res book_apply ob0 es = Inr (rs, ob))"

lemma reached_represents:
  assumes "book_reached n ob"
  obtains os where "represents n ob os"
proof -
  from assms obtain ob0 es rs where r: "order_book_init n = Inr ob0" "run_res book_apply ob0 es = Inr (rs, ob)"
    by (auto simp: book_reached_def)
  have "0 < n" "n < unat kInvalidSlot" using r(1) by (auto simp: order_book_init_def split: if_splits)
  from init_represents [OF this] r(1) have "represents n ob0 []" by auto
  from book.run_sim [OF this, of es] r(2) that show thesis by auto
qed

lemma reached_run:
  assumes "0 < n" and "n < 0xFFFFFFFF"
  obtains ob where "book_reached n ob" "represents n ob (snd (run_spec (spec_apply n) [] es))"
proof -
  obtain ob0 where ob0: "order_book_init n = Inr ob0" "represents n ob0 []"
    using init_represents [of n] assms by (auto simp: kInvalidSlot_def)
  from book.run_sim [OF ob0(2), of es] ob0(1) that show thesis unfolding book_reached_def by blast
qed

lemma apply_represents:
  assumes "represents n ob os" and "book_apply ob e = Inr (r, ob')"
  shows "r = fst (spec_apply n os e)" and "represents n ob' (snd (spec_apply n os e))"
  using apply_sim [OF assms(1), of e] assms(2) by auto

text \<open>The queue of a level as the queries show it.\<close>

definition fifo_in :: "level_snapshot list \<Rightarrow> price \<Rightarrow> order_id list" where
  "fifo_in snaps p = (case List.find (\<lambda>s. snap_price s = p) snaps of None \<Rightarrow> [] | Some s \<Rightarrow> fifo_order_ids s)"

definition fifo_at :: "order_book \<Rightarrow> level_key \<Rightarrow> order_id list" where
  "fifo_at ob k =
     (case k of (sy, sd, p) \<Rightarrow>
       case (case sd of Buy \<Rightarrow> bid_levels ob sy | Sell \<Rightarrow> ask_levels ob sy) of
         Some (Inr snaps) \<Rightarrow> fifo_in snaps p | _ \<Rightarrow> [])"

lemma fifo_in_spec: "fifo_in (spec_levels os sy sd) p = map ord_id (at_level os (sy, sd, p))"
proof -
  have "List.find (\<lambda>s. snap_price s = p) (map (spec_level os sy sd) ps) =
      (if p \<in> set ps then Some (spec_level os sy sd p) else None)" for ps
    by (induction ps) (auto simp: spec_level_def)
  then show ?thesis
    using set_side_prices [of os sy sd] by (auto simp: fifo_in_def spec_levels_def spec_level_def)
qed

lemma fifo_view: "represents n ob os \<Longrightarrow> fifo_at ob k = map ord_id (at_level os k)"
  by (cases k) (auto simp: fifo_at_def levels_queries fifo_in_spec split: side.splits)

lemma at_level_map:
  "(\<And>x. order_key (f x) = order_key x) \<Longrightarrow> at_level (map f os) k = map f (at_level os k)"
  by (induction os) (auto simp: at_level_def)

lemma ids_without: "map ord_id (without os oid) = filter (\<lambda>x. x \<noteq> oid) (map ord_id os)"
  by (induction os) (auto simp: without_def)

section \<open>Properties\<close>

text \<open>
  C2: The order book implements its specification. A book constructed for \<open>n\<close> orders takes every
  sequence of events without throwing and without undefined behaviour, answers each event as the
  specification on the list of live orders does, and afterwards \<open>find\<close>, \<open>live_order_count\<close>, the
  best prices, the levels with their totals and first-in-first-out queues, and the state hash are
  those of the specified list. In particular the walks along the queues end.
\<close>

theorem order_book_refines:
  assumes "0 < n" and "n < 0xFFFFFFFF"
  shows "\<exists>ob ob'. order_book_init n = Inr ob \<and>
    run_res book_apply ob es = Inr (fst (run_spec (spec_apply n) [] es), ob') \<and>
    (let os = snd (run_spec (spec_apply n) [] es) in
     (\<forall>oid. book_find ob' oid = Inr (find_order os oid)) \<and>
     live_order_count ob' = length os \<and>
     (\<forall>sy. best_bid ob' sy = (case side_prices os sy Buy of [] \<Rightarrow> None | p # _ \<Rightarrow> Some p)) \<and>
     (\<forall>sy. best_ask ob' sy = (case side_prices os sy Sell of [] \<Rightarrow> None | p # _ \<Rightarrow> Some p)) \<and>
     (\<forall>sy. bid_levels ob' sy = Some (Inr (spec_levels os sy Buy))) \<and>
     (\<forall>sy. ask_levels ob' sy = Some (Inr (spec_levels os sy Sell))) \<and>
     state_hash ob' = Some (Inr (spec_hash os)))"
proof -
  obtain ob where ob: "order_book_init n = Inr ob" "represents n ob []"
    using init_represents [of n] assms by (auto simp: kInvalidSlot_def)
  obtain ob' where "run_res book_apply ob es = Inr (fst (run_spec (spec_apply n) [] es), ob')"
    "represents n ob' (snd (run_spec (spec_apply n) [] es))"
    using book.run_sim [OF ob(2)] by blast
  with ob(1) show ?thesis
    by (auto simp: Let_def find_view count_view best_queries levels_queries hash_view)
qed

abbreviation test_meta :: event_meta where
  "test_meta \<equiv> \<lparr>stock_locate = 1, tracking_number = 0, timestamp_ns = 0\<rparr>"

abbreviation test_order :: "order_id \<Rightarrow> side \<Rightarrow> quantity \<Rightarrow> price \<Rightarrow> order" where
  "test_order oid sd q p \<equiv> \<lparr>ord_id = oid, ord_symbol = Symbol (replicate 8 65), ord_side = sd, ord_quantity = q, ord_price = p\<rparr>"

abbreviation test_add :: "order_id \<Rightarrow> side \<Rightarrow> quantity \<Rightarrow> price \<Rightarrow> market_event" where
  "test_add oid sd q p \<equiv> AddEvent \<lparr>add_meta = test_meta, add_order = test_order oid sd q p\<rparr>"

lemmas spec_eval = spec_add_def spec_delete_def spec_reduce_def spec_replace_def find_order_def without_def
  at_level_def order_key_def side_prices_def side_orders_def Let_def

theorem order_book_refines_witness:
  "\<exists>ob ob'. order_book_init 2 = Inr ob \<and>
    run_res book_apply ob [test_add 1 Buy 10 100, test_add 2 Buy 5 101, test_add 3 Sell 5 105,
      DeleteEvent \<lparr>delete_meta = test_meta, delete_order_id = 1\<rparr>, test_add 3 Sell 5 105] =
      Inr ([True, True, False, True, True], ob') \<and>
    live_order_count ob' = 2 \<and> best_bid ob' (Symbol (replicate 8 65)) = Some 101 \<and>
    best_ask ob' (Symbol (replicate 8 65)) = Some 105"
proof -
  let ?es = "[test_add 1 Buy 10 100, test_add 2 Buy 5 101, test_add 3 Sell 5 105,
      DeleteEvent \<lparr>delete_meta = test_meta, delete_order_id = 1\<rparr>, test_add 3 Sell 5 105]"
  have r: "run_spec (spec_apply 2) [] ?es = ([True, True, False, True, True], [test_order 2 Buy 5 101, test_order 3 Sell 5 105])"
    by (simp add: spec_eval)
  have p: "side_prices [test_order 2 Buy 5 101, test_order 3 Sell 5 105] (Symbol (replicate 8 65)) Buy = [101]"
    "side_prices [test_order 2 Buy 5 101, test_order 3 Sell 5 105] (Symbol (replicate 8 65)) Sell = [105]"
    by (simp_all add: side_prices_def side_orders_def)
  have "(0 :: nat) < 2" "(2 :: nat) < 0xFFFFFFFF" by simp_all
  from order_book_refines [OF this, of ?es] show ?thesis
    unfolding r by (auto simp: Let_def p simp del: run_res.simps book_apply.simps)
qed

text \<open>
  C16: An event the book refuses changes nothing a client can see: orders, best prices, levels,
  queues, the number of live orders and the state hash are those before the event.
\<close>

theorem refused_event_invisible:
  assumes "book_reached n ob" and "book_apply ob e = Inr (False, ob')"
  shows "(\<forall>oid. book_find ob' oid = book_find ob oid) \<and> live_order_count ob' = live_order_count ob \<and>
    (\<forall>sy. best_bid ob' sy = best_bid ob sy \<and> best_ask ob' sy = best_ask ob sy \<and>
      bid_levels ob' sy = bid_levels ob sy \<and> ask_levels ob' sy = ask_levels ob sy) \<and>
    state_hash ob' = state_hash ob"
proof -
  obtain os where os: "represents n ob os" using reached_represents [OF assms(1)] .
  have "snd (spec_apply n os e) = os" using apply_represents(1) [OF os assms(2)]
    by (cases e) (auto simp: spec_add_def spec_delete_def spec_reduce_def spec_replace_def Let_def split: option.splits if_splits)
  with apply_represents(2) [OF os assms(2)] have "represents n ob' os" by simp
  with os show ?thesis by (simp add: find_view count_view best_queries levels_queries hash_view)
qed

theorem refused_event_invisible_witness:
  "\<exists>ob ob'. book_reached 2 ob \<and> book_apply ob (test_add 1 Sell 4 90) = Inr (False, ob') \<and>
    state_hash ob' = state_hash ob"
proof -
  obtain ob where ob: "book_reached 2 ob" "represents 2 ob (snd (run_spec (spec_apply 2) [] [test_add 1 Buy 10 100]))"
    by (rule reached_run [of 2 "[test_add 1 Buy 10 100]"]) simp_all
  from apply_sim [OF ob(2), of "test_add 1 Sell 4 90"]
  obtain ob' where "book_apply ob (test_add 1 Sell 4 90) = Inr (False, ob')" by (auto simp: spec_eval)
  with ob(1) refused_event_invisible [OF ob(1)] show ?thesis by blast
qed

text \<open>
  C15: Time priority of new orders. An accepted addition puts the order at the tail of the queue of
  its symbol, side and price, and changes no other queue.
\<close>

theorem add_joins_tail:
  assumes "book_reached n ob" and "book_apply ob (AddEvent e) = Inr (True, ob')"
  shows "fifo_at ob' k = (if k = order_key (add_order e) then fifo_at ob k @ [ord_id (add_order e)] else fifo_at ob k)"
proof -
  obtain os where os: "represents n ob os" using reached_represents [OF assms(1)] .
  have "snd (spec_apply n os (AddEvent e)) = os @ [add_order e]"
    using apply_represents(1) [OF os assms(2)] by (auto simp: spec_add_def split: if_splits)
  with apply_represents(2) [OF os assms(2)] os show ?thesis by (simp add: fifo_view)
qed

theorem add_joins_tail_witness:
  "\<exists>ob ob'. book_reached 2 ob \<and> book_apply ob (test_add 2 Buy 4 100) = Inr (True, ob') \<and>
    fifo_at ob' (Symbol (replicate 8 65), Buy, 100) = [1, 2]"
proof -
  obtain ob where ob: "book_reached 2 ob" "represents 2 ob (snd (run_spec (spec_apply 2) [] [test_add 1 Buy 10 100]))"
    by (rule reached_run [of 2 "[test_add 1 Buy 10 100]"]) simp_all
  have q: "fifo_at ob (Symbol (replicate 8 65), Buy, 100) = [1]" using fifo_view [OF ob(2)] by (simp add: spec_eval)
  from apply_sim [OF ob(2), of "test_add 2 Buy 4 100"]
  obtain ob' where ob': "book_apply ob (test_add 2 Buy 4 100) = Inr (True, ob')" by (auto simp: spec_eval)
  from add_joins_tail [OF ob(1) ob', of "(Symbol (replicate 8 65), Buy, 100)"] q ob(1) ob' show ?thesis
    by (auto simp: order_key_def simp del: book_apply.simps)
qed

text \<open>
  C14: Executions and cancellations keep priority. An accepted execution or cancellation of some
  shares leaves every queue as it was, one of all shares removes just that order from its queue;
  the order keeps its price, side and symbol and loses exactly the shares named.
\<close>

theorem reduce_keeps_priority:
  assumes "book_reached n ob" and "book_apply ob ev = Inr (True, ob')"
    and "ev = ExecuteEvent x \<and> oid = exec_order_id x \<and> q = executed_shares x \<or>
      ev = CancelEvent c \<and> oid = cancel_order_id c \<and> q = canceled_shares c"
  shows "\<exists>ord. book_find ob oid = Inr (Some ord) \<and> q \<noteq> 0 \<and> q \<le> ord_quantity ord \<and>
    (if q = ord_quantity ord
     then book_find ob' oid = Inr None \<and> (\<forall>k. fifo_at ob' k = filter (\<lambda>x. x \<noteq> oid) (fifo_at ob k))
     else book_find ob' oid = Inr (Some (ord\<lparr>ord_quantity := ord_quantity ord - q\<rparr>)) \<and> (\<forall>k. fifo_at ob' k = fifo_at ob k))"
proof -
  obtain os where os: "represents n ob os" using reached_represents [OF assms(1)] .
  let ?f = "\<lambda>x. if ord_id x = oid then x\<lparr>ord_quantity := ord_quantity x - q\<rparr> else x"
  have sp: "spec_apply n os ev = spec_reduce os oid q" using assms(3) by auto
  have t: "fst (spec_reduce os oid q)" and os': "represents n ob' (snd (spec_reduce os oid q))"
    using apply_represents [OF os assms(2)] sp by simp_all
  then obtain ord where ord: "find_order os oid = Some ord" "q \<noteq> 0" "q \<le> ord_quantity ord"
    by (auto simp: spec_reduce_def not_less split: option.splits if_splits)
  have fm: "find_order (map ?f os) oid = Some (ord\<lparr>ord_quantity := ord_quantity ord - q\<rparr>)"
    using ord(1) unfolding find_order_def by (induction os) (auto split: if_splits)
  have ids: "map ord_id (at_level (map ?f os) k) = map ord_id (at_level os k)" for k
    by (subst at_level_map) auto
  show ?thesis
  proof (cases "q = ord_quantity ord")
    case True
    then have r: "represents n ob' (without os oid)" using os' ord by (simp add: spec_reduce_def)
    have "find_order (without os oid) oid = None" by (simp add: find_order_None without_def)
    with r os ord True show ?thesis by (simp add: find_view fifo_view at_level_without ids_without)
  next
    case False
    then have "represents n ob' (map ?f os)" using os' ord leD [OF ord(3)] by (simp add: spec_reduce_def)
    with os ord False fm ids show ?thesis by (auto simp: find_view fifo_view)
  qed
qed

theorem reduce_keeps_priority_witness:
  "\<exists>ob ob'. book_reached 2 ob \<and>
    book_apply ob (CancelEvent \<lparr>cancel_meta = test_meta, cancel_order_id = 1, canceled_shares = 4\<rparr>) = Inr (True, ob') \<and>
    book_find ob' 1 = Inr (Some (test_order 1 Buy 6 100)) \<and> fifo_at ob' (Symbol (replicate 8 65), Buy, 100) = [1]"
proof -
  let ?e = "CancelEvent \<lparr>cancel_meta = test_meta, cancel_order_id = 1, canceled_shares = 4\<rparr>"
  obtain ob where ob: "book_reached 2 ob" "represents 2 ob (snd (run_spec (spec_apply 2) [] [test_add 1 Buy 10 100]))"
    by (rule reached_run [of 2 "[test_add 1 Buy 10 100]"]) simp_all
  have q: "fifo_at ob (Symbol (replicate 8 65), Buy, 100) = [1]" "book_find ob 1 = Inr (Some (test_order 1 Buy 10 100))"
    using fifo_view [OF ob(2)] find_view [OF ob(2), of 1] by (simp_all add: spec_eval)
  from apply_sim [OF ob(2), of ?e]
  obtain ob' where ob': "book_apply ob ?e = Inr (True, ob')" by (auto simp: spec_eval)
  from reduce_keeps_priority [OF ob(1) ob', of _ 1 4 "\<lparr>cancel_meta = test_meta, cancel_order_id = 1, canceled_shares = 4\<rparr>"] q ob(1) ob'
  show ?thesis by (auto simp del: book_apply.simps)
qed

text \<open>
  C13: A replaced order loses its priority. An accepted replacement takes the old order out of its
  queue and puts the new one, with the old symbol and side, at the tail of the queue of the new
  price, also when the price does not change; all other orders keep their places.
\<close>

theorem replace_loses_priority:
  assumes "book_reached n ob" and "book_apply ob (ReplaceEvent e) = Inr (True, ob')"
  shows "\<exists>old. book_find ob (old_order_id e) = Inr (Some old) \<and>
    book_find ob' (new_order_id e) = Inr (Some (old\<lparr>ord_id := new_order_id e, ord_quantity := new_quantity e, ord_price := new_price e\<rparr>)) \<and>
    (\<forall>k. fifo_at ob' k = filter (\<lambda>x. x \<noteq> old_order_id e) (fifo_at ob k) @
      (if k = (ord_symbol old, ord_side old, new_price e) then [new_order_id e] else []))"
proof -
  obtain os where os: "represents n ob os" using reached_represents [OF assms(1)] .
  have t: "fst (spec_replace os e)" and os': "represents n ob' (snd (spec_replace os e))"
    using apply_represents [OF os assms(2)] by simp_all
  then obtain old where old: "find_order os (old_order_id e) = Some old" "find_order os (new_order_id e) = None"
    "snd (spec_replace os e) = without os (old_order_id e) @
      [old\<lparr>ord_id := new_order_id e, ord_quantity := new_quantity e, ord_price := new_price e\<rparr>]"
    by (auto simp: spec_replace_def Let_def split: option.splits if_splits)
  have "find_order (xs @ [y]) (ord_id y) = Some y" if "find_order xs (ord_id y) = None" for xs y
    using that unfolding find_order_def by (induction xs) (auto split: if_splits)
  from this [OF find_without, of os "old\<lparr>ord_id := new_order_id e, ord_quantity := new_quantity e, ord_price := new_price e\<rparr>"]
  show ?thesis
    using os os' old by (simp add: find_view fifo_view at_level_without ids_without) (simp add: order_key_def)
qed

theorem replace_loses_priority_witness:
  "\<exists>ob ob'. book_reached 3 ob \<and>
    book_apply ob (ReplaceEvent \<lparr>replace_meta = test_meta, old_order_id = 1, new_order_id = 3, new_quantity = 8, new_price = 100\<rparr>) =
      Inr (True, ob') \<and>
    fifo_at ob (Symbol (replicate 8 65), Buy, 100) = [1, 2] \<and> fifo_at ob' (Symbol (replicate 8 65), Buy, 100) = [2, 3]"
proof -
  let ?e = "\<lparr>replace_meta = test_meta, old_order_id = 1, new_order_id = 3, new_quantity = 8, new_price = 100\<rparr>"
  let ?es = "[test_add 1 Buy 10 100, test_add 2 Buy 5 100]"
  obtain ob where ob: "book_reached 3 ob" "represents 3 ob (snd (run_spec (spec_apply 3) [] ?es))"
    by (rule reached_run [of 3 ?es]) simp_all
  have q: "fifo_at ob (Symbol (replicate 8 65), Buy, 100) = [1, 2]" "book_find ob 1 = Inr (Some (test_order 1 Buy 10 100))"
    using fifo_view [OF ob(2)] find_view [OF ob(2), of 1] by (simp_all add: spec_eval)
  from apply_sim [OF ob(2), of "ReplaceEvent ?e"]
  obtain ob' where ob': "book_apply ob (ReplaceEvent ?e) = Inr (True, ob')" by (auto simp: spec_eval)
  from replace_loses_priority [OF ob(1) ob'] q ob(1) ob' show ?thesis by (auto simp del: book_apply.simps)
qed

lemma level_shown_exact:
  assumes "represents n ob os" and "s \<in> set (spec_levels os sy sd)"
  shows "fifo_order_ids s \<noteq> [] \<and> distinct (fifo_order_ids s) \<and>
    (\<exists>os. map (book_find ob) (fifo_order_ids s) = map (\<lambda>ord. Inr (Some ord)) os \<and>
      (\<forall>ord \<in> set os. ord_symbol ord = sy \<and> ord_side ord = sd \<and> ord_price ord = snap_price s \<and> ord_quantity ord \<noteq> 0) \<and>
      unat (snap_total s) = sum_list (map (\<lambda>ord. unat (ord_quantity ord)) os))"
proof -
  have ok: "orders_ok n os" using assms(1) by (simp add: represents_def)
  obtain p where p: "p \<in> set (side_prices os sy sd)" "s = spec_level os sy sd p" using assms(2) by (auto simp: spec_levels_def)
  let ?q = "at_level os (sy, sd, p)"
  have "?q \<noteq> []" using p(1) by (simp add: set_side_prices)
  moreover have "distinct (map ord_id ?q)" using ok by (simp add: orders_ok_def at_level_def distinct_map_filter)
  moreover have "map (book_find ob) (map ord_id ?q) = map (\<lambda>ord. Inr (Some ord)) ?q"
    using ok find_order_eq [of os] by (auto simp: find_view [OF assms(1)] orders_ok_def at_level_def)
  moreover have "\<forall>ord \<in> set ?q. ord_symbol ord = sy \<and> ord_side ord = sd \<and> ord_price ord = p \<and> ord_quantity ord \<noteq> 0"
    using ok by (auto simp: orders_ok_def at_level_def order_key_def)
  moreover have "unat (of_nat (shares_of ?q) :: quantity) = shares_of ?q"
    using ok by (intro unat_shares) (simp add: orders_ok_def)
  ultimately show ?thesis using p(2) by (auto simp: spec_level_def shares_of_def intro!: exI [of _ ?q])
qed

lemma level_shows_order:
  assumes "find_order os oid = Some ord"
  shows "\<exists>s \<in> set (spec_levels os (ord_symbol ord) (ord_side ord)). snap_price s = ord_price ord \<and> oid \<in> set (fifo_order_ids s)"
proof -
  have o: "ord \<in> set os" "ord_id ord = oid" using find_order_Some [OF assms] by simp_all
  let ?k = "(ord_symbol ord, ord_side ord, ord_price ord)"
  have a: "ord \<in> set (at_level os ?k)" using o(1) by (simp add: at_level_def order_key_def)
  then have "ord_price ord \<in> set (side_prices os (ord_symbol ord) (ord_side ord))" by (auto simp: set_side_prices)
  then have "spec_level os (ord_symbol ord) (ord_side ord) (ord_price ord) \<in> set (spec_levels os (ord_symbol ord) (ord_side ord))"
    by (auto simp: spec_levels_def)
  moreover have "oid \<in> ord_id ` set (at_level os ?k)" using a o(2) by force
  ultimately show ?thesis by (intro bexI [of _ "spec_level os (ord_symbol ord) (ord_side ord) (ord_price ord)"]) (simp_all add: spec_level_def)
qed

text \<open>
  C12: What the depth queries show is exact. In every reachable book the depth query of a side of a symbol
  returns; bid levels come in strictly descending and ask levels in strictly ascending price order; a
  level shows at least one order and no order twice; every id it shows is a live order of that
  symbol, side and price with shares left, and the level's total is the sum of their shares: no
  total ever wraps. Conversely every live order of that symbol and side is shown, at the level of its price.
\<close>

theorem levels_exact:
  assumes "book_reached n ob"
  shows "\<exists>snaps. (if sd = Buy then bid_levels ob sy else ask_levels ob sy) = Some (Inr snaps) \<and>
    sorted_wrt (\<lambda>a b. if sd = Buy then snap_price b < snap_price a else snap_price a < snap_price b) snaps \<and>
    (\<forall>s \<in> set snaps. fifo_order_ids s \<noteq> [] \<and> distinct (fifo_order_ids s) \<and>
      (\<exists>os. map (book_find ob) (fifo_order_ids s) = map (\<lambda>ord. Inr (Some ord)) os \<and>
        (\<forall>ord \<in> set os. ord_symbol ord = sy \<and> ord_side ord = sd \<and> ord_price ord = snap_price s \<and> ord_quantity ord \<noteq> 0) \<and>
        unat (snap_total s) = sum_list (map (\<lambda>ord. unat (ord_quantity ord)) os))) \<and>
    (\<forall>oid ord. book_find ob oid = Inr (Some ord) \<and> ord_symbol ord = sy \<and> ord_side ord = sd \<longrightarrow>
      (\<exists>s \<in> set snaps. snap_price s = ord_price ord \<and> oid \<in> set (fifo_order_ids s)))"
proof -
  obtain os where os: "represents n ob os" using reached_represents [OF assms(1)] .
  let ?snaps = "spec_levels os sy sd"
  have q: "(if sd = Buy then bid_levels ob sy else ask_levels ob sy) = Some (Inr ?snaps)"
    using levels_queries [OF os] by (cases sd) auto
  have srt: "sorted_wrt (\<lambda>a b. if sd = Buy then snap_price b < snap_price a else snap_price a < snap_price b) ?snaps"
    using side_prices_sorted [of sd os sy] unfolding spec_levels_def sorted_wrt_map
    by (cases sd) (simp_all add: side_lt_def spec_level_def)
  have "\<exists>s \<in> set ?snaps. snap_price s = ord_price ord \<and> oid \<in> set (fifo_order_ids s)"
    if "book_find ob oid = Inr (Some ord)" "ord_symbol ord = sy" "ord_side ord = sd" for oid ord
    using that level_shows_order [of os oid ord] by (simp add: find_view [OF os])
  with q srt level_shown_exact [OF os] show ?thesis by blast
qed

theorem levels_exact_witness:
  "\<exists>ob snaps. book_reached 2 ob \<and> bid_levels ob (Symbol (replicate 8 65)) = Some (Inr snaps) \<and>
    snap_price (snaps ! 1) < snap_price (snaps ! 0) \<and> (\<exists>s \<in> set snaps. snap_price s = 101 \<and> 2 \<in> set (fifo_order_ids s))"
proof -
  let ?es = "[test_add 1 Buy 10 100, test_add 2 Buy 5 101]"
  obtain ob where ob: "book_reached 2 ob" "represents 2 ob (snd (run_spec (spec_apply 2) [] ?es))"
    by (rule reached_run [of 2 ?es]) simp_all
  let ?sy = "Symbol (replicate 8 65)" and ?o = "test_order 2 Buy 5 101"
  have f: "book_find ob 2 = Inr (Some ?o)" "ord_symbol ?o = ?sy" "ord_side ?o = Buy" "ord_price ?o = 101"
    using find_view [OF ob(2), of 2] by (simp_all add: spec_eval)
  obtain snaps where l: "bid_levels ob ?sy = Some (Inr snaps)" "sorted_wrt (\<lambda>a b. snap_price b < snap_price a) snaps"
    "\<forall>oid ord. book_find ob oid = Inr (Some ord) \<and> ord_symbol ord = ?sy \<and> ord_side ord = Buy \<longrightarrow>
      (\<exists>s \<in> set snaps. snap_price s = ord_price ord \<and> oid \<in> set (fifo_order_ids s))"
    using levels_exact [OF ob(1), of Buy ?sy] unfolding if_P [OF refl] by blast
  have "length snaps = 2" using levels_queries(1) [OF ob(2), of ?sy] l(1) by (auto simp: spec_eval spec_levels_def)
  then have "snap_price (snaps ! 1) < snap_price (snaps ! 0)" using l(2) by (simp add: sorted_wrt_iff_nth_less)
  moreover have "\<exists>s \<in> set snaps. snap_price s = 101 \<and> 2 \<in> set (fifo_order_ids s)" using l(3) f by metis
  ultimately show ?thesis using l(1) ob(1) by blast
qed

text \<open>
  Capacity is never lost. In every reachable book with fewer live orders than its capacity,
  whatever was added, refused, executed, replaced and deleted before, an order with a fresh non-zero
  id and non-zero quantity at a price with an empty queue is accepted and found afterwards.
\<close>

theorem no_slot_leak:
  assumes "book_reached n ob" and "live_order_count ob < n" and "ord_id (add_order e) \<noteq> 0"
    and "ord_quantity (add_order e) \<noteq> 0" and "book_find ob (ord_id (add_order e)) = Inr None"
    and "fifo_at ob (order_key (add_order e)) = []"
  shows "\<exists>ob'. book_apply ob (AddEvent e) = Inr (True, ob') \<and>
    book_find ob' (ord_id (add_order e)) = Inr (Some (add_order e)) \<and> live_order_count ob' = live_order_count ob + 1"
proof -
  obtain os where os: "represents n ob os" using reached_represents [OF assms(1)] .
  have "at_level os (order_key (add_order e)) = []" using assms(6) fifo_view [OF os] by simp
  then have sp: "spec_apply n os (AddEvent e) = (True, os @ [add_order e])"
    using assms(2-5) unat_u32_less [of "ord_quantity (add_order e)"]
    by (auto simp: spec_add_def find_view [OF os] count_view [OF os])
  obtain ob' where ob': "book_apply ob (AddEvent e) = Inr (True, ob')" "represents n ob' (os @ [add_order e])"
    using apply_sim [OF os, of "AddEvent e"] unfolding sp by auto
  have "find_order (os @ [add_order e]) (ord_id (add_order e)) = Some (add_order e)"
    using ob'(2) by (intro find_order_eq) (auto simp: represents_def orders_ok_def)
  with ob' os show ?thesis by (simp add: find_view count_view)
qed

theorem no_slot_leak_witness:
  "\<exists>ob ob'. book_reached 1 ob \<and> book_apply ob (test_add 2 Sell 3 50) = Inr (True, ob') \<and>
    book_find ob' 2 = Inr (Some (test_order 2 Sell 3 50))"
proof -
  let ?es = "[test_add 1 Buy 10 100, DeleteEvent \<lparr>delete_meta = test_meta, delete_order_id = 1\<rparr>]"
  obtain ob where ob: "book_reached 1 ob" "represents 1 ob (snd (run_spec (spec_apply 1) [] ?es))"
    by (rule reached_run [of 1 ?es]) simp_all
  have v: "live_order_count ob < 1" "book_find ob 2 = Inr None" "fifo_at ob (Symbol (replicate 8 65), Sell, 50) = []"
    using count_view [OF ob(2)] find_view [OF ob(2), of 2] fifo_view [OF ob(2)] by (simp_all add: spec_eval)
  from no_slot_leak [OF ob(1) v(1), of "\<lparr>add_meta = test_meta, add_order = test_order 2 Sell 3 50\<rparr>"] v ob(1)
  show ?thesis by (auto simp: order_key_def simp del: book_apply.simps)
qed

end
