(* ===== verification/Capture.thy ===== *)
theory Capture
  imports Byte_Reader
begin

text \<open>
  \<^verbatim>\<open>include/efe/capture.hpp\<close> and \<^verbatim>\<open>src/capture.cpp\<close>: the EFC2 capture files. A file stream is its
  bytes and its error state. Whether the operating system opens a file or stores bytes is not
  decided by this code: \<open>can_open\<close> and \<open>disk\<close> are parameters. Output is buffered: a write reaches the file
  system when the stream's buffer overflows or the stream is closed, and only then can it fail. The code
  neither flushes the stream nor tests it when it is closed.
\<close>

section \<open>Streams\<close>

text \<open>
  The file system, \<open>dk_takes\<close>: the contents it stores. The buffer of the stream, \<open>dk_held\<close>: how many of the bytes
  written so far are still in it after a write, which the implementation decides.
\<close>

record disk =
  dk_takes :: "u8 list \<Rightarrow> bool"
  dk_held :: "u8 list \<Rightarrow> nat"

text \<open>The bytes written to a stream, how many of them were passed on to the file system, and its state.\<close>

record ostream =
  os_data :: "u8 list"
  os_flushed :: nat
  os_good :: bool

record istream =
  is_rest :: "u8 list"
  is_good :: bool

definition os_open :: ostream where
  "os_open = \<lparr>os_data = [], os_flushed = 0, os_good = True\<rparr>"

definition os_write :: "disk \<Rightarrow> ostream \<Rightarrow> u8 list \<Rightarrow> ostream" where
  "os_write disk out bs =
     (if \<not> os_good out then out
      else let written = os_data out @ bs;
               flushed = max (os_flushed out) (length written - dk_held disk written)
           in if flushed = os_flushed out \<or> dk_takes disk (take flushed written)
              then out\<lparr>os_data := written, os_flushed := flushed\<rparr>
              else out\<lparr>os_good := False\<rparr>)"

text \<open>
  The destructor of the stream passes on the rest and ignores a failure. The result is the file, or
  \<open>None\<close> if bytes were lost, now or before.
\<close>

definition os_close :: "disk \<Rightarrow> ostream \<Rightarrow> u8 list option" where
  "os_close disk out =
     (if os_good out \<and> (os_flushed out = length (os_data out) \<or> dk_takes disk (os_data out)) then Some (os_data out) else None)"

text \<open>
  \<open>istream::read\<close> into a zeroed array: a short read fills what there is and fails; \<open>peek\<close> sees the
  end of a stream that has no more bytes or has failed.
\<close>

definition is_read :: "istream \<Rightarrow> nat \<Rightarrow> u8 list \<times> istream" where
  "is_read i n =
     (if \<not> is_good i then (replicate n 0, i)
      else if n \<le> length (is_rest i) then (take n (is_rest i), i\<lparr>is_rest := drop n (is_rest i)\<rparr>)
      else (is_rest i @ replicate (n - length (is_rest i)) 0, i\<lparr>is_rest := [], is_good := False\<rparr>))"

definition peek_eof :: "istream \<Rightarrow> bool" where
  "peek_eof i \<longleftrightarrow> \<not> is_good i \<or> is_rest i = []"

section \<open>Numbers\<close>

definition write_u32 :: "disk \<Rightarrow> ostream \<Rightarrow> u32 \<Rightarrow> ostream" where
  "write_u32 disk out v =
     os_write disk out [ucast (drop_bit 24 v), ucast (drop_bit 16 v), ucast (drop_bit 8 v), ucast v]"

definition write_u64 :: "disk \<Rightarrow> ostream \<Rightarrow> u64 \<Rightarrow> ostream" where
  "write_u64 disk out v =
     os_write disk out (map (\<lambda>i. ucast (drop_bit (i * 8) v AND 0xFF)) [7, 6, 5, 4, 3, 2, 1, 0])"

definition read_u32 :: "istream \<Rightarrow> (u32 \<times> istream) res" where
  "read_u32 i =
     (let (b, i) = is_read i 4
      in if \<not> is_good i then Inl (RuntimeError ''truncated capture length'')
         else Inr (push_bit 24 (ucast (b ! 0)) OR push_bit 16 (ucast (b ! 1)) OR push_bit 8 (ucast (b ! 2)) OR ucast (b ! 3), i))"

definition read_u64 :: "istream \<Rightarrow> (u64 \<times> istream) res" where
  "read_u64 i =
     (let (b, i) = is_read i 8
      in if \<not> is_good i then Inl (RuntimeError ''truncated capture timestamp'')
         else Inr (foldl (\<lambda>v x. push_bit 8 v OR ucast x) 0 b, i))"

section \<open>Writer and reader\<close>

definition kMaxCaptureDatagramSize :: nat where
  "kMaxCaptureDatagramSize = 65535"

record capture_record =
  monotonic_ns :: u64
  datagram :: "u8 list"

definition magic :: "u8 list" where
  "magic = map of_char ''EFC2''"

definition writer_init :: "disk \<Rightarrow> bool \<Rightarrow> string \<Rightarrow> ostream res" where
  "writer_init disk can_open path =
     (if \<not> can_open then Inl (RuntimeError (''failed to open capture for writing: '' @ path))
      else Inr (os_write disk os_open magic))"

definition capture_write :: "disk \<Rightarrow> ostream \<Rightarrow> u64 \<Rightarrow> u8 list \<Rightarrow> ostream res" where
  "capture_write disk out ns d =
     (if length d > kMaxCaptureDatagramSize then Inl (RuntimeError ''capture datagram too large'')
      else let out = write_u64 disk out ns;
               out = write_u32 disk out (of_nat (length d));
               out = os_write disk out d
           in if \<not> os_good out then Inl (RuntimeError ''capture write failed'') else Inr out)"

definition reader_init :: "bool \<Rightarrow> string \<Rightarrow> u8 list \<Rightarrow> istream res" where
  "reader_init can_open path contents =
     (if \<not> can_open then Inl (RuntimeError (''failed to open capture: '' @ path))
      else let (m, i) = is_read \<lparr>is_rest = contents, is_good = True\<rparr> 4
           in if \<not> is_good i \<or> m \<noteq> magic then Inl (RuntimeError ''not an EFC2 capture'') else Inr i)"

definition capture_next :: "istream \<Rightarrow> (capture_record option \<times> istream) res" where
  "capture_next i =
     (if peek_eof i then Inr (None, i)
      else rbind (read_u64 i) (\<lambda>(ns, i).
           rbind (read_u32 i) (\<lambda>(len, i).
           if unat len > kMaxCaptureDatagramSize then Inl (RuntimeError ''capture datagram length exceeds limit'')
           else let (d, i) = is_read i (unat len)
                in if \<not> is_good i then Inl (RuntimeError ''truncated capture payload'')
                   else Inr (Some \<lparr>monotonic_ns = ns, datagram = d\<rparr>, i))))"

text \<open>Writing a list of records, and reading until the end as the clients do.\<close>

fun write_all :: "disk \<Rightarrow> ostream \<Rightarrow> capture_record list \<Rightarrow> ostream res" where
  "write_all disk out [] = Inr out"
| "write_all disk out (r # rs) = rbind (capture_write disk out (monotonic_ns r) (datagram r)) (\<lambda>out. write_all disk out rs)"

lemma read_u64_eq:
  "is_good i \<Longrightarrow> read_u64 i = (if 8 \<le> length (is_rest i)
     then Inr (be_word (take 8 (is_rest i)), i\<lparr>is_rest := drop 8 (is_rest i)\<rparr>)
     else Inl (RuntimeError ''truncated capture timestamp''))"
  by (auto simp: read_u64_def is_read_def be_word_def be_step_def [abs_def] Let_def)

lemma read_u32_eq:
  assumes "is_good i"
  shows "read_u32 i = (if 4 \<le> length (is_rest i)
     then Inr (be_word (take 4 (is_rest i)), i\<lparr>is_rest := drop 4 (is_rest i)\<rparr>)
     else Inl (RuntimeError ''truncated capture length''))"
proof (cases "4 \<le> length (is_rest i)")
  case True
  then obtain a b c d r where "is_rest i = a # b # c # d # r"
    by (auto simp: numeral_eq_Suc Suc_le_length_iff)
  with assms show ?thesis
    by (simp add: read_u32_def is_read_def be_word_def be_step_def push_bit_or or.assoc numeral_eq_Suc)
next
  case False
  with assms show ?thesis by (simp add: read_u32_def is_read_def)
qed

lemma capture_next_shrinks:
  assumes "capture_next i = Inr (Some r, i')"
  shows "length (is_rest i') < length (is_rest i)"
  using assms
  by (auto simp: capture_next_def peek_eof_def read_u64_eq read_u32_eq is_read_def res_simps Let_def split: if_splits prod.splits)

function read_all :: "istream \<Rightarrow> capture_record list res" where
  "read_all i =
     rbind (capture_next i) (\<lambda>x.
       case x of (None, i) \<Rightarrow> Inr []
       | (Some r, i) \<Rightarrow> rbind (read_all i) (\<lambda>rs. Inr (r # rs)))"
  by pat_completeness auto
termination
  by (relation "measure (\<lambda>i. length (is_rest i))") (auto dest: capture_next_shrinks)

declare read_all.simps [simp del]

section \<open>The file format\<close>

definition record_ok :: "capture_record \<Rightarrow> bool" where
  "record_ok r \<longleftrightarrow> length (datagram r) \<le> kMaxCaptureDatagramSize"

definition record_bytes :: "capture_record \<Rightarrow> u8 list" where
  "record_bytes r = be_bytes 8 (monotonic_ns r) @ be_bytes 4 (of_nat (length (datagram r)) :: u32) @ datagram r"

lemma write_u64_eq: "write_u64 disk out v = os_write disk out (be_bytes 8 v)"
  by (simp add: write_u64_def be_bytes_def upt_rec)

lemma write_u32_eq: "write_u32 disk out v = os_write disk out (be_bytes 4 v)"
  by (simp add: write_u32_def be_bytes_def upt_rec)

lemma os_write_good: "os_good (os_write disk out bs) \<Longrightarrow> os_good out \<and> os_data (os_write disk out bs) = os_data out @ bs"
  by (auto simp: os_write_def Let_def split: if_splits)

text \<open>On a file system that takes everything no write fails.\<close>

lemma os_write_taken: "os_good out \<Longrightarrow> \<forall>b. dk_takes disk b \<Longrightarrow> os_good (os_write disk out bs)"
  by (simp add: os_write_def Let_def)

lemma capture_write_Inr:
  assumes "capture_write disk out ns d = Inr out'"
  shows "os_good out \<and> os_good out' \<and> os_data out' = os_data out @ record_bytes \<lparr>monotonic_ns = ns, datagram = d\<rparr> \<and>
    record_ok \<lparr>monotonic_ns = ns, datagram = d\<rparr>"
proof -
  let ?o1 = "os_write disk out (be_bytes 8 ns)" and ?n = "be_bytes 4 (of_nat (length d) :: u32)"
  let ?o2 = "os_write disk ?o1 ?n"
  have o: "out' = os_write disk ?o2 d" "os_good out'" "length d \<le> kMaxCaptureDatagramSize"
    using assms by (auto simp: capture_write_def write_u64_eq write_u32_eq Let_def split: if_splits)
  then show ?thesis
    using os_write_good [of disk ?o2 d] os_write_good [of disk ?o1 ?n] os_write_good [of disk out "be_bytes 8 ns"]
    by (simp add: record_bytes_def record_ok_def)
qed

lemma write_all_Inr:
  "write_all disk out rs = Inr out' \<Longrightarrow>
   os_data out' = os_data out @ concat (map record_bytes rs) \<and> list_all record_ok rs \<and> os_good out' = os_good out"
proof (induction rs arbitrary: out)
  case (Cons r rs)
  then obtain out1 where w: "capture_write disk out (monotonic_ns r) (datagram r) = Inr out1" "write_all disk out1 rs = Inr out'"
    by (auto simp: res_simps)
  from Cons.IH [OF w(2)] capture_write_Inr [OF w(1)] show ?case by (cases r) simp
qed simp

lemma capture_write_ok:
  assumes "os_good out" and "record_ok \<lparr>monotonic_ns = ns, datagram = d\<rparr>"
    and "os_good (os_write disk (os_write disk (os_write disk out (be_bytes 8 ns)) (be_bytes 4 (of_nat (length d) :: u32))) d)"
  shows "\<exists>out'. capture_write disk out ns d = Inr out' \<and> os_good out'"
  using assms by (simp add: capture_write_def record_ok_def write_u64_eq write_u32_eq Let_def)

lemma write_all_ok:
  assumes "\<And>out bs. os_good out \<Longrightarrow> os_good (os_write disk out bs)"
  shows "os_good out \<Longrightarrow> list_all record_ok rs \<Longrightarrow> \<exists>out'. write_all disk out rs = Inr out' \<and> os_good out'"
proof (induction rs arbitrary: out)
  case (Cons r rs)
  then obtain out1 where "capture_write disk out (monotonic_ns r) (datagram r) = Inr out1" "os_good out1"
    using capture_write_ok [of out "monotonic_ns r" "datagram r" disk] assms by (cases r) auto
  with Cons show ?case by auto
qed simp

lemma writer_init_ok:
  assumes "writer_init disk can_open path = Inr out" and "os_good out"
  shows "os_data out = magic"
  using assms os_write_good [of disk os_open magic] by (auto simp: writer_init_def os_open_def split: if_splits)

lemma be_bytes_eq_Nil [simp]: "be_bytes n v = [] \<longleftrightarrow> n = 0"
  using length_be_bytes [of n v] by (metis length_0_conv)

lemma length_record_bytes [simp]: "length (record_bytes r) = 12 + length (datagram r)"
  by (simp add: record_bytes_def)

lemma unat_record_length: "record_ok r \<Longrightarrow> unat (of_nat (length (datagram r)) :: u32) = length (datagram r)"
  by (simp add: record_ok_def kMaxCaptureDatagramSize_def unat_of_nat)

lemma capture_next_record:
  assumes "is_good i" and "is_rest i = record_bytes r @ rest" and "record_ok r"
  shows "capture_next i = Inr (Some r, i\<lparr>is_rest := rest\<rparr>)"
  using assms unat_record_length [OF assms(3)]
  by (simp add: capture_next_def peek_eof_def read_u64_eq read_u32_eq is_read_def record_bytes_def record_ok_def)

lemma capture_next_inv:
  assumes "capture_next i = Inr (Some r, i')" 
  shows "is_good i \<and> is_good i' \<and> is_rest i = record_bytes r @ is_rest i' \<and> record_ok r"
proof -
  have g: "is_good i" using assms by (auto simp: capture_next_def peek_eof_def split: if_splits)
  define s where "s = is_rest i"
  define len where "len = (be_word (take 4 (drop 8 s)) :: u32)"
  have e: "12 + unat len \<le> length s" "unat len \<le> kMaxCaptureDatagramSize"
    "r = \<lparr>monotonic_ns = be_word (take 8 s), datagram = take (unat len) (drop 12 s)\<rparr>" "i' = i\<lparr>is_rest := drop (12 + unat len) s\<rparr>"
    using assms g
    by (auto simp: capture_next_def peek_eof_def read_u64_eq read_u32_eq is_read_def s_def len_def res_simps Let_def add.commute
        split: if_splits prod.splits)
  have l: "length (datagram r) = unat len" using e(1,3) by simp
  have "be_bytes 8 (monotonic_ns r) = take 8 s"
    using e by (simp add: be_bytes_be_word)
  moreover have "be_bytes 4 (of_nat (length (datagram r)) :: u32) = take 4 (drop 8 s)"
    using e unfolding l by (simp add: len_def be_bytes_be_word)
  ultimately have "record_bytes r = take 8 s @ take 4 (drop 8 s) @ take (unat len) (drop 12 s)"
    using e(3) by (simp add: record_bytes_def)
  also have "\<dots> = take (12 + unat len) s" 
    using take_add [of 12 "unat len" s] take_add [of 8 4 s] by simp
  finally show ?thesis using g e l by (simp add: s_def record_ok_def)
qed

lemma capture_next_None: "capture_next i = Inr (None, i') \<Longrightarrow> is_good i \<Longrightarrow> is_rest i = []"
  by (auto simp: capture_next_def peek_eof_def Let_def res_simps split: prod.splits if_splits)

lemma read_all_sound:
  "read_all i = Inr rs \<Longrightarrow> is_good i \<Longrightarrow> is_rest i = concat (map record_bytes rs) \<and> list_all record_ok rs"
proof (induction i arbitrary: rs rule: read_all.induct)
  case (1 i)
  from "1.prems"(1) obtain x i' where n: "capture_next i = Inr (x, i')"
    by (subst (asm) read_all.simps) (auto simp: res_simps)
  show ?case
  proof (cases x)
    case None
    then show ?thesis
      using "1.prems" n capture_next_None [of i i'] by (subst (asm) read_all.simps) simp
  next
    case (Some r)
    with "1.prems"(1) n obtain rs' where r: "rs = r # rs'" "read_all i' = Inr rs'"
      by (subst (asm) read_all.simps) (auto simp: res_simps)
    have "is_rest i = record_bytes r @ is_rest i'" "is_good i'" "record_ok r"
      using capture_next_inv [of i r i'] n Some by simp_all
    with "1.IH" [OF n refl Some r(2)] r(1) show ?thesis by simp
  qed
qed

lemma read_all_records:
  "is_good i \<Longrightarrow> is_rest i = concat (map record_bytes rs) \<Longrightarrow> list_all record_ok rs \<Longrightarrow> read_all i = Inr rs"
proof (induction rs arbitrary: i)
  case Nil
  then show ?case by (subst read_all.simps) (simp add: capture_next_def peek_eof_def)
next
  case (Cons r rs)
  have "capture_next i = Inr (Some r, i\<lparr>is_rest := concat (map record_bytes rs)\<rparr>)"
    using Cons.prems by (intro capture_next_record) simp_all
  with Cons.IH [of "i\<lparr>is_rest := concat (map record_bytes rs)\<rparr>"] Cons.prems show ?case
    by (subst read_all.simps) simp
qed

lemma read_all_iff:
  "is_good i \<Longrightarrow> read_all i = Inr rs \<longleftrightarrow> is_rest i = concat (map record_bytes rs) \<and> list_all record_ok rs"
  using read_all_sound read_all_records by blast

lemma length_magic [simp]: "length magic = 4"
  by (simp add: magic_def)

lemma reader_init_iff:
  "reader_init True path c = Inr i \<longleftrightarrow> (\<exists>rest. c = magic @ rest \<and> i = \<lparr>is_rest = rest, is_good = True\<rparr>)"
proof -
  have "c = magic @ rest \<Longrightarrow> take 4 c = magic \<and> drop 4 c = rest" for rest by simp
  moreover have "take 4 c = magic \<Longrightarrow> c = magic @ drop 4 c" by (metis append_take_drop_id)
  ultimately show ?thesis by (auto simp: reader_init_def is_read_def Let_def split: if_splits)
qed

section \<open>Properties\<close>

text \<open>The contents of a capture file, read to the end.\<close>

definition read_capture :: "bool \<Rightarrow> string \<Rightarrow> u8 list \<Rightarrow> capture_record list res" where
  "read_capture can_open path contents = rbind (reader_init can_open path contents) read_all"

lemma read_capture_iff:
  "read_capture True path c = Inr rs \<longleftrightarrow> c = magic @ concat (map record_bytes rs) \<and> list_all record_ok rs"
  by (auto simp: read_capture_def res_simps reader_init_iff read_all_iff)

text \<open>A disk that takes everything, behind a buffer of seven bytes.\<close>

definition sample_disk :: disk where
  "sample_disk = \<lparr>dk_takes = \<lambda>_. True, dk_held = \<lambda>b. length b mod 7\<rparr>"

lemma sample_disk_takes [simp]: "dk_takes sample_disk b"
  by (simp add: sample_disk_def)

text \<open>
  C32: a capture that was written is read back. If the writer returned for every record and no bytes were lost, the file it
  leaves when it is destroyed, read to its end, gives exactly these records, in order, with their timestamps
  and payloads, whatever the stream buffered meanwhile. On a file system that stores what it is
  given, every list of records within the size limit is written so.
\<close>

theorem capture_roundtrip:
  "(writer_init disk True path = Inr out0 \<and> write_all disk out0 rs = Inr out \<and> os_close disk out = Some file \<longrightarrow>
     read_capture True path' file = Inr rs) \<and>
   ((\<forall>b. dk_takes disk b) \<and> list_all record_ok rs \<longrightarrow>
     (\<exists>out0 out file. writer_init disk True path = Inr out0 \<and> write_all disk out0 rs = Inr out \<and> os_close disk out = Some file))"
proof (intro conjI impI; (elim conjE)?)
  assume w: "writer_init disk True path = Inr out0" "write_all disk out0 rs = Inr out" and c: "os_close disk out = Some file"
  have o: "os_data out = os_data out0 @ concat (map record_bytes rs)" "list_all record_ok rs" "os_good out = os_good out0"
    using write_all_Inr [OF w(2)] by simp_all
  have "file = os_data out" "os_good out" using c by (auto simp: os_close_def split: if_splits)
  with o writer_init_ok [OF w(1)] show "read_capture True path' file = Inr rs" by (simp add: read_capture_iff)
next
  assume t: "\<forall>b. dk_takes disk b" "list_all record_ok rs"
  have "os_good (os_write disk os_open magic)" using t(1) by (intro os_write_taken) (simp_all add: os_open_def)
  with write_all_ok [of disk _ rs] t os_write_taken [of _ disk] obtain out
    where "write_all disk (os_write disk os_open magic) rs = Inr out" "os_good out" by blast
  with t(1) show "\<exists>out0 out file. writer_init disk True path = Inr out0 \<and> write_all disk out0 rs = Inr out \<and> os_close disk out = Some file"
    by (simp add: writer_init_def os_close_def)
qed

theorem capture_roundtrip_witness:
  "\<exists>out0 out file. writer_init sample_disk True ''a'' = Inr out0 \<and>
    write_all sample_disk out0 [\<lparr>monotonic_ns = 5, datagram = [1, 2, 3]\<rparr>] = Inr out \<and>
    os_close sample_disk out = Some file \<and>
    read_capture True ''a'' file = Inr [\<lparr>monotonic_ns = 5, datagram = [1, 2, 3]\<rparr>]"
  using capture_roundtrip [of sample_disk "''a''" _ "[\<lparr>monotonic_ns = 5, datagram = [1, 2, 3]\<rparr>]" _ _ "''a''"]
  by (fastforce simp: record_ok_def kMaxCaptureDatagramSize_def)

text \<open>
  A loss may go unnoticed. For every list of records within the limit there is a machine, one whose disk is full
  and whose buffer holds them, on which the writer returns for each record and nothing reaches the file.
\<close>

theorem capture_loss_unnoticed:
  assumes "list_all record_ok rs"
  shows "\<exists>disk out0 out. writer_init disk True path = Inr out0 \<and> write_all disk out0 rs = Inr out \<and> os_close disk out = None"
proof -
  define disk :: disk where "disk = \<lparr>dk_takes = \<lambda>_. False, dk_held = length\<rparr>"
  have g: "os_good out \<Longrightarrow> os_good (os_write disk out bs)" for out bs by (simp add: os_write_def disk_def Let_def)
  have f: "os_flushed (os_write disk out bs) = os_flushed out" for out bs by (simp add: os_write_def disk_def Let_def)
  have fw: "os_flushed out' = os_flushed out" if "capture_write disk out ns d = Inr out'" for out out' ns d
    using that by (auto simp: capture_write_def write_u64_def write_u32_def f Let_def split: if_splits)
  have fa: "write_all disk out xs = Inr out' \<Longrightarrow> os_flushed out' = os_flushed out" for out xs out'
    by (induction xs arbitrary: out) (auto simp: res_simps dest: fw)
  let ?out0 = "os_write disk os_open magic"
  have g0: "os_good ?out0" by (rule g) (simp add: os_open_def)
  obtain out where w: "write_all disk ?out0 rs = Inr out" "os_good out" using write_all_ok [OF g g0 assms] by blast
  have "os_flushed out = 0" using fa [OF w(1)] by (simp add: f os_open_def)
  moreover have "os_data out \<noteq> []"
    using write_all_Inr [OF w(1)] os_write_good [OF g0] by (simp add: os_open_def magic_def)
  ultimately have "os_close disk out = None" by (auto simp: os_close_def disk_def)
  with w(1) show ?thesis by (intro exI [of _ disk] exI [of _ ?out0] exI [of _ out]) (simp add: writer_init_def)
qed

theorem capture_loss_unnoticed_witness:
  "\<exists>disk out0 out. writer_init disk True ''c'' = Inr out0 \<and> write_all disk out0 [\<lparr>monotonic_ns = 5, datagram = [1, 2, 3]\<rparr>] = Inr out \<and>
    os_close disk out = None"
  using capture_loss_unnoticed [of "[\<lparr>monotonic_ns = 5, datagram = [1, 2, 3]\<rparr>]" "''c''"] by (simp add: record_ok_def kMaxCaptureDatagramSize_def)

text \<open>
  C33: the reader accepts exactly the well-formed files. A file is read to its end without an
  exception if and only if it is the magic number followed by complete records within the size
  limit, and then these records are what is returned: no truncated or oversized record and no
  trailing byte is passed over.
\<close>

theorem capture_reader_exact:
  "(read_capture True path c = Inr rs) = (c = magic @ concat (map record_bytes rs) \<and> list_all record_ok rs)"
  by (rule read_capture_iff)

lemma capture_next_outcome: "(\<exists>x. capture_next i = Inr x) \<or> (\<exists>s. capture_next i = Inl (RuntimeError s))"
  by (auto simp: capture_next_def read_u64_def read_u32_def Let_def split: prod.splits)

lemma read_all_outcome: "(\<exists>rs. read_all i = Inr rs) \<or> (\<exists>s. read_all i = Inl (RuntimeError s))"
proof (induction i rule: read_all.induct)
  case (1 i)
  then show ?case
    using capture_next_outcome [of i] by (subst (1 2) read_all.simps) (fastforce split: option.splits prod.splits)
qed

text \<open>
  Reading a capture terminates on every file, with its records or a runtime error; a datagram
  beyond the limit is refused by the writer before a byte is written.
\<close>

theorem capture_total:
  "((\<exists>rs. read_capture can_open path c = Inr rs) \<or> (\<exists>s. read_capture can_open path c = Inl (RuntimeError s))) \<and>
   capture_write disk out ns (replicate (kMaxCaptureDatagramSize + Suc k) b) = Inl (RuntimeError ''capture datagram too large'')"
  using read_all_outcome
  by (auto simp: read_capture_def reader_init_def capture_write_def Let_def split: prod.splits)

end
