(* ===== verification/Replay.thy ===== *)
theory Replay
  imports Capture Complex_Main
begin

text \<open>
  \<^verbatim>\<open>include/efe/replay.hpp\<close> and \<^verbatim>\<open>src/replay.cpp\<close>: the replay of a capture file through a callback.
  What the run does besides calling the callback is kept in its state: the waits it asked for, the
  prompts it printed, the input it consumed. The callback has a state of its own and may throw; an
  exception keeps what was already done.

  A \<open>double\<close> is a real number, an infinity or NaN. The precision of \<open>long double\<close> is implementation-defined, so
  its arithmetic is a parameter: the quotient of a delay and a speed, and the largest number of
  nanoseconds after its conversion. \<open>ldbl_ok\<close> states what every implementation of IEEE arithmetic guarantees.
\<close>

section \<open>Options and floating point\<close>

datatype dbl = Fin real | Pos_Inf | Neg_Inf | NaN

record ldouble =
  ld_div :: "u64 \<Rightarrow> dbl \<Rightarrow> dbl"
  ld_ns_max :: real

datatype replay_mode = MaxSpeed | Realtime | Scaled | Step

record replay_options =
  ro_mode :: replay_mode
  ro_speed :: dbl

definition default_options :: replay_options where
  "default_options = \<lparr>ro_mode = MaxSpeed, ro_speed = Fin 1\<rparr>"

text \<open>\<open>x <= 0.0\<close>, and the conversion of a \<open>long double\<close> delay to nanoseconds.\<close>

fun dbl_le_0 :: "dbl \<Rightarrow> bool" where
  "dbl_le_0 (Fin x) \<longleftrightarrow> x \<le> 0"
| "dbl_le_0 Pos_Inf \<longleftrightarrow> False"
| "dbl_le_0 Neg_Inf \<longleftrightarrow> True"
| "dbl_le_0 NaN \<longleftrightarrow> False"

definition ns_max :: int where
  "ns_max = 9223372036854775807"

text \<open>
  The overflow check against the converted maximum, then \<open>static_cast<std::uint64_t>\<close>, which truncates and is
  undefined for NaN and for values outside the type, then the constructor of \<open>nanoseconds\<close>, which takes
  a signed 64-bit number.
\<close>

fun scaled_delay :: "ldouble \<Rightarrow> dbl \<Rightarrow> int res" where
  "scaled_delay ldbl (Fin x) =
     (if x > ld_ns_max ldbl then Inl (OverflowError ''scaled replay delay is too large'')
      else if x \<le> -1 \<or> x \<ge> 2 ^ 64 then Inl (Undefined ''conversion to uint64_t out of range'')
      else Inr (sint (word_of_int (max 0 \<lfloor>x\<rfloor>) :: u64)))"
| "scaled_delay ldbl Pos_Inf = Inl (OverflowError ''scaled replay delay is too large'')"
| "scaled_delay ldbl Neg_Inf = Inl (Undefined ''conversion of an infinity to uint64_t'')"
| "scaled_delay ldbl NaN = Inl (Undefined ''conversion of NaN to uint64_t'')"

section \<open>One record\<close>

record 's replay_state =
  rp_prev :: "u64 option"
  rp_count :: u64
  rp_slept :: "int list"
  rp_prompts :: nat
  rp_input :: "u8 list"
  rp_app :: 's

text \<open>
  The wait before a record: \<open>sleep_for\<close> takes a signed number of nanoseconds, so a difference is
  reinterpreted as a 64-bit signed number.
\<close>

definition replay_wait ::
  "ldouble \<Rightarrow> replay_options \<Rightarrow> 's replay_state \<Rightarrow> capture_record \<Rightarrow> 's replay_state res" where
  "replay_wait ldbl opts st rec =
     (case rp_prev st of
        None \<Rightarrow> Inr st
      | Some prev \<Rightarrow>
          if monotonic_ns rec < prev then Inl (RuntimeError ''capture timestamps are not monotonic'')
          else let delta = monotonic_ns rec - prev in
            if ro_mode opts = Realtime \<and> delta \<noteq> 0 then Inr (st\<lparr>rp_slept := rp_slept st @ [sint delta]\<rparr>)
            else if ro_mode opts = Scaled \<and> delta \<noteq> 0 then
              rbind (scaled_delay ldbl (ld_div ldbl delta (ro_speed opts))) (\<lambda>ns. Inr (st\<lparr>rp_slept := rp_slept st @ [ns]\<rparr>))
            else Inr st)"

text \<open>
  \<open>istream::get()\<close> returns the next byte as a non-negative number, or the end-of-file value -1.
  The code tests the returned number, not the stream.
\<close>

definition input_get :: "u8 list \<Rightarrow> int \<times> u8 list" where
  "input_get input = (case input of [] \<Rightarrow> (-1, []) | c # cs \<Rightarrow> (uint c, cs))"

definition replay_prompt :: "replay_options \<Rightarrow> 's replay_state \<Rightarrow> 's replay_state \<times> unit res" where
  "replay_prompt opts st =
     (if ro_mode opts \<noteq> Step then (st, Inr ())
      else let (c, input) = input_get (rp_input st);
               st = st\<lparr>rp_prompts := rp_prompts st + 1, rp_input := input\<rparr>
           in (st, if c = 0 then Inl (RuntimeError ''step replay input ended'') else Inr ()))"

definition replay_record ::
  "ldouble \<Rightarrow> replay_options \<Rightarrow> ('s \<Rightarrow> capture_record \<Rightarrow> 's \<times> unit res) \<Rightarrow>
   's replay_state \<Rightarrow> capture_record \<Rightarrow> 's replay_state \<times> unit res" where
  "replay_record ldbl opts cb st rec =
     (case replay_wait ldbl opts st rec of
        Inl e \<Rightarrow> (st, Inl e)
      | Inr st \<Rightarrow>
          (case replay_prompt opts st of
             (st, Inl e) \<Rightarrow> (st, Inl e)
           | (st, Inr _) \<Rightarrow>
               (case cb (rp_app st) rec of
                  (app, Inl e) \<Rightarrow> (st\<lparr>rp_app := app\<rparr>, Inl e)
                | (app, Inr _) \<Rightarrow>
                    (st\<lparr>rp_app := app, rp_prev := Some (monotonic_ns rec), rp_count := rp_count st + 1\<rparr>, Inr ()))))"

section \<open>The run\<close>

function replay_loop ::
  "ldouble \<Rightarrow> replay_options \<Rightarrow> ('s \<Rightarrow> capture_record \<Rightarrow> 's \<times> unit res) \<Rightarrow>
   istream \<Rightarrow> 's replay_state \<Rightarrow> 's replay_state \<times> u64 res" where
  "replay_loop ldbl opts cb reader st =
     (case capture_next reader of
        Inl e \<Rightarrow> (st, Inl e)
      | Inr (None, _) \<Rightarrow> (st, Inr (rp_count st))
      | Inr (Some rec, reader') \<Rightarrow>
          (case replay_record ldbl opts cb st rec of
             (st', Inl e) \<Rightarrow> (st', Inl e)
           | (st', Inr _) \<Rightarrow> replay_loop ldbl opts cb reader' st'))"
  by pat_completeness auto
termination
  by (relation "measure (\<lambda>(ldbl, opts, cb, reader, st). length (is_rest reader))") (auto dest: capture_next_shrinks)

declare replay_loop.simps [simp del]

definition replay_start :: "'s \<Rightarrow> u8 list \<Rightarrow> 's replay_state" where
  "replay_start app input =
     \<lparr>rp_prev = None, rp_count = 0, rp_slept = [], rp_prompts = 0, rp_input = input, rp_app = app\<rparr>"

definition replay_run ::
  "ldouble \<Rightarrow> replay_options \<Rightarrow> ('s \<Rightarrow> capture_record \<Rightarrow> 's \<times> unit res) \<Rightarrow>
   bool \<Rightarrow> string \<Rightarrow> u8 list \<Rightarrow> u8 list \<Rightarrow> 's \<Rightarrow> 's replay_state \<times> u64 res" where
  "replay_run ldbl opts cb can_open path contents input app =
     (let st = replay_start app input in
      if ro_mode opts = Scaled \<and> dbl_le_0 (ro_speed opts) then (st, Inl (InvalidArgument ''replay speed must be > 0''))
      else case reader_init can_open path contents of
             Inl e \<Rightarrow> (st, Inl e)
           | Inr reader \<Rightarrow> replay_loop ldbl opts cb reader st)"

section \<open>Replaying a list of records\<close>

fun replay_records ::
  "ldouble \<Rightarrow> replay_options \<Rightarrow> ('s \<Rightarrow> capture_record \<Rightarrow> 's \<times> unit res) \<Rightarrow>
   capture_record list \<Rightarrow> 's replay_state \<Rightarrow> 's replay_state \<times> u64 res" where
  "replay_records ldbl opts cb [] st = (st, Inr (rp_count st))"
| "replay_records ldbl opts cb (r # rs) st =
     (case replay_record ldbl opts cb st r of
        (st', Inl e) \<Rightarrow> (st', Inl e)
      | (st', Inr _) \<Rightarrow> replay_records ldbl opts cb rs st')"

lemma replay_loop_records:
  "is_good i \<Longrightarrow> is_rest i = concat (map record_bytes rs) \<Longrightarrow> list_all record_ok rs \<Longrightarrow>
   replay_loop ldbl opts cb i st = replay_records ldbl opts cb rs st"
proof (induction rs arbitrary: i st)
  case Nil
  then show ?case by (subst replay_loop.simps) (simp add: capture_next_def peek_eof_def)
next
  case (Cons r rs)
  have "capture_next i = Inr (Some r, i\<lparr>is_rest := concat (map record_bytes rs)\<rparr>)"
    using Cons.prems by (intro capture_next_record) simp_all
  with Cons show ?case by (subst replay_loop.simps) (auto split: prod.splits sum.splits)
qed

lemma replay_run_records:
  assumes "\<not> (ro_mode opts = Scaled \<and> dbl_le_0 (ro_speed opts))" and "list_all record_ok rs"
  shows "replay_run ldbl opts cb True path (magic @ concat (map record_bytes rs)) input app =
    replay_records ldbl opts cb rs (replay_start app input)"
proof -
  have "reader_init True path (magic @ concat (map record_bytes rs)) =
      Inr \<lparr>is_rest = concat (map record_bytes rs), is_good = True\<rparr>"
    by (simp add: reader_init_iff)
  with assms show ?thesis by (auto simp: replay_run_def Let_def replay_loop_records)
qed

text \<open>The callback alone, over a list of records; any handler that may throw is run the same way.\<close>

fun run_callback :: "('s \<Rightarrow> 'r \<Rightarrow> 's \<times> unit res) \<Rightarrow> 's \<Rightarrow> 'r list \<Rightarrow> 's \<times> unit res" where
  "run_callback cb app [] = (app, Inr ())"
| "run_callback cb app (r # rs) =
     (case cb app r of (app', Inl e) \<Rightarrow> (app', Inl e) | (app', Inr _) \<Rightarrow> run_callback cb app' rs)"

text \<open>Timestamps never go back, starting from the previous one if there is one.\<close>

fun monotonic :: "u64 option \<Rightarrow> capture_record list \<Rightarrow> bool" where
  "monotonic prev [] \<longleftrightarrow> True"
| "monotonic prev (r # rs) \<longleftrightarrow>
     (case prev of None \<Rightarrow> True | Some p \<Rightarrow> p \<le> monotonic_ns r) \<and> monotonic (Some (monotonic_ns r)) rs"

text \<open>The differences between neighbouring timestamps.\<close>

fun gaps :: "u64 option \<Rightarrow> capture_record list \<Rightarrow> u64 list" where
  "gaps prev [] = []"
| "gaps prev (r # rs) =
     (case prev of None \<Rightarrow> [] | Some p \<Rightarrow> [monotonic_ns r - p]) @ gaps (Some (monotonic_ns r)) rs"

lemma replay_wait_ok:
  assumes "monotonic (rp_prev st) (r # rs)" and "ro_mode opts \<noteq> Scaled"
  shows "replay_wait ldbl opts st r = Inr (st\<lparr>rp_slept := rp_slept st @
    (if ro_mode opts = Realtime then map sint (filter (\<lambda>d. d \<noteq> 0) (gaps (rp_prev st) [r])) else [])\<rparr>)"
  using assms by (auto simp: replay_wait_def Let_def not_less split: option.splits)

lemma replay_prompt_ok:
  assumes "ro_mode opts = Step \<longrightarrow> 0 \<notin> set (rp_input st)"
  shows "replay_prompt opts st =
    (if ro_mode opts = Step then st\<lparr>rp_prompts := rp_prompts st + 1, rp_input := tl (rp_input st)\<rparr> else st, Inr ())"
  using assms by (cases "rp_input st") (auto simp: replay_prompt_def input_get_def Let_def unsigned_eq_0_iff)

definition replay_after ::
  "replay_options \<Rightarrow> capture_record list \<Rightarrow> 's \<Rightarrow> 's replay_state \<Rightarrow> 's replay_state" where
  "replay_after opts rs app st =
     st\<lparr>rp_app := app, rp_prev := (if rs = [] then rp_prev st else Some (monotonic_ns (last rs))),
        rp_count := rp_count st + of_nat (length rs),
        rp_slept := rp_slept st @ (if ro_mode opts = Realtime then map sint (filter (\<lambda>d. d \<noteq> 0) (gaps (rp_prev st) rs)) else []),
        rp_prompts := rp_prompts st + (if ro_mode opts = Step then length rs else 0),
        rp_input := (if ro_mode opts = Step then drop (length rs) (rp_input st) else rp_input st)\<rparr>"

lemma replay_record_ok:
  assumes "monotonic (rp_prev st) (r # rs)" and "ro_mode opts \<noteq> Scaled" and "ro_mode opts = Step \<longrightarrow> 0 \<notin> set (rp_input st)"
    and "cb (rp_app st) r = (app, Inr ())"
  shows "replay_record ldbl opts cb st r = (replay_after opts [r] app st, Inr ())"
  using assms(3,4) replay_prompt_ok [of opts "st\<lparr>rp_slept := x\<rparr>" for x] drop_Suc [of 0 "rp_input st"]
  by (simp add: replay_record_def replay_wait_ok [OF assms(1,2)] replay_after_def)

lemma replay_after_Cons: "replay_after opts rs app' (replay_after opts [r] app st) = replay_after opts (r # rs) app' st"
  by (simp add: replay_after_def drop_Suc)

lemma replay_after_fields [simp]:
  "rp_app (replay_after opts rs app st) = app"
  "rp_prev (replay_after opts [r] app st) = Some (monotonic_ns r)"
  "rp_count (replay_after opts rs app st) = rp_count st + of_nat (length rs)"
  by (simp_all add: replay_after_def)

lemma replay_records_ok:
  assumes "monotonic (rp_prev st) rs" and "ro_mode opts \<noteq> Scaled" and "ro_mode opts = Step \<longrightarrow> 0 \<notin> set (rp_input st)"
    and "run_callback cb (rp_app st) rs = (app, Inr ())"
  shows "replay_records ldbl opts cb rs st = (replay_after opts rs app st, Inr (rp_count st + of_nat (length rs)))"
  using assms
proof (induction rs arbitrary: st)
  case Nil
  then show ?case by (simp add: replay_after_def)
next
  case (Cons r rs)
  then obtain app1 where app1: "cb (rp_app st) r = (app1, Inr ())" "run_callback cb app1 rs = (app, Inr ())"
    by (auto split: prod.splits sum.splits)
  have "ro_mode opts = Step \<longrightarrow> 0 \<notin> set (rp_input (replay_after opts [r] app1 st))"
    using Cons.prems(3) by (auto simp: replay_after_def dest: in_set_dropD)
  then show ?case
    using Cons.IH [of "replay_after opts [r] app1 st"] Cons.prems(1,2) app1(2)
      replay_record_ok [of st r rs opts cb app1 ldbl] Cons.prems(3) app1(1)
    by (simp add: replay_after_Cons)
qed

section \<open>Waiting in real time\<close>

lemma gaps_sum: "monotonic (Some p) rs \<Longrightarrow>
  sum_list (map uint (gaps (Some p) rs)) = (if rs = [] then 0 else uint (monotonic_ns (last rs)) - uint p)"
proof (induction rs arbitrary: p)
  case (Cons r rs)
  have "uint (monotonic_ns r - p) = uint (monotonic_ns r) - uint p"
    using Cons.prems by (simp add: uint_minus_simple_alt [THEN iffD1])
  with Cons show ?case by simp
qed simp

lemma gaps_bound: "monotonic (Some p) rs \<Longrightarrow> d \<in> set (gaps (Some p) rs) \<Longrightarrow> uint d \<le> uint (monotonic_ns (last rs))"
proof -
  assume m: "monotonic (Some p) rs" and d: "d \<in> set (gaps (Some p) rs)"
  have "uint d \<le> sum_list (map uint (gaps (Some p) rs))"
    using d by (intro member_le_sum_list) auto
  with gaps_sum [OF m] d show ?thesis by (cases rs) (auto intro: order_trans)
qed

lemma sum_nonzero: "sum_list (map f (filter (\<lambda>d. d \<noteq> 0) ds)) = sum_list (map f ds)" if "f 0 = (0 :: int)" for f :: "u64 \<Rightarrow> int"
  using that by (induction ds) auto

lemma sint_small: "uint d \<le> ns_max \<Longrightarrow> sint (d :: u64) = uint d"
proof -
  assume "uint d \<le> ns_max"
  then have "uint d < 2 ^ 63" by (simp add: ns_max_def)
  moreover have "- (2 ^ 63) \<le> uint d" by (rule order_trans [of _ 0]) simp_all
  ultimately show ?thesis by (simp add: sint_uint signed_take_bit_int_eq_self)
qed

lemma realtime_total:
  assumes "monotonic None (r # rs)" and "uint (monotonic_ns (last (r # rs))) \<le> ns_max"
  shows "sum_list (map sint (filter (\<lambda>d. d \<noteq> 0) (gaps None (r # rs)))) = uint (monotonic_ns (last (r # rs))) - uint (monotonic_ns r)"
proof -
  let ?g = "gaps (Some (monotonic_ns r)) rs"
  have m: "monotonic (Some (monotonic_ns r)) rs" using assms(1) by simp
  have "map sint ?g = map uint ?g"
    using gaps_bound [OF m] assms(2) by (cases rs) (auto intro!: sint_small intro: order_trans)
  then have "sum_list (map sint ?g) = sum_list (map uint ?g)" by (simp only:)
  then show ?thesis using gaps_sum [OF m] by (simp add: sum_nonzero)
qed

section \<open>Properties\<close>

text \<open>
  C34: what a replay delivers. On a well-formed capture whose timestamps never go back, at full speed,
  in real time, or step by step on input without NUL bytes, the callback is called on exactly the
  records of the file in order, once each; the run returns their number and, in real time, has
  waited in total the span between the first and the last timestamp, otherwise not at all.
\<close>

theorem replay_delivers:
  assumes "list_all record_ok rs" and "monotonic None rs" and "ro_mode opts \<noteq> Scaled"
    and "ro_mode opts = Step \<longrightarrow> 0 \<notin> set input" and "run_callback cb app rs = (app', Inr ())"
    and "rs \<noteq> []" and "uint (monotonic_ns (last rs)) \<le> ns_max"
  shows "\<exists>st. replay_run ldbl opts cb True path (magic @ concat (map record_bytes rs)) input app = (st, Inr (of_nat (length rs))) \<and>
    rp_app st = app' \<and>
    sum_list (rp_slept st) = (if ro_mode opts = Realtime then uint (monotonic_ns (last rs)) - uint (monotonic_ns (hd rs)) else 0) \<and>
    rp_prompts st = (if ro_mode opts = Step then length rs else 0)"
proof -
  have "replay_records ldbl opts cb rs (replay_start app input) =
      (replay_after opts rs app' (replay_start app input), Inr (of_nat (length rs)))"
    using assms(2-5) replay_records_ok [of "replay_start app input" rs opts cb app' ldbl] by (simp add: replay_start_def)
  then show ?thesis
    using assms(1,3) replay_run_records [of opts rs ldbl cb path input app] realtime_total [of "hd rs" "tl rs"] assms(2,6,7)
    by (simp add: replay_after_def replay_start_def)
qed

theorem replay_delivers_witness:
  "\<exists>st. replay_run \<lparr>ld_div = \<lambda>_ _. NaN, ld_ns_max = 0\<rparr> \<lparr>ro_mode = Realtime, ro_speed = Fin 1\<rparr> (\<lambda>n r. (n + length (datagram r), Inr ())) True ''c''
      (magic @ concat (map record_bytes [\<lparr>monotonic_ns = 5, datagram = [1]\<rparr>, \<lparr>monotonic_ns = 12, datagram = [2, 3]\<rparr>])) [] 0 = (st, Inr 2) \<and>
    rp_app st = 3 \<and> sum_list (rp_slept st) = 7"
  using replay_delivers [of "[\<lparr>monotonic_ns = 5, datagram = [1]\<rparr>, \<lparr>monotonic_ns = 12, datagram = [2, 3]\<rparr>]"
      "\<lparr>ro_mode = Realtime, ro_speed = Fin 1\<rparr>" "[]" "\<lambda>n r. (n + length (datagram r), Inr ())" 0 3 "\<lparr>ld_div = \<lambda>_ _. NaN, ld_ns_max = 0\<rparr>" "''c''"]
  by (auto simp: record_ok_def kMaxCaptureDatagramSize_def ns_max_def)

lemma replay_records_append:
  "replay_records ldbl opts cb (rs @ rs') st =
     (case replay_records ldbl opts cb rs st of (st', Inl e) \<Rightarrow> (st', Inl e) | (st', Inr _) \<Rightarrow> replay_records ldbl opts cb rs' st')"
  by (induction rs arbitrary: st) (auto split: prod.splits sum.splits)

text \<open>An arithmetic in which every quotient is 2, for an example.\<close>

definition ldbl_half :: ldouble where
  "ldbl_half = \<lparr>ld_div = \<lambda>_ _. Fin 2, ld_ns_max = 9223372036854775807\<rparr>"

lemma replay_record_Inr:
  assumes "replay_record ldbl opts cb st r = (st', Inr x)"
  shows "cb (rp_app st) r = (rp_app st', Inr ()) \<and> rp_prev st' = Some (monotonic_ns r) \<and> rp_count st' = rp_count st + 1"
proof -
  have w: "rp_app st1 = rp_app st \<and> rp_count st1 = rp_count st" if "replay_wait ldbl opts st r = Inr st1" for st1
    using that by (auto simp: replay_wait_def Let_def res_simps split: option.splits if_splits)
  have p: "rp_app st2 = rp_app st1 \<and> rp_count st2 = rp_count st1" if "replay_prompt opts st1 = (st2, y)" for st1 st2 y
    using that by (auto simp: replay_prompt_def Let_def split: if_splits prod.splits)
  from assms show ?thesis by (auto simp: replay_record_def dest!: w p split: sum.splits prod.splits)
qed

lemma replay_records_Inr:
  "replay_records ldbl opts cb rs st = (st', Inr n) \<Longrightarrow>
   run_callback cb (rp_app st) rs = (rp_app st', Inr ()) \<and> n = rp_count st + of_nat (length rs) \<and> rp_count st' = n \<and>
   (rs \<noteq> [] \<longrightarrow> rp_prev st' = Some (monotonic_ns (last rs)))"
proof (induction rs arbitrary: st)
  case (Cons r rs)
  then obtain st1 x where st1: "replay_record ldbl opts cb st r = (st1, Inr x)" "replay_records ldbl opts cb rs st1 = (st', Inr n)"
    by (auto split: prod.splits sum.splits)
  with Cons.IH [OF st1(2)] replay_record_Inr [OF st1(1)] show ?case by (cases rs) auto
qed simp

text \<open>
  C35: a capture whose timestamps go back. In every mode, at every speed and with every callback and input, the
  replay does exactly what the replay of the records before the regression does; if that one returns,
  having delivered each of them once and in order, the whole run ends with the runtime error instead,
  and if it ends with an exception of its own, so does the run. The record that goes back and those after it
  are never delivered.
\<close>

theorem replay_stops_at_regression:
  assumes "list_all record_ok (rs @ [r] @ rest)" and "rs \<noteq> []" and "monotonic_ns r < monotonic_ns (last rs)"
  shows "replay_run ldbl opts cb True path (magic @ concat (map record_bytes (rs @ [r] @ rest))) input app =
    (case replay_run ldbl opts cb True path (magic @ concat (map record_bytes rs)) input app of
       (st, Inl e) \<Rightarrow> (st, Inl e)
     | (st, Inr n) \<Rightarrow> (st, Inl (RuntimeError ''capture timestamps are not monotonic''))) \<and>
    (\<forall>st n. replay_run ldbl opts cb True path (magic @ concat (map record_bytes rs)) input app = (st, Inr n) \<longrightarrow>
       n = of_nat (length rs) \<and> rp_count st = n \<and> run_callback cb app rs = (rp_app st, Inr ()))"
proof (cases "ro_mode opts = Scaled \<and> dbl_le_0 (ro_speed opts)")
  case True
  then show ?thesis by (simp add: replay_run_def)
next
  case False
  let ?st = "replay_start app input"
  have run: "replay_run ldbl opts cb True path (magic @ concat (map record_bytes xs)) input app = replay_records ldbl opts cb xs ?st"
    if "list_all record_ok xs" for xs using False that by (rule replay_run_records)
  have ok: "list_all record_ok rs" using assms(1) by simp
  have stop: "replay_record ldbl opts cb st r = (st, Inl (RuntimeError ''capture timestamps are not monotonic''))"
    if "replay_records ldbl opts cb rs ?st = (st, Inr n)" for st n
    using replay_records_Inr [OF that] assms(2,3) by (simp add: replay_record_def replay_wait_def)
  have "replay_records ldbl opts cb (rs @ [r] @ rest) ?st =
      (case replay_records ldbl opts cb rs ?st of
         (st, Inl e) \<Rightarrow> (st, Inl e) | (st, Inr n) \<Rightarrow> (st, Inl (RuntimeError ''capture timestamps are not monotonic'')))"
    unfolding replay_records_append by (auto simp: stop split: prod.splits sum.splits)
  moreover have "n = of_nat (length rs) \<and> rp_count st = n \<and> run_callback cb app rs = (rp_app st, Inr ())"
    if "replay_records ldbl opts cb rs ?st = (st, Inr n)" for st n
    using replay_records_Inr [OF that] by (simp add: replay_start_def)
  ultimately show ?thesis unfolding run [OF assms(1)] run [OF ok] by blast
qed

theorem replay_stops_at_regression_witness:
  "\<exists>st. replay_run ldbl_half \<lparr>ro_mode = Scaled, ro_speed = Fin 2\<rparr> (\<lambda>n r. (n + length (datagram r), Inr ())) True ''c''
      (magic @ concat (map record_bytes ([\<lparr>monotonic_ns = 1, datagram = [1]\<rparr>, \<lparr>monotonic_ns = 5, datagram = [2]\<rparr>] @
        [\<lparr>monotonic_ns = 4, datagram = [3]\<rparr>] @ []))) [] 0 =
      (st, Inl (RuntimeError ''capture timestamps are not monotonic'')) \<and> rp_app st = 2 \<and> rp_slept st = [2]"
proof -
  let ?rs = "[\<lparr>monotonic_ns = 1, datagram = [1]\<rparr>, \<lparr>monotonic_ns = 5, datagram = [2]\<rparr>]" and ?o = "\<lparr>ro_mode = Scaled, ro_speed = Fin 2\<rparr>"
  have "replay_run ldbl_half ?o (\<lambda>n r. (n + length (datagram r), Inr ())) True ''c'' (magic @ concat (map record_bytes ?rs)) [] 0 =
      (\<lparr>rp_prev = Some 5, rp_count = 2, rp_slept = [2], rp_prompts = 0, rp_input = [], rp_app = 2\<rparr>, Inr 2)"
    by (subst replay_run_records)
      (simp_all add: record_ok_def kMaxCaptureDatagramSize_def replay_start_def replay_record_def replay_wait_def replay_prompt_def ldbl_half_def)
  then show ?thesis
    using replay_stops_at_regression [of ?rs "\<lparr>monotonic_ns = 4, datagram = [3]\<rparr>" "[]" ldbl_half ?o "\<lambda>n r. (n + length (datagram r), Inr ())" "''c''" "[]" 0]
    by (simp add: record_ok_def kMaxCaptureDatagramSize_def)
qed

section \<open>Scaled delays\<close>

text \<open>
  What IEEE arithmetic guarantees of the quotient of a non-negative number by a speed: NaN stays
  NaN, an infinite speed gives zero, a positive one a non-negative quotient or, beyond the range of
  the type, infinity. The largest number of nanoseconds, \<open>2 ^ 63 - 1\<close>, is converted exactly where \<open>long double\<close> has
  64 bits of precision or more, and to \<open>2 ^ 63\<close> where it is \<open>double\<close>.
\<close>

definition ldbl_ok :: "ldouble \<Rightarrow> bool" where
  "ldbl_ok ldbl \<longleftrightarrow>
     (\<forall>d. ld_div ldbl d NaN = NaN) \<and> (\<forall>d. ld_div ldbl d Pos_Inf = Fin 0) \<and>
     (\<forall>d s. 0 < s \<longrightarrow> ld_div ldbl d (Fin s) = Pos_Inf \<or> (\<exists>x \<ge> 0. ld_div ldbl d (Fin s) = Fin x)) \<and>
     (ld_ns_max ldbl = of_int ns_max \<or> ld_ns_max ldbl = of_int ns_max + 1)"

definition ldbl_exact :: ldouble where
  "ldbl_exact = \<lparr>ld_div = \<lambda>d s. (case s of Fin x \<Rightarrow> if x = 0 then (if d = 0 then NaN else Pos_Inf) else Fin (of_nat (unat d) / x)
     | Pos_Inf \<Rightarrow> Fin 0 | Neg_Inf \<Rightarrow> Fin 0 | NaN \<Rightarrow> NaN), ld_ns_max = of_int ns_max\<rparr>"

lemma ldbl_exact_ok: "ldbl_ok ldbl_exact" "ldbl_ok (ldbl_exact\<lparr>ld_ns_max := of_int ns_max + 1\<rparr>)"
  by (auto simp: ldbl_ok_def ldbl_exact_def simp del: of_nat_unat)

lemma delay_small:
  assumes "0 \<le> x" and "x < of_int ns_max + 1"
  shows "sint (word_of_int (max 0 \<lfloor>x\<rfloor>) :: u64) = \<lfloor>x\<rfloor> \<and> 0 \<le> \<lfloor>x\<rfloor> \<and> \<lfloor>x\<rfloor> \<le> ns_max"
proof -
  have f: "0 \<le> \<lfloor>x\<rfloor>" "\<lfloor>x\<rfloor> \<le> ns_max" using assms floor_less_iff [of x "ns_max + 1"] by simp_all
  then have u: "uint (word_of_int \<lfloor>x\<rfloor> :: u64) = \<lfloor>x\<rfloor>" by (simp add: uint_word_of_int ns_max_def)
  then show ?thesis using f sint_small [of "word_of_int \<lfloor>x\<rfloor>"] by simp
qed

lemma delay_limit: "sint (word_of_int (max 0 \<lfloor>of_int ns_max + 1 :: real\<rfloor>) :: u64) = - (2 ^ 63)"
  unfolding ns_max_def by simp

lemma scaled_delay_range:
  assumes "ldbl_ok ldbl" and "\<not> dbl_le_0 s"
  shows "(\<exists>x. ld_div ldbl d s = Fin x \<and> scaled_delay ldbl (ld_div ldbl d s) = Inr \<lfloor>x\<rfloor> \<and> 0 \<le> \<lfloor>x\<rfloor> \<and> \<lfloor>x\<rfloor> \<le> ns_max) \<or>
    (ld_div ldbl d s = Pos_Inf \<or> (\<exists>x. ld_div ldbl d s = Fin x \<and> of_int ns_max < x)) \<and>
      scaled_delay ldbl (ld_div ldbl d s) = Inl (OverflowError ''scaled replay delay is too large'') \<or>
    ld_ns_max ldbl = of_int ns_max + 1 \<and> ld_div ldbl d s = Fin (of_int ns_max + 1) \<and>
      scaled_delay ldbl (ld_div ldbl d s) = Inr (- (2 ^ 63)) \<or>
    s = NaN \<and> \<not> defined (scaled_delay ldbl (ld_div ldbl d s))"
proof (cases s)
  case (Fin x)
  then have q: "ld_div ldbl d s = Pos_Inf \<or> (\<exists>y \<ge> 0. ld_div ldbl d s = Fin y)" using assms by (auto simp: ldbl_ok_def)
  have m: "ld_ns_max ldbl = of_int ns_max \<or> ld_ns_max ldbl = of_int ns_max + 1" using assms(1) by (simp add: ldbl_ok_def)
  from q show ?thesis
  proof
    assume "\<exists>y \<ge> 0. ld_div ldbl d s = Fin y"
    then obtain y where y: "0 \<le> y" "ld_div ldbl d s = Fin y" by blast
    have range: "scaled_delay ldbl (Fin y) = Inr (sint (word_of_int (max 0 \<lfloor>y\<rfloor>) :: u64))" if "y \<le> ld_ns_max ldbl"
      using y(1) that m by (auto simp: ns_max_def)
    consider "y > ld_ns_max ldbl" | "y \<le> ld_ns_max ldbl" "y < of_int ns_max + 1" | "y = of_int ns_max + 1" "ld_ns_max ldbl = of_int ns_max + 1"
      using m by linarith
    then show ?thesis
    proof cases
      case 1
      then have "of_int ns_max < y" using m by auto
      with 1 y show ?thesis by simp
    next
      case 2
      then show ?thesis using range delay_small [OF y(1)] y(2) by (simp del: scaled_delay.simps)
    next
      case 3
      then show ?thesis using range y(2) delay_limit by (simp del: scaled_delay.simps)
    qed
  qed simp
next
  case Pos_Inf
  have "ld_div ldbl d s = Fin 0" "0 \<le> ld_ns_max ldbl" using assms Pos_Inf by (auto simp: ldbl_ok_def ns_max_def)
  then show ?thesis by (simp add: ns_max_def)
qed (use assms in \<open>auto simp: ldbl_ok_def\<close>)

text \<open>
  C36: the delay of a scaled replay. For every speed that passes the check of the options, the wait between two
  records is the quotient of their distance and the speed, truncated to nanoseconds, a number the
  clock can represent; or the quotient exceeds the largest such number and the run throws an overflow
  error. There are two exceptions. Where \<open>long double\<close> is \<open>double\<close>, a quotient of exactly \<open>2 ^ 63\<close> passes the
  check and becomes the negative wait \<open>- (2 ^ 63)\<close>; and for a NaN speed, which the check lets pass, the
  conversion is undefined.
\<close>

theorem scaled_delay_bounds:
  assumes "ldbl_ok ldbl" and "\<not> dbl_le_0 (ro_speed opts)" and "ro_mode opts = Scaled"
    and "rp_prev st = Some p" and "p < monotonic_ns r"
  shows "let q = ld_div ldbl (monotonic_ns r - p) (ro_speed opts); slept = (\<lambda>ns. st\<lparr>rp_slept := rp_slept st @ [ns]\<rparr>) in
    (\<exists>x. q = Fin x \<and> replay_wait ldbl opts st r = Inr (slept \<lfloor>x\<rfloor>) \<and> 0 \<le> \<lfloor>x\<rfloor> \<and> \<lfloor>x\<rfloor> \<le> ns_max) \<or>
    (q = Pos_Inf \<or> (\<exists>x. q = Fin x \<and> of_int ns_max < x)) \<and>
      replay_wait ldbl opts st r = Inl (OverflowError ''scaled replay delay is too large'') \<or>
    ld_ns_max ldbl = of_int ns_max + 1 \<and> q = Fin (of_int ns_max + 1) \<and> replay_wait ldbl opts st r = Inr (slept (- (2 ^ 63))) \<or>
    ro_speed opts = NaN \<and> \<not> defined (replay_wait ldbl opts st r)"
proof -
  have "monotonic_ns r - p \<noteq> 0" "\<not> monotonic_ns r < p" using assms(5) by auto
  then have w: "replay_wait ldbl opts st r =
      rbind (scaled_delay ldbl (ld_div ldbl (monotonic_ns r - p) (ro_speed opts))) (\<lambda>ns. Inr (st\<lparr>rp_slept := rp_slept st @ [ns]\<rparr>))"
    using assms(3-5) by (simp add: replay_wait_def Let_def)
  have "defined (rbind z (\<lambda>ns. Inr (st\<lparr>rp_slept := rp_slept st @ [ns]\<rparr>))) = defined z" for z by (cases z) (simp_all add: defined_def)
  with scaled_delay_range [OF assms(1,2), of "monotonic_ns r - p"] show ?thesis unfolding w Let_def by (elim disjE) auto
qed

theorem scaled_delay_bounds_witness:
  "\<not> defined (replay_wait ldbl_exact \<lparr>ro_mode = Scaled, ro_speed = NaN\<rparr> (replay_start () [] \<lparr>rp_prev := Some 1\<rparr>) \<lparr>monotonic_ns = 5, datagram = []\<rparr>) \<and>
   replay_wait ldbl_exact \<lparr>ro_mode = Scaled, ro_speed = Fin 2\<rparr> (replay_start () [] \<lparr>rp_prev := Some 1\<rparr>) \<lparr>monotonic_ns = 5, datagram = []\<rparr> =
     Inr (replay_start () [] \<lparr>rp_prev := Some 1, rp_slept := [2]\<rparr>)"
  using scaled_delay_bounds [OF ldbl_exact_ok(1), of "\<lparr>ro_mode = Scaled, ro_speed = NaN\<rparr>" "replay_start () [] \<lparr>rp_prev := Some 1\<rparr>" 1
      "\<lparr>monotonic_ns = 5, datagram = []\<rparr>"]
  by (simp add: replay_wait_def ldbl_exact_def replay_start_def ns_max_def)

text \<open>
  The end of the input in step mode goes unnoticed. The code tests the value \<open>get\<close> returns, which
  is -1 at the end of the input: with no input at all, a step replay delivers every record without
  waiting and returns normally. A NUL byte in the input, on the other hand, is taken for the end.
\<close>

theorem step_end_of_input:
  assumes "list_all record_ok rs" and "monotonic None rs" and "run_callback cb app rs = (app', Inr ())"
  shows "(\<exists>st. replay_run ldbl \<lparr>ro_mode = Step, ro_speed = s\<rparr> cb True path (magic @ concat (map record_bytes rs)) [] app =
       (st, Inr (of_nat (length rs))) \<and> rp_app st = app' \<and> rp_prompts st = length rs) \<and>
    (rs \<noteq> [] \<longrightarrow> snd (replay_run ldbl \<lparr>ro_mode = Step, ro_speed = s\<rparr> cb True path (magic @ concat (map record_bytes rs)) (0 # input) app) =
       Inl (RuntimeError ''step replay input ended''))"
proof
  let ?o = "\<lparr>ro_mode = Step, ro_speed = s\<rparr>"
  have run: "replay_run ldbl ?o cb True path (magic @ concat (map record_bytes rs)) input app =
      replay_records ldbl ?o cb rs (replay_start app input)" for input
    using assms(1) by (intro replay_run_records) simp_all
  show "\<exists>st. replay_run ldbl ?o cb True path (magic @ concat (map record_bytes rs)) [] app =
      (st, Inr (of_nat (length rs))) \<and> rp_app st = app' \<and> rp_prompts st = length rs"
    using replay_records_ok [of "replay_start app []" rs ?o cb app' ldbl] assms(2,3) run [of "[]"]
    by (simp add: replay_start_def replay_after_def)
  show "rs \<noteq> [] \<longrightarrow> snd (replay_run ldbl ?o cb True path (magic @ concat (map record_bytes rs)) (0 # input) app) =
      Inl (RuntimeError ''step replay input ended'')"
    unfolding run
    by (cases rs) (simp_all add: replay_record_def replay_wait_def replay_prompt_def input_get_def replay_start_def)
qed

theorem step_end_of_input_witness:
  "\<exists>st. replay_run ldbl_exact \<lparr>ro_mode = Step, ro_speed = Fin 1\<rparr> (\<lambda>n r. (n + 1, Inr ())) True ''c''
      (magic @ concat (map record_bytes [\<lparr>monotonic_ns = 5, datagram = [1]\<rparr>])) [] (0 :: nat) = (st, Inr (of_nat 1)) \<and>
    rp_app st = 1 \<and> rp_prompts st = 1"
  using step_end_of_input [of "[\<lparr>monotonic_ns = 5, datagram = [1]\<rparr>]" "\<lambda>n r. (n + 1, Inr ())" "0 :: nat" 1 ldbl_exact "Fin 1" "''c''" "[]"]
  by (simp add: record_ok_def kMaxCaptureDatagramSize_def)

end
