(* ===== verification/Udp_Receiver.thy ===== *)
theory Udp_Receiver
  imports Prelude
begin

text \<open>
  \<^verbatim>\<open>include/efe/udp_receiver.hpp\<close> and \<^verbatim>\<open>src/udp_receiver.cpp\<close>: the multicast socket with its wake-up
  pipe. The constructor and the destructor are functions of the results of the system calls, which
  are parameters, and of the set of open descriptors. The interplay of \<open>receive\<close> on one thread with
  \<open>request_stop\<close> on another is a step relation: one rule per atomic action of either thread, and one
  for the arrival of a datagram.
\<close>

section \<open>Construction and destruction\<close>

text \<open>The results of the system calls the constructor makes, and the text of \<open>errno\<close>.\<close>

record sys_results =
  sys_socket :: int
  sys_reuse :: int
  sys_bind :: int
  sys_pton_group :: int
  sys_pton_interface :: int
  sys_membership :: int
  sys_pipe :: "(int \<times> int) option"
  sys_strerror :: string

record receiver =
  fd :: int
  wake_read_fd :: int
  wake_write_fd :: int

definition sys_fail :: "sys_results \<Rightarrow> string \<Rightarrow> 'a res" where
  "sys_fail sys what = Inl (RuntimeError (what @ '': '' @ sys_strerror sys))"

text \<open>The body of the \<open>try\<close> block; a pipe that was made adds its two descriptors.\<close>

definition receiver_setup :: "sys_results \<Rightarrow> string \<Rightarrow> int set \<Rightarrow> int set \<times> receiver res" where
  "receiver_setup sys interface_ip fds =
     (if sys_reuse sys < 0 then (fds, sys_fail sys ''setsockopt SO_REUSEADDR'')
      else if sys_bind sys < 0 then (fds, sys_fail sys ''bind'')
      else if sys_pton_group sys \<noteq> 1 then (fds, Inl (RuntimeError ''invalid multicast group''))
      else if interface_ip \<noteq> ''0.0.0.0'' \<and> sys_pton_interface sys \<noteq> 1
        then (fds, Inl (RuntimeError ''invalid interface IP''))
      else if sys_membership sys < 0 then (fds, sys_fail sys ''IP_ADD_MEMBERSHIP'')
      else case sys_pipe sys of
             None \<Rightarrow> (fds, sys_fail sys ''pipe'')
           | Some (r, w) \<Rightarrow>
               (insert r (insert w fds), Inr \<lparr>fd = sys_socket sys, wake_read_fd = r, wake_write_fd = w\<rparr>))"

definition receiver_init :: "sys_results \<Rightarrow> string \<Rightarrow> int set \<Rightarrow> int set \<times> receiver res" where
  "receiver_init sys interface_ip fds =
     (let candidate = sys_socket sys in
      if candidate < 0 then (fds, sys_fail sys ''socket'')
      else case receiver_setup sys interface_ip (insert candidate fds) of
             (fds', Inl e) \<Rightarrow> (fds' - {candidate}, Inl e)
           | (fds', Inr r) \<Rightarrow> (fds', Inr r))"

definition receiver_close :: "receiver \<Rightarrow> int set \<Rightarrow> int set" where
  "receiver_close r fds =
     (let fds = (if fd r \<ge> 0 then fds - {fd r} else fds);
          fds = (if wake_read_fd r \<ge> 0 then fds - {wake_read_fd r} else fds)
      in if wake_write_fd r \<ge> 0 then fds - {wake_write_fd r} else fds)"

text \<open>
  What the system promises: a new descriptor is non-negative and was not open, and the two ends of a
  pipe are different.
\<close>

definition fresh_fds :: "sys_results \<Rightarrow> int set \<Rightarrow> bool" where
  "fresh_fds sys fds \<longleftrightarrow>
     (sys_socket sys \<ge> 0 \<longrightarrow> sys_socket sys \<notin> fds) \<and>
     (\<forall>r w. sys_pipe sys = Some (r, w) \<longrightarrow>
        r \<ge> 0 \<and> w \<ge> 0 \<and> r \<noteq> w \<and> r \<notin> insert (sys_socket sys) fds \<and> w \<notin> insert (sys_socket sys) fds)"

text \<open>\<open>send_unicast\<close>: the result of \<open>inet_pton\<close> and the number of bytes \<open>sendto\<close> reports.\<close>

definition send_unicast :: "int \<Rightarrow> int \<Rightarrow> string \<Rightarrow> u8 list \<Rightarrow> unit res" where
  "send_unicast pton_result sent strerror bytes =
     (if pton_result \<noteq> 1 then Inl (RuntimeError ''invalid rerequest host'')
      else if sent < 0 \<or> nat sent \<noteq> length bytes then Inl (RuntimeError (''sendto: '' @ strerror))
      else Inr ())"

section \<open>Receiving and stopping\<close>

text \<open>
  Where the receiving thread is in \<open>receive\<close>: not in it, before the first test of the flag, blocked in
  \<open>poll\<close>, after \<open>poll\<close> with the event of the wake-up pipe, blocked in \<open>recv\<close>, after a failed \<open>recv\<close>,
  or out of it with a result or an exception. Where the stopping thread is in \<open>request_stop\<close>: not
  in it, or between setting the flag and writing to the pipe.
\<close>

datatype recv_pc =
    Outside
  | Entered
  | Polling
  | Polled (wake_event: bool)
  | Receiving
  | Recv_Failed
  | Returned "u8 list"
  | Thrown string

datatype stop_pc = Stop_Outside | Stop_Flagged

record udp_state =
  stop_requested :: bool
  wake_bytes :: nat
  inbox :: "u8 list list"
  recv_at :: recv_pc
  stop_at :: stop_pc

definition udp_start :: udp_state where
  "udp_start = \<lparr>stop_requested = False, wake_bytes = 0, inbox = [], recv_at = Outside, stop_at = Stop_Outside\<rparr>"

text \<open>
  Steps of the receiving thread. \<open>poll\<close> without timeout and \<open>recv\<close> block: \<open>poll\<close> returns when a descriptor is
  readable, \<open>recv\<close> when a datagram is there, of which it takes the first, cut to the size of the buffer.
\<close>

inductive recv_step :: "nat \<Rightarrow> udp_state \<Rightarrow> udp_state \<Rightarrow> bool" for max_datagram where
  recv_stopped: "recv_at s = Entered \<Longrightarrow> stop_requested s \<Longrightarrow> recv_step max_datagram s (s\<lparr>recv_at := Returned []\<rparr>)"
| recv_poll: "recv_at s = Entered \<Longrightarrow> \<not> stop_requested s \<Longrightarrow> recv_step max_datagram s (s\<lparr>recv_at := Polling\<rparr>)"
| poll_ready: "recv_at s = Polling \<Longrightarrow> wake_bytes s > 0 \<or> inbox s \<noteq> [] \<Longrightarrow>
    recv_step max_datagram s (s\<lparr>recv_at := Polled (wake_bytes s > 0)\<rparr>)"
| woken: "recv_at s = Polled w \<Longrightarrow> w \<or> stop_requested s \<Longrightarrow> recv_step max_datagram s (s\<lparr>recv_at := Returned []\<rparr>)"
| readable: "recv_at s = Polled w \<Longrightarrow> \<not> w \<Longrightarrow> \<not> stop_requested s \<Longrightarrow> recv_step max_datagram s (s\<lparr>recv_at := Receiving\<rparr>)"
| received: "recv_at s = Receiving \<Longrightarrow> inbox s = d # ds \<Longrightarrow>
    recv_step max_datagram s (s\<lparr>recv_at := Returned (take max_datagram d), inbox := ds\<rparr>)"
| failed_stopped: "recv_at s = Recv_Failed \<Longrightarrow> stop_requested s \<Longrightarrow> recv_step max_datagram s (s\<lparr>recv_at := Returned []\<rparr>)"
| failed: "recv_at s = Recv_Failed \<Longrightarrow> \<not> stop_requested s \<Longrightarrow> recv_step max_datagram s (s\<lparr>recv_at := Thrown ''recv''\<rparr>)"

text \<open>
  What the system may do to a blocked call, but need not: interrupt \<open>poll\<close>, after which \<open>receive\<close> calls
  itself; let it fail; let it return although there is nothing to read, because of a pending error
  (\<open>POLLERR\<close>) or because a datagram was reported and then dropped; let \<open>recv\<close> fail. No thread can rely on
  these steps, so they do not count as progress.
\<close>

inductive fault_step :: "udp_state \<Rightarrow> udp_state \<Rightarrow> bool" where
  poll_interrupted: "recv_at s = Polling \<Longrightarrow> fault_step s (s\<lparr>recv_at := Entered\<rparr>)"
| poll_failed: "recv_at s = Polling \<Longrightarrow> fault_step s (s\<lparr>recv_at := Thrown ''poll''\<rparr>)"
| poll_spurious: "recv_at s = Polling \<Longrightarrow> fault_step s (s\<lparr>recv_at := Polled (wake_bytes s > 0)\<rparr>)"
| recv_error: "recv_at s = Receiving \<Longrightarrow> fault_step s (s\<lparr>recv_at := Recv_Failed\<rparr>)"

text \<open>
  Steps of the stopping threads and of the environment: the exchange of the flag by the first caller of
  \<open>request_stop\<close>; that of a later caller, which returns at once, even while the first has not yet
  written; the write of one byte to the pipe by the first (which takes it: it is empty then), after
  which it returns; a call of \<open>receive\<close>; the arrival of a datagram.
\<close>

inductive other_step :: "udp_state \<Rightarrow> udp_state \<Rightarrow> bool" where
  stop_first: "stop_at s = Stop_Outside \<Longrightarrow> \<not> stop_requested s \<Longrightarrow>
    other_step s (s\<lparr>stop_requested := True, stop_at := Stop_Flagged\<rparr>)"
| stop_again: "stop_requested s \<Longrightarrow> other_step s s"
| stop_wake: "stop_at s = Stop_Flagged \<Longrightarrow> other_step s (s\<lparr>wake_bytes := wake_bytes s + 1, stop_at := Stop_Outside\<rparr>)"
| call_receive: "recv_at s = Outside \<or> (\<exists>d. recv_at s = Returned d) \<Longrightarrow> other_step s (s\<lparr>recv_at := Entered\<rparr>)"
| arrival: "other_step s (s\<lparr>inbox := inbox s @ [d]\<rparr>)"

inductive udp_reachable :: "nat \<Rightarrow> udp_state \<Rightarrow> bool" for max_datagram where
  reach_start: "udp_reachable max_datagram udp_start"
| reach_recv: "udp_reachable max_datagram s \<Longrightarrow> recv_step max_datagram s t \<Longrightarrow> udp_reachable max_datagram t"
| reach_fault: "udp_reachable max_datagram s \<Longrightarrow> fault_step s t \<Longrightarrow> udp_reachable max_datagram t"
| reach_other: "udp_reachable max_datagram s \<Longrightarrow> other_step s t \<Longrightarrow> udp_reachable max_datagram t"

inductive_simps recv_step_iff: "recv_step n s t"
inductive_simps fault_step_iff: "fault_step s t"

section \<open>Invariant\<close>

text \<open>
  Once the flag is set and \<open>request_stop\<close> has returned, the pipe holds exactly one byte, which nobody
  reads; before the write it is empty.
\<close>

definition udp_inv :: "udp_state \<Rightarrow> bool" where
  "udp_inv s \<longleftrightarrow>
     wake_bytes s = (if stop_requested s \<and> stop_at s = Stop_Outside then 1 else 0) \<and>
     (stop_at s = Stop_Flagged \<longrightarrow> stop_requested s) \<and>
     (recv_at s = Polled True \<longrightarrow> stop_requested s)"

lemma recv_step_inv: "recv_step n s t \<Longrightarrow> udp_inv s \<Longrightarrow> udp_inv t"
  by (induction rule: recv_step.induct) (auto simp: udp_inv_def)

lemma fault_step_inv: "fault_step s t \<Longrightarrow> udp_inv s \<Longrightarrow> udp_inv t"
  by (induction rule: fault_step.induct) (auto simp: udp_inv_def)

lemma other_step_inv: "other_step s t \<Longrightarrow> udp_inv s \<Longrightarrow> udp_inv t"
  by (induction rule: other_step.induct) (auto simp: udp_inv_def)

lemma reachable_inv: "udp_reachable n s \<Longrightarrow> udp_inv s"
proof (induction rule: udp_reachable.induct)
  case reach_start
  show ?case by (simp add: udp_inv_def udp_start_def)
qed (auto intro: recv_step_inv fault_step_inv other_step_inv)

section \<open>Properties\<close>

text \<open>How many steps the receiving thread is from leaving \<open>receive\<close> at most, once it is to stop.\<close>

fun steps_left :: "recv_pc \<Rightarrow> nat" where
  "steps_left Outside = 0"
| "steps_left Entered = 1"
| "steps_left Polling = 2"
| "steps_left (Polled _) = 1"
| "steps_left Receiving = 2"
| "steps_left Recv_Failed = 1"
| "steps_left (Returned _) = 0"
| "steps_left (Thrown _) = 0"

text \<open>Waiting in \<open>recv\<close> for a datagram that is not there, after \<open>poll\<close> returned without cause.\<close>

definition recv_blocked :: "udp_state \<Rightarrow> bool" where
  "recv_blocked s \<longleftrightarrow> recv_at s = Receiving \<and> inbox s = []"

text \<open>
  Stopping ends a receive, whenever it comes. In every state the threads can reach in which the first
  \<open>request_stop\<close> has returned and the receiving thread is inside \<open>receive\<close>, that thread can go on, since
  the pipe is readable, unless it already waits in \<open>recv\<close> with nothing to read; every step it takes or suffers
  brings it closer to leaving (two steps at most), and it can return a datagram only if it was
  already past its last test of the flag; otherwise it returns empty.
\<close>

theorem stop_ends_receive:
  assumes "udp_reachable n s" and "stop_requested s" and "stop_at s = Stop_Outside" and "steps_left (recv_at s) > 0"
  shows "((\<exists>t. recv_step n s t) \<or> recv_blocked s) \<and>
    (\<forall>t. recv_step n s t \<or> fault_step s t \<longrightarrow> steps_left (recv_at t) < steps_left (recv_at s) \<and>
      (\<forall>d. recv_at t = Returned d \<longrightarrow> d = [] \<or> recv_at s = Receiving))"
proof
  have inv: "udp_inv s" using assms(1) by (rule reachable_inv)
  then have "wake_bytes s > 0" using assms(2,3) by (simp add: udp_inv_def)
  with inv show "(\<exists>t. recv_step n s t) \<or> recv_blocked s"
    using assms(2,4) by (cases "recv_at s"; cases "inbox s") (auto simp: recv_blocked_def recv_step_iff)
  show "\<forall>t. recv_step n s t \<or> fault_step s t \<longrightarrow> steps_left (recv_at t) < steps_left (recv_at s) \<and>
      (\<forall>d. recv_at t = Returned d \<longrightarrow> d = [] \<or> recv_at s = Receiving)"
    using assms(2) by (auto simp: recv_step_iff fault_step_iff)
qed

theorem stop_ends_receive_witness:
  "\<exists>s. udp_reachable 65536 s \<and> recv_at s = Polling \<and> (\<exists>t. recv_step 65536 s t)"
proof -
  let ?s1 = "udp_start\<lparr>recv_at := Entered\<rparr>" and ?s2 = "udp_start\<lparr>recv_at := Polling\<rparr>"
  let ?s3 = "udp_start\<lparr>recv_at := Polling, stop_requested := True, stop_at := Stop_Flagged\<rparr>"
  let ?s4 = "udp_start\<lparr>recv_at := Polling, stop_requested := True, wake_bytes := 1\<rparr>"
  have 1: "udp_reachable 65536 ?s1"
    using reach_other [OF reach_start call_receive] by (simp add: udp_start_def)
  have 2: "udp_reachable 65536 ?s2"
    using reach_recv [OF 1 recv_poll] by (simp add: udp_start_def)
  have 3: "udp_reachable 65536 ?s3"
    using reach_other [OF 2 stop_first] by (simp add: udp_start_def)
  have 4: "udp_reachable 65536 ?s4"
    using reach_other [OF 3 stop_wake] by (simp add: udp_start_def)
  from stop_ends_receive [OF 4] 4 show ?thesis by (auto simp: udp_start_def recv_blocked_def)
qed

text \<open>
  The exception is real. When \<open>poll\<close> reports a datagram that is then dropped, and the request to stop comes after the
  last test of the flag, the receiving thread waits in \<open>recv\<close>, where the byte in the pipe does not
  reach it: it stays until a datagram arrives or the call fails.
\<close>

theorem stop_may_hang:
  "\<exists>s. udp_reachable n s \<and> stop_requested s \<and> stop_at s = Stop_Outside \<and> recv_blocked s \<and> (\<nexists>t. recv_step n s t)"
proof -
  let ?s1 = "udp_start\<lparr>recv_at := Entered\<rparr>" and ?s2 = "udp_start\<lparr>recv_at := Polling\<rparr>"
  let ?s3 = "udp_start\<lparr>recv_at := Polled False\<rparr>" and ?s4 = "udp_start\<lparr>recv_at := Receiving\<rparr>"
  let ?s5 = "udp_start\<lparr>recv_at := Receiving, stop_requested := True, stop_at := Stop_Flagged\<rparr>"
  let ?s6 = "udp_start\<lparr>recv_at := Receiving, stop_requested := True, wake_bytes := 1\<rparr>"
  have 1: "udp_reachable n ?s1" using reach_other [OF reach_start call_receive] by (simp add: udp_start_def)
  have 2: "udp_reachable n ?s2" using reach_recv [OF 1 recv_poll] by (simp add: udp_start_def)
  have 3: "udp_reachable n ?s3" using reach_fault [OF 2 poll_spurious] by (simp add: udp_start_def)
  have 4: "udp_reachable n ?s4" using reach_recv [OF 3 readable [where w = False]] by (simp add: udp_start_def)
  have 5: "udp_reachable n ?s5" using reach_other [OF 4 stop_first] by (simp add: udp_start_def)
  have 6: "udp_reachable n ?s6" using reach_other [OF 5 stop_wake] by (simp add: udp_start_def)
  have "\<nexists>t. recv_step n ?s6 t" by (simp add: recv_step_iff udp_start_def)
  with 6 show ?thesis by (intro exI [of _ ?s6]) (simp add: recv_blocked_def udp_start_def)
qed

text \<open>
  C37: descriptors do not leak. Whatever system call fails, a constructor that throws leaves exactly
  the descriptors open that were open before; one that returns has opened three, and the destructor
  closes exactly these.
\<close>

theorem receiver_no_leak:
  assumes "fresh_fds sys fds" and "receiver_init sys interface_ip fds = (fds', r)"
  shows "case r of Inl e \<Rightarrow> fds' = fds
    | Inr rc \<Rightarrow> fds' = fds \<union> {fd rc, wake_read_fd rc, wake_write_fd rc} \<and> card {fd rc, wake_read_fd rc, wake_write_fd rc} = 3 \<and>
        receiver_close rc fds' = fds"
proof -
  have s: "sys_socket sys \<ge> 0 \<Longrightarrow> insert (sys_socket sys) fds - {sys_socket sys} = fds"
    using assms(1) by (auto simp: fresh_fds_def)
  show ?thesis
  proof (cases r)
    case (Inl e)
    then show ?thesis
      using assms(2) s by (auto simp: receiver_init_def receiver_setup_def sys_fail_def Let_def split: if_splits option.splits prod.splits)
  next
    case (Inr rc)
    then obtain a b where p: "sys_pipe sys = Some (a, b)" "rc = \<lparr>fd = sys_socket sys, wake_read_fd = a, wake_write_fd = b\<rparr>"
      "fds' = insert a (insert b (insert (sys_socket sys) fds))" "sys_socket sys \<ge> 0"
      using assms(2) by (auto simp: receiver_init_def receiver_setup_def sys_fail_def Let_def split: if_splits option.splits prod.splits)
    then show ?thesis
      using assms(1) Inr by (auto simp: fresh_fds_def receiver_close_def Let_def)
  qed
qed

definition sample_sys :: sys_results where
  "sample_sys = \<lparr>sys_socket = 3, sys_reuse = 0, sys_bind = 0, sys_pton_group = 1, sys_pton_interface = 1,
     sys_membership = 0, sys_pipe = Some (4, 5), sys_strerror = ''error''\<rparr>"

theorem receiver_no_leak_witness:
  "receiver_close \<lparr>fd = 3, wake_read_fd = 4, wake_write_fd = 5\<rparr> {0, 1, 2, 3, 4, 5} = {0, 1, 2} \<and>
   fst (receiver_init (sample_sys\<lparr>sys_bind := -1\<rparr>) ''0.0.0.0'' {0, 1, 2}) = {0, 1, 2}"
proof -
  have "receiver_init sample_sys ''0.0.0.0'' {0, 1, 2} = ({0, 1, 2, 3, 4, 5}, Inr \<lparr>fd = 3, wake_read_fd = 4, wake_write_fd = 5\<rparr>)"
    by (auto simp: receiver_init_def receiver_setup_def sample_sys_def)
  moreover have "receiver_init (sample_sys\<lparr>sys_bind := -1\<rparr>) ''0.0.0.0'' {0, 1, 2} = ({0, 1, 2}, Inl (RuntimeError ''bind: error''))"
    by (auto simp: receiver_init_def receiver_setup_def sample_sys_def sys_fail_def)
  moreover have "fresh_fds sample_sys {0, 1, 2}" by (simp add: fresh_fds_def sample_sys_def)
  ultimately show ?thesis using receiver_no_leak [of sample_sys "{0, 1, 2}"] by fastforce
qed

end
