(* ===== verification/Feed_Engine.thy ===== *)
theory Feed_Engine
  imports Feed_Messages Recovery Book_Views Replay Udp_Receiver
begin

text \<open>
  The engine of \<^verbatim>\<open>src/main.cpp\<close>: datagrams are parsed, sequenced by the recovery engine, decoded and
  applied to the order book. Three commands do this, each with effects of its own: the
  demonstration prints every message, the replay counts messages, the listener records the datagrams
  in a capture, sends rerequests and reports rejected events. Each has its own handler here; a
  locale states what they share and carries the theorems about the whole pipeline.
\<close>

section \<open>State\<close>

record feed =
  fe_recovery :: recovery_engine
  fe_book :: order_book

text \<open>The lines \<open>process_packet\<close> prints: a gap request, or a message with its name and fate.\<close>

datatype log_line =
    Gap_Line seqno u16
  | Message_Line seqno string "bool option"

record console_feed = feed +
  fe_log :: "log_line list"

record counting_feed = feed +
  fe_messages :: u64

record listening_feed = feed +
  fe_sent :: "u8 list list"
  fe_rejected :: "seqno list"
  fe_capture :: "ostream option"

section \<open>Handlers\<close>

fun process_messages :: "console_feed \<Rightarrow> mold_message list \<Rightarrow> console_feed \<times> unit res" where
  "process_messages st [] = (st, Inr ())"
| "process_messages st (m # ms) =
     (case decode_book_event (msg_payload m) of
        Inl e \<Rightarrow> (st, Inl e)
      | Inr event \<Rightarrow>
          (case message_name (msg_payload m) of
             Inl e \<Rightarrow> (st, Inl e)
           | Inr name \<Rightarrow>
               (case event of
                  None \<Rightarrow> process_messages (st\<lparr>fe_log := fe_log st @ [Message_Line (msg_sequence m) name None]\<rparr>) ms
                | Some ev \<Rightarrow>
                    (case book_apply (fe_book st) ev of
                       Inl e \<Rightarrow> (st, Inl e)
                     | Inr (applied, book) \<Rightarrow>
                         process_messages (st\<lparr>fe_book := book,
                           fe_log := fe_log st @ [Message_Line (msg_sequence m) name (Some applied)]\<rparr>) ms))))"

definition process_packet :: "console_feed \<Rightarrow> u8 list \<Rightarrow> console_feed \<times> unit res" where
  "process_packet st d =
     (case parse_downstream d of
        Inl e \<Rightarrow> (st, Inl e)
      | Inr packet \<Rightarrow>
          (case ingest (fe_recovery st) packet of
             (recovery, Inl e) \<Rightarrow> (st\<lparr>fe_recovery := recovery\<rparr>, Inl e)
           | (recovery, Inr r) \<Rightarrow>
               (let st = st\<lparr>fe_recovery := recovery\<rparr>;
                    st = (case request r of None \<Rightarrow> st
                          | Some g \<Rightarrow> st\<lparr>fe_log := fe_log st @ [Gap_Line (gap_first g) (gap_count g)]\<rparr>)
                in process_messages st (ready r))))"

text \<open>The callback of \<open>replay\<close>.\<close>

fun replay_messages :: "counting_feed \<Rightarrow> mold_message list \<Rightarrow> counting_feed \<times> unit res" where
  "replay_messages st [] = (st, Inr ())"
| "replay_messages st (m # ms) =
     (case decode_book_event (msg_payload m) of
        Inl e \<Rightarrow> (st, Inl e)
      | Inr None \<Rightarrow> replay_messages (st\<lparr>fe_messages := fe_messages st + 1\<rparr>) ms
      | Inr (Some ev) \<Rightarrow>
          (case book_apply (fe_book st) ev of
             Inl e \<Rightarrow> (st, Inl e)
           | Inr (_, book) \<Rightarrow> replay_messages (st\<lparr>fe_book := book, fe_messages := fe_messages st + 1\<rparr>) ms))"

definition replay_packet :: "counting_feed \<Rightarrow> u8 list \<Rightarrow> counting_feed \<times> unit res" where
  "replay_packet st d =
     (case parse_downstream d of
        Inl e \<Rightarrow> (st, Inl e)
      | Inr packet \<Rightarrow>
          (case ingest (fe_recovery st) packet of
             (recovery, Inl e) \<Rightarrow> (st\<lparr>fe_recovery := recovery\<rparr>, Inl e)
           | (recovery, Inr r) \<Rightarrow> replay_messages (st\<lparr>fe_recovery := recovery\<rparr>) (ready r)))"

text \<open>
  One iteration of \<open>listen\<close> on a datagram: the capture, the rerequest, the messages, the end of the
  session. \<open>send\<close> is \<open>send_unicast\<close> on the configured host; the result says whether the session ended.
\<close>

fun listen_messages :: "listening_feed \<Rightarrow> mold_message list \<Rightarrow> listening_feed \<times> unit res" where
  "listen_messages st [] = (st, Inr ())"
| "listen_messages st (m # ms) =
     (case decode_book_event (msg_payload m) of
        Inl e \<Rightarrow> (st, Inl e)
      | Inr None \<Rightarrow> listen_messages st ms
      | Inr (Some ev) \<Rightarrow>
          (case book_apply (fe_book st) ev of
             Inl e \<Rightarrow> (st, Inl e)
           | Inr (applied, book) \<Rightarrow>
               listen_messages (st\<lparr>fe_book := book,
                 fe_rejected := (if applied then fe_rejected st else fe_rejected st @ [msg_sequence m])\<rparr>) ms))"

definition listen_request :: "(u8 list \<Rightarrow> unit res) \<Rightarrow> listening_feed \<Rightarrow> ingest_result \<Rightarrow> listening_feed \<times> unit res" where
  "listen_request send st r =
     (case (request r, rec_session (fe_recovery st)) of
        (Some g, Some session) \<Rightarrow>
          (case encode_request \<lparr>req_session = session, req_first_sequence = gap_first g, req_message_count = gap_count g\<rparr> of
             Inl e \<Rightarrow> (st, Inl e)
           | Inr req \<Rightarrow>
               (case send req of
                  Inl e \<Rightarrow> (st, Inl e)
                | Inr _ \<Rightarrow> (st\<lparr>fe_sent := fe_sent st @ [req]\<rparr>, Inr ())))
      | _ \<Rightarrow> (st, Inr ()))"

definition listen_capture :: "disk \<Rightarrow> u64 \<Rightarrow> listening_feed \<Rightarrow> u8 list \<Rightarrow> listening_feed res" where
  "listen_capture disk now st d =
     (case fe_capture st of
        None \<Rightarrow> Inr st
      | Some out \<Rightarrow> rbind (capture_write disk out now d) (\<lambda>out. Inr (st\<lparr>fe_capture := Some out\<rparr>)))"

definition listen_packet ::
  "(u8 list \<Rightarrow> unit res) \<Rightarrow> listening_feed \<Rightarrow> u8 list \<Rightarrow> listening_feed \<times> bool res" where
  "listen_packet send st d =
     (case parse_downstream d of
        Inl e \<Rightarrow> (st, Inl e)
      | Inr packet \<Rightarrow>
          (case ingest (fe_recovery st) packet of
             (recovery, Inl e) \<Rightarrow> (st\<lparr>fe_recovery := recovery\<rparr>, Inl e)
           | (recovery, Inr r) \<Rightarrow>
               (case listen_request send (st\<lparr>fe_recovery := recovery\<rparr>) r of
                  (st, Inl e) \<Rightarrow> (st, Inl e)
                | (st, Inr _) \<Rightarrow>
                    (case listen_messages st (ready r) of
                       (st, Inl e) \<Rightarrow> (st, Inl e)
                     | (st, Inr _) \<Rightarrow> (st, Inr (res_end_of_session r))))))"

text \<open>
  The loop of \<open>listen\<close> over what the socket returns: a datagram, the stop flag after it, and the
  clock. When the given datagrams are used up the loop waits for the next.
\<close>

datatype listen_result = Waiting | Stopped | Session_Ended "u64 res option"

fun listen_loop ::
  "disk \<Rightarrow> (u8 list \<Rightarrow> unit res) \<Rightarrow> listening_feed \<Rightarrow> (u8 list \<times> bool \<times> u64) list \<Rightarrow>
   listening_feed \<times> listen_result res" where
  "listen_loop disk send st [] = (st, Inr Waiting)"
| "listen_loop disk send st ((d, stop, now) # env) =
     (if d = [] \<and> stop then (st, Inr Stopped)
      else case listen_capture disk now st d of
             Inl e \<Rightarrow> (st, Inl e)
           | Inr st \<Rightarrow>
               (case listen_packet send st d of
                  (st, Inl e) \<Rightarrow> (st, Inl e)
                | (st, Inr ended) \<Rightarrow>
                    if ended then (st, Inr (Session_Ended (state_hash (fe_book st)))) else listen_loop disk send st env))"

section \<open>What the handlers share\<close>

fun feed_messages :: "order_book \<Rightarrow> mold_message list \<Rightarrow> order_book \<times> unit res" where
  "feed_messages book [] = (book, Inr ())"
| "feed_messages book (m # ms) =
     (case decode_book_event (msg_payload m) of
        Inl e \<Rightarrow> (book, Inl e)
      | Inr None \<Rightarrow> feed_messages book ms
      | Inr (Some ev) \<Rightarrow>
          (case book_apply book ev of Inl e \<Rightarrow> (book, Inl e) | Inr (_, book) \<Rightarrow> feed_messages book ms))"

definition feed_packet :: "recovery_engine \<times> order_book \<Rightarrow> u8 list \<Rightarrow> (recovery_engine \<times> order_book) \<times> unit res" where
  "feed_packet fe d =
     (case parse_downstream d of
        Inl e \<Rightarrow> (fe, Inl e)
      | Inr packet \<Rightarrow>
          (case ingest (fst fe) packet of
             (recovery, Inl e) \<Rightarrow> ((recovery, snd fe), Inl e)
           | (recovery, Inr r) \<Rightarrow>
               (case feed_messages (snd fe) (ready r) of (book, x) \<Rightarrow> ((recovery, book), x))))"

definition core :: "'a feed_scheme \<Rightarrow> recovery_engine \<times> order_book" where
  "core st = (fe_recovery st, fe_book st)"

text \<open>The contract of a handler: on sequencing and book it does exactly what \<open>feed_packet\<close> does.\<close>

locale packet_handler =
  fixes handle :: "'s \<Rightarrow> u8 list \<Rightarrow> 's \<times> unit res"
    and core_of :: "'s \<Rightarrow> recovery_engine \<times> order_book"
  assumes handle_core: "handle st d = (st', r) \<Longrightarrow> feed_packet (core_of st) d = (core_of st', r)"
begin

lemma run_core: "run_callback handle st ds = (st', r) \<Longrightarrow> run_callback feed_packet (core_of st) ds = (core_of st', r)"
proof (induction ds arbitrary: st)
  case (Cons d ds)
  obtain st1 r1 where h: "handle st d = (st1, r1)" by fastforce
  with Cons handle_core [OF h] show ?case by (cases r1) auto
qed simp

lemma run_core_iff: "run_callback feed_packet (core_of st) ds =
    (core_of (fst (run_callback handle st ds)), snd (run_callback handle st ds))"
  using run_core [of st ds] by (metis prod.collapse)

end

lemma message_name_ok: "decode_book_event b = Inr x \<Longrightarrow> \<exists>name. message_name b = Inr name"
  using itch.accepts_iff_framed [of b] by (auto simp: message_name_def nth_0_hd)

lemma process_messages_core:
  "process_messages st ms = (st', r) \<Longrightarrow> feed_messages (fe_book st) ms = (fe_book st', r) \<and> fe_recovery st' = fe_recovery st"
proof (induction ms arbitrary: st)
  case (Cons m ms)
  show ?case
  proof (cases "decode_book_event (msg_payload m)")
    case (Inl e)
    with Cons.prems show ?thesis by auto
  next
    case (Inr ev)
    obtain name where n: "message_name (msg_payload m) = Inr name" using message_name_ok [OF Inr] by blast
    show ?thesis
    proof (cases ev)
      case None
      with Cons Inr n show ?thesis by fastforce
    next
      case (Some e)
      then show ?thesis
        using Cons.prems Cons.IH Inr n by (cases "book_apply (fe_book st) e") (fastforce split: prod.splits)+
    qed
  qed
qed simp

lemma replay_messages_core:
  "replay_messages st ms = (st', r) \<Longrightarrow> feed_messages (fe_book st) ms = (fe_book st', r) \<and> fe_recovery st' = fe_recovery st"
  by (induction ms arbitrary: st) (fastforce split: sum.splits option.splits prod.splits)+

lemma listen_messages_core:
  "listen_messages st ms = (st', r) \<Longrightarrow>
   feed_messages (fe_book st) ms = (fe_book st', r) \<and> fe_recovery st' = fe_recovery st \<and> fe_capture st' = fe_capture st"
  by (induction ms arbitrary: st) (fastforce split: sum.splits option.splits prod.splits if_splits)+

interpretation console: packet_handler process_packet core
proof
  fix st st' :: console_feed and d r
  assume "process_packet st d = (st', r)"
  then show "feed_packet (core st) d = (core st', r)"
    by (auto simp: process_packet_def feed_packet_def core_def Let_def dest!: process_messages_core
        split: sum.splits prod.splits option.splits)
qed

interpretation counting: packet_handler replay_packet core
proof
  fix st st' :: counting_feed and d r
  assume "replay_packet st d = (st', r)"
  then show "feed_packet (core st) d = (core st', r)"
    by (auto simp: replay_packet_def feed_packet_def core_def dest!: replay_messages_core split: sum.splits prod.splits)
qed

text \<open>The listener, for a network that takes every rerequest.\<close>

definition listen_handle :: "(u8 list \<Rightarrow> unit res) \<Rightarrow> listening_feed \<Rightarrow> u8 list \<Rightarrow> listening_feed \<times> unit res" where
  "listen_handle send st d = (case listen_packet send st d of (st, Inl e) \<Rightarrow> (st, Inl e) | (st, Inr _) \<Rightarrow> (st, Inr ()))"

lemma parse_session_length: "parse_downstream d = Inr p \<Longrightarrow> length (pkt_session p) = 10"
  using parse_downstream_sound [of d p] by (simp add: packet_wf_def)

lemma listen_request_ok:
  assumes "parse_downstream d = Inr p" and "ingest s p = (recovery, Inr r)" and "\<forall>b. send b = Inr ()"
  shows "\<exists>sent. listen_request send (st\<lparr>fe_recovery := recovery\<rparr>) r = (st\<lparr>fe_recovery := recovery, fe_sent := sent\<rparr>, Inr ())"
proof -
  have "\<exists>sent. st\<lparr>fe_recovery := recovery\<rparr> = st\<lparr>fe_recovery := recovery, fe_sent := sent\<rparr>"
    by (rule exI [of _ "fe_sent st"]) simp
  moreover have "gap_count g \<noteq> 0 \<and> gap_count g \<noteq> 0xFFFF" if "request r = Some g" for g
    using ingest_request [OF assms(2)] that by auto
  ultimately show ?thesis
    using ingest_request [OF assms(2)] parse_session_length [OF assms(1)] assms(3)
    by (auto simp: listen_request_def encode_request_eq split: option.splits)
qed

interpretation listening: packet_handler "listen_handle (\<lambda>_. Inr ())" core
proof
  fix st st' :: listening_feed and d r
  assume h: "listen_handle (\<lambda>_. Inr ()) st d = (st', r)"
  show "feed_packet (core st) d = (core st', r)"
  proof (cases "\<exists>p recovery x. parse_downstream d = Inr p \<and> ingest (fe_recovery st) p = (recovery, Inr x)")
    case False
    with h show ?thesis
      by (auto simp: listen_handle_def listen_packet_def feed_packet_def core_def split: sum.splits prod.splits)
  next
    case True
    then obtain p recovery x where p: "parse_downstream d = Inr p" "ingest (fe_recovery st) p = (recovery, Inr x)" by blast
    obtain sent where "listen_request (\<lambda>_. Inr ()) (st\<lparr>fe_recovery := recovery\<rparr>) x = (st\<lparr>fe_recovery := recovery, fe_sent := sent\<rparr>, Inr ())"
      using listen_request_ok [OF p, of "\<lambda>_. Inr ()" st] by auto
    with h p show ?thesis
      by (auto simp: listen_handle_def listen_packet_def feed_packet_def core_def dest!: listen_messages_core
          split: sum.splits prod.splits)
  qed
qed

section \<open>From datagrams to the book\<close>

definition book_event :: "u8 list \<Rightarrow> market_event option" where
  "book_event b = (case decode_book_event b of Inr (Some e) \<Rightarrow> Some e | _ \<Rightarrow> None)"

definition events_of :: "mold_message list \<Rightarrow> market_event list" where
  "events_of ms = List.map_filter (\<lambda>m. book_event (msg_payload m)) ms"

definition decodable :: "mold_message list \<Rightarrow> bool" where
  "decodable ms \<longleftrightarrow> (\<forall>m \<in> set ms. \<exists>x. decode_book_event (msg_payload m) = Inr x)"

lemma events_of_simps [simp]:
  "events_of [] = []"
  "events_of (m # ms) = (case book_event (msg_payload m) of None \<Rightarrow> events_of ms | Some e \<Rightarrow> e # events_of ms)"
  "events_of (ms @ ms') = events_of ms @ events_of ms'"
  by (auto simp: events_of_def List.map_filter_def split: option.splits)

lemma run_spec_append:
  "snd (run_spec step a (xs @ ys)) = snd (run_spec step (snd (run_spec step a xs)) ys)"
  by (induction xs arbitrary: a) (simp_all add: Let_def split_beta)

lemma feed_messages_represents:
  assumes "represents n ob os" and "decodable ms"
  shows "\<exists>ob'. feed_messages ob ms = (ob', Inr ()) \<and> represents n ob' (snd (run_spec (spec_apply n) os (events_of ms)))"
  using assms
proof (induction ms arbitrary: ob os)
  case Nil
  then show ?case by simp
next
  case (Cons m ms)
  then have "decodable ms" by (simp add: decodable_def)
  note IH = Cons.IH [OF _ this]
  obtain x where x: "decode_book_event (msg_payload m) = Inr x" using Cons.prems(2) by (auto simp: decodable_def)
  show ?case
  proof (cases x)
    case None
    with x IH [OF Cons.prems(1)] show ?thesis by (simp add: book_event_def)
  next
    case (Some e)
    obtain ob1 where o: "book_apply ob e = Inr (fst (spec_apply n os e), ob1)" "represents n ob1 (snd (spec_apply n os e))"
      using apply_sim [OF Cons.prems(1)] by blast
    with x Some IH [OF o(2)] show ?thesis by (simp add: book_event_def Let_def split_beta)
  qed
qed

lemma feed_packets_represents:
  assumes "run_steps ingest ready s ps = (s', ms, None)" and "list_all packet_wf ps" and "represents n ob os" and "decodable ms"
  shows "\<exists>ob'. run_callback feed_packet (s, ob) (map wire_packet ps) = ((s', ob'), Inr ()) \<and>
    represents n ob' (snd (run_spec (spec_apply n) os (events_of ms)))"
  using assms
proof (induction ps arbitrary: s ms ob os)
  case Nil
  then show ?case by simp
next
  case (Cons p ps)
  from Cons.prems(1) obtain s1 r ms1 where i: "ingest s p = (s1, Inr r)" "run_steps ingest ready s1 ps = (s', ms1, None)"
    "ms = ready r @ ms1"
    by (auto split: prod.splits sum.splits)
  have d: "decodable (ready r)" "decodable ms1" using Cons.prems(4) i(3) by (auto simp: decodable_def)
  obtain ob1 where o: "feed_messages ob (ready r) = (ob1, Inr ())"
    "represents n ob1 (snd (run_spec (spec_apply n) os (events_of (ready r))))"
    using feed_messages_represents [OF Cons.prems(3) d(1)] by blast
  have "parse_downstream (wire_packet p) = Inr p" using Cons.prems(2) by (simp add: parse_downstream_wire)
  then have "feed_packet (s, ob) (wire_packet p) = ((s1, ob1), Inr ())" using i(1) o(1) by (simp add: feed_packet_def)
  with Cons.IH [OF i(2) _ o(2) d(2)] Cons.prems(2) i(3) show ?case by (simp add: run_spec_append)
qed

text \<open>
  Datagrams that carry a stream: encodings of well-formed packets of one session whose messages are
  those of the stream below \<open>b\<close>, each number from \<open>a\<close> to \<open>b\<close> at least once, in any order.
\<close>

definition carries :: "u8 list \<Rightarrow> (seqno \<Rightarrow> u8 list) \<Rightarrow> seqno \<Rightarrow> seqno \<Rightarrow> mold_downstream_packet list \<Rightarrow> bool" where
  "carries session f a b ps \<longleftrightarrow> list_all packet_wf ps \<and>
     (\<forall>p \<in> set ps. pkt_session p = session) \<and>
     (\<forall>p \<in> set ps. \<forall>m \<in> set (carried p). msg_payload m = f (msg_sequence m) \<and> msg_sequence m < b) \<and>
     (\<forall>k. a \<le> k \<and> k < b \<longrightarrow> (\<exists>p \<in> set ps. \<exists>m \<in> set (carried p). msg_sequence m = k))"

definition stream_book :: "nat \<Rightarrow> (seqno \<Rightarrow> u8 list) \<Rightarrow> seqno \<Rightarrow> seqno \<Rightarrow> order list" where
  "stream_book n f a b = snd (run_spec (spec_apply n) [] (events_of (stream f a b)))"

lemma feed_carries:
  assumes "a \<le> b" and "carries session f a b ps" and "decodable (stream f a b)" and "represents n ob []"
  shows "\<exists>s' ob'. run_callback feed_packet (recovery_init a, ob) (map wire_packet ps) = ((s', ob'), Inr ()) \<and>
    expected s' = b \<and> pending s' = [] \<and> represents n ob' (stream_book n f a b)"
proof -
  obtain s' where s: "run_steps ingest ready (recovery_init a) ps = (s', stream f a b, None)" "expected s' = b" "pending s' = []"
    using run_restores_stream [of a b ps session f] assms(1,2) by (auto simp: carries_def)
  have wf: "list_all packet_wf ps" using assms(2) by (simp add: carries_def)
  from feed_packets_represents [OF s(1) wf assms(4,3)] s(2,3) show ?thesis by (auto simp: stream_book_def)
qed

context packet_handler
begin

lemma handle_carries:
  assumes "a \<le> b" and "carries session f a b ps" and "decodable (stream f a b)"
    and "core_of st = (recovery_init a, ob)" and "represents n ob []"
  shows "\<exists>st' s' ob'. run_callback handle st (map wire_packet ps) = (st', Inr ()) \<and> core_of st' = (s', ob') \<and>
    expected s' = b \<and> pending s' = [] \<and> represents n ob' (stream_book n f a b)"
  using feed_carries [OF assms(1-3,5)] run_core_iff [of st "map wire_packet ps"] assms(4)
  by (cases "run_callback handle st (map wire_packet ps)") auto

end

end
