(* ===== verification/Feed_Commands.thy ===== *)
theory Feed_Commands
  imports Feed_Engine
begin

text \<open>
  The commands of \<^verbatim>\<open>src/main.cpp\<close> and the properties of the whole program: whatever the order in which
  datagrams arrive, the book is that of the stream in order; a capture of a stream replays to the book of
  the stream; the demonstration ends as announced. \<open>std::stod\<close> is a parameter.
\<close>

section \<open>Commands\<close>

definition console_start :: "nat \<Rightarrow> console_feed res" where
  "console_start capacity =
     rbind (order_book_init capacity) (\<lambda>book. Inr \<lparr>fe_recovery = recovery_init 1, fe_book = book, fe_log = []\<rparr>)"

abbreviation bytes_of :: "string \<Rightarrow> u8 list" where
  "bytes_of s \<equiv> map of_char s"

text \<open>The three packets of the demonstration and of the sample capture; the third arrives before the second.\<close>

definition sample_packets :: "(u8 list \<times> u8 list \<times> u8 list) res" where
  "sample_packets =
     rbind (add_msg 10 (ch CHR ''B'') 100 (bytes_of ''AAPL'') 2000000) (\<lambda>m1.
     rbind (mold_packet (bytes_of ''DEMO'') 1 [m1]) (\<lambda>p1.
     rbind (cancel_msg 10 25) (\<lambda>m3.
     rbind (mold_packet (bytes_of ''DEMO'') 3 [m3]) (\<lambda>p3.
     rbind (add_msg 11 (ch CHR ''B'') 200 (bytes_of ''AAPL'') 1999000) (\<lambda>m2.
     rbind (mold_packet (bytes_of ''DEMO'') 2 [m2]) (\<lambda>p2.
     Inr (p1, p3, p2)))))))"

text \<open>The final state of \<open>demo\<close>, from which it prints the number of orders, the best bid and the hash.\<close>

definition demo :: "(console_feed \<times> unit res) res" where
  "demo =
     rbind (console_start 1024) (\<lambda>st.
     rbind sample_packets (\<lambda>(p1, p3, p2).
     Inr (run_callback process_packet st [p1, p3, p2])))"

definition make_sample_capture :: "disk \<Rightarrow> bool \<Rightarrow> string \<Rightarrow> ostream res" where
  "make_sample_capture disk can_open path =
     rbind (writer_init disk can_open path) (\<lambda>writer.
     rbind sample_packets (\<lambda>(p1, p3, p2).
     rbind (capture_write disk writer 0 p1) (\<lambda>writer.
     rbind (capture_write disk writer 1000000 p3) (\<lambda>writer.
     capture_write disk writer 2000000 p2))))"

text \<open>\<open>replay\<close>: the numbers of packets and messages, the live orders and the hash it prints.\<close>

definition counting_start :: "nat \<Rightarrow> counting_feed res" where
  "counting_start capacity =
     rbind (order_book_init capacity) (\<lambda>book. Inr \<lparr>fe_recovery = recovery_init 1, fe_book = book, fe_messages = 0\<rparr>)"

definition replay_callback :: "counting_feed \<Rightarrow> capture_record \<Rightarrow> counting_feed \<times> unit res" where
  "replay_callback st rec = replay_packet st (datagram rec)"

definition replay ::
  "ldouble \<Rightarrow> bool \<Rightarrow> string \<Rightarrow> u8 list \<Rightarrow> u8 list \<Rightarrow> replay_options \<Rightarrow>
   (u64 \<times> u64 \<times> nat \<times> u64 res option) res" where
  "replay ldbl can_open path contents input opts =
     rbind (counting_start 1000000) (\<lambda>app.
       case replay_run ldbl opts replay_callback can_open path contents input app of
         (st, Inl e) \<Rightarrow> Inl e
       | (st, Inr packets) \<Rightarrow>
           Inr (packets, fe_messages (rp_app st), live_order_count (fe_book (rp_app st)), state_hash (fe_book (rp_app st))))"

text \<open>\<open>replay_options\<close> on the arguments after the path of the capture.\<close>

definition parse_options :: "(string \<Rightarrow> dbl res) \<Rightarrow> string list \<Rightarrow> replay_options res" where
  "parse_options stod args =
     (case args of
        [] \<Rightarrow> Inr default_options
      | argument # rest \<Rightarrow>
          if argument = ''--step'' \<or> argument = ''step'' then Inr (default_options\<lparr>ro_mode := Step\<rparr>)
          else if argument = ''--realtime'' \<or> argument = ''realtime'' then Inr (default_options\<lparr>ro_mode := Realtime\<rparr>)
          else if argument = ''--speed'' \<and> rest = []
            then Inl (InvalidArgument ''--speed requires max or a positive multiplier'')
          else let v = (if argument = ''--speed'' then hd rest else argument) in
            if v = ''max'' \<or> v = ''0'' then Inr default_options
            else rbind (stod v) (\<lambda>speed.
              if dbl_le_0 speed then Inl (InvalidArgument ''replay speed must be positive'')
              else Inr \<lparr>ro_mode = Scaled, ro_speed = speed\<rparr>))"

text \<open>
  \<open>listen\<close> on its arguments: group, port, rerequest host and port, and optionally a capture file. The
  results of the system calls depend on group and port, sending on host and port. A port is the low
  16 bits of the number given.
\<close>

definition port_of :: "int \<Rightarrow> u16" where
  "port_of n = word_of_int n"

definition listen ::
  "(string \<Rightarrow> int res) \<Rightarrow> (string \<Rightarrow> u16 \<Rightarrow> sys_results) \<Rightarrow> int set \<Rightarrow> disk \<Rightarrow> bool \<Rightarrow>
   (string \<Rightarrow> u16 \<Rightarrow> u8 list \<Rightarrow> unit res) \<Rightarrow> string list \<Rightarrow> (u8 list \<times> bool \<times> u64) list \<Rightarrow>
   (listening_feed \<times> listen_result res) option res" where
  "listen stoi sys fds disk can_open send args env =
     (if length args < 4 then Inr None
      else rbind (stoi (args ! 1)) (\<lambda>port.
           rbind (stoi (args ! 3)) (\<lambda>rport.
           rbind (snd (receiver_init (sys (args ! 0) (port_of port)) ''0.0.0.0'' fds)) (\<lambda>socket.
           rbind (order_book_init 2000000) (\<lambda>book.
           rbind (if length args < 5 then Inr None
                  else rbind (writer_init disk can_open (args ! 4)) (\<lambda>writer. Inr (Some writer))) (\<lambda>capture.
           Inr (Some (listen_loop disk (send (args ! 2) (port_of rport))
             \<lparr>fe_recovery = recovery_init 1, fe_book = book, fe_sent = [], fe_rejected = [], fe_capture = capture\<rparr> env))))))))"

text \<open>What \<open>main\<close> does with the arguments after the program name; a number is an exit code without further action.\<close>

datatype command =
    Cmd_Demo
  | Cmd_Help
  | Cmd_Replay string "replay_options res"
  | Cmd_Make_Sample string
  | Cmd_Listen "string list"
  | Cmd_Exit nat

definition main_command :: "(string \<Rightarrow> dbl res) \<Rightarrow> string list \<Rightarrow> command" where
  "main_command stod args =
     (case args of
        [] \<Rightarrow> Cmd_Demo
      | cmd # rest \<Rightarrow>
          if cmd = ''demo'' then Cmd_Demo
          else if cmd = ''--help'' \<or> cmd = ''help'' then Cmd_Help
          else if cmd = ''replay'' then
            (case rest of [] \<Rightarrow> Cmd_Exit 2 | path # opts \<Rightarrow> Cmd_Replay path (parse_options stod opts))
          else if cmd = ''make-sample-capture'' then
            (case rest of [] \<Rightarrow> Cmd_Exit 2 | path # _ \<Rightarrow> Cmd_Make_Sample path)
          else if cmd = ''listen'' then (if length rest < 4 then Cmd_Exit 2 else Cmd_Listen rest)
          else Cmd_Exit 2)"

section \<open>The pipeline\<close>

text \<open>
  C3: the engine is insensitive to the order of the network. If well-formed packets of one session
  carry a stream, in any order and with any duplication, and every message of the stream decodes,
  then processing their datagrams throws nothing, leaves no message waiting, and ends with the book
  in which the events of the stream were applied in order: the same orders, prices, levels, queues
  and state hash, whatever the arrangement of the packets.
\<close>

theorem feed_restores_book:
  assumes "0 < n" and "n < 0xFFFFFFFF" and "order_book_init n = Inr ob" and "a \<le> b"
    and "carries session f a b ps" and "decodable (stream f a b)"
  shows "\<exists>st. run_callback process_packet \<lparr>fe_recovery = recovery_init a, fe_book = ob, fe_log = []\<rparr> (map wire_packet ps) = (st, Inr ()) \<and>
    expected (fe_recovery st) = b \<and> pending (fe_recovery st) = [] \<and>
    (let os = stream_book n f a b in
     (\<forall>oid. book_find (fe_book st) oid = Inr (find_order os oid)) \<and>
     live_order_count (fe_book st) = length os \<and>
     (\<forall>sy. bid_levels (fe_book st) sy = Some (Inr (spec_levels os sy Buy))) \<and>
     (\<forall>sy. ask_levels (fe_book st) sy = Some (Inr (spec_levels os sy Sell))) \<and>
     state_hash (fe_book st) = Some (Inr (spec_hash os)))"
proof -
  let ?st = "\<lparr>fe_recovery = recovery_init a, fe_book = ob, fe_log = []\<rparr>"
  have ob: "represents n ob []" using init_represents [of n] assms(1-3) by (auto simp: kInvalidSlot_def)
  have core: "core ?st = (recovery_init a, ob)" by (simp add: core_def)
  obtain st s' ob' where r: "run_callback process_packet ?st (map wire_packet ps) = (st, Inr ())" "core st = (s', ob')"
    "expected s' = b" "pending s' = []" "represents n ob' (stream_book n f a b)"
    using console.handle_carries [OF assms(4-6) core ob] by blast
  then show ?thesis
    by (auto simp: core_def Let_def find_view count_view levels_queries hash_view)
qed

section \<open>The demonstration\<close>

definition sample_order :: "order_id \<Rightarrow> quantity \<Rightarrow> price \<Rightarrow> order" where
  "sample_order oid qty pr = \<lparr>ord_id = oid, ord_symbol = from_string (bytes_of ''AAPL''), ord_side = Buy, ord_quantity = qty, ord_price = pr\<rparr>"

definition sample_event :: "seqno \<Rightarrow> market_event" where
  "sample_event k =
     (if k = 1 then AddEvent \<lparr>add_meta = \<lparr>stock_locate = 1, tracking_number = 1, timestamp_ns = 1000000\<rparr>, add_order = sample_order 10 100 2000000\<rparr>
      else if k = 2 then AddEvent \<lparr>add_meta = \<lparr>stock_locate = 1, tracking_number = 1, timestamp_ns = 1000000\<rparr>, add_order = sample_order 11 200 1999000\<rparr>
      else CancelEvent \<lparr>cancel_meta = \<lparr>stock_locate = 1, tracking_number = 2, timestamp_ns = 1000100\<rparr>, cancel_order_id = 10, canceled_shares = 25\<rparr>)"

definition sample_stream :: "seqno \<Rightarrow> u8 list" where
  "sample_stream k = encode_event (sample_event k)"

definition sample_session :: "u8 list" where
  "sample_session = session_from_string (bytes_of ''DEMO'')"

definition sample_datagrams :: "mold_downstream_packet list" where
  "sample_datagrams = map (\<lambda>k. data_packet sample_session k [sample_stream k]) [1, 3, 2]"

lemma sample_packets_eq:
  "sample_packets = Inr (wire_packet (data_packet sample_session 1 [sample_stream 1]),
     wire_packet (data_packet sample_session 3 [sample_stream 3]), wire_packet (data_packet sample_session 2 [sample_stream 2]))"
  using add_msg_eq [of 10 Buy] add_msg_eq [of 11 Buy]
  by (simp add: sample_packets_def side_char_def cancel_msg_eq mold_packet_data sample_session_def sample_stream_def
      sample_event_def sample_order_def)

lemma sample_event_wf: "event_wf (sample_event k)"
  by (simp add: sample_event_def meta_ok_def sample_order_def from_string_def)

lemma length_sample_stream: "length (sample_stream k) \<le> 36 \<and> 0 < length (sample_stream k)"
  by (simp add: sample_stream_def sample_event_def sample_order_def from_string_def)

lemma sample_decodes: "decode_book_event (sample_stream k) = Inr (Some (sample_event k))"
  unfolding sample_stream_def by (rule itch.decode_encode [OF sample_event_wf])

lemma sample_decodable: "decodable (stream sample_stream a b)"
  by (auto simp: decodable_def stream_def sample_decodes)

lemma between_1_4: "1 \<le> (k :: seqno) \<Longrightarrow> k < 4 \<Longrightarrow> k = 1 \<or> k = 2 \<or> k = 3"
proof -
  assume "1 \<le> k" "k < 4"
  then have "unat k = 1 \<or> unat k = 2 \<or> unat k = 3" by (auto simp: word_le_nat_alt word_less_nat_alt)
  moreover have "of_nat (unat k) = k" by simp
  ultimately show ?thesis by (metis of_nat_1 of_nat_numeral)
qed

lemma sample_carries: "carries sample_session sample_stream 1 4 sample_datagrams"
  unfolding carries_def
proof (intro conjI)
  have s: "length sample_session = 10" by (simp add: sample_session_def session_from_string_alt)
  have l: "length (sample_stream k) < 65536" for k using length_sample_stream [of k] by linarith
  show "list_all packet_wf sample_datagrams"
    using s l by (simp add: sample_datagrams_def packet_wf_def data_packet_def numbered_Cons)
  show "\<forall>p \<in> set sample_datagrams. pkt_session p = sample_session"
    by (simp add: sample_datagrams_def data_packet_def)
  show "\<forall>p \<in> set sample_datagrams. \<forall>m \<in> set (carried p). msg_payload m = sample_stream (msg_sequence m) \<and> msg_sequence m < 4"
    by (simp add: sample_datagrams_def data_packet_def carried_def numbered_Cons)
  show "\<forall>k. 1 \<le> k \<and> k < 4 \<longrightarrow> (\<exists>p \<in> set sample_datagrams. \<exists>m \<in> set (carried p). msg_sequence m = k)"
    using between_1_4 by (auto simp: sample_datagrams_def data_packet_def carried_def numbered_Cons)
qed

lemma sample_book: "1 < n \<Longrightarrow> stream_book n sample_stream 1 4 = [sample_order 10 75 2000000, sample_order 11 200 1999000]"
proof -
  have "events_of (stream sample_stream 1 4) = [sample_event 1, sample_event 2, sample_event 3]"
    by (simp add: stream_def upt_rec book_event_def sample_decodes)
  moreover assume "1 < n"
  ultimately show ?thesis
    by (simp add: stream_book_def sample_event_def sample_order_def spec_eval)
qed

lemma sample_best: "best_bid ob (from_string (bytes_of ''AAPL'')) = Some 2000000"
  if "represents 1024 ob [sample_order 10 75 2000000, sample_order 11 200 1999000]"
  using that best_queries [OF that] by (simp add: sample_order_def side_prices_def side_orders_def)

lemma demo_book:
  "\<exists>st. demo = Inr (st, Inr ()) \<and> represents 1024 (fe_book st) [sample_order 10 75 2000000, sample_order 11 200 1999000]"
proof -
  obtain ob where ob: "order_book_init 1024 = Inr ob" "represents 1024 ob []"
    using init_represents [of 1024] by (auto simp: kInvalidSlot_def)
  let ?st = "\<lparr>fe_recovery = recovery_init 1, fe_book = ob, fe_log = []\<rparr>"
  have core: "core ?st = (recovery_init 1, ob)" by (simp add: core_def)
  obtain st s' ob' where r: "run_callback process_packet ?st (map wire_packet sample_datagrams) = (st, Inr ())" "core st = (s', ob')"
    "represents 1024 ob' (stream_book 1024 sample_stream 1 4)"
    using console.handle_carries [OF _ sample_carries sample_decodable core ob(2)] by auto
  have "demo = Inr (st, Inr ())"
    using ob(1) r(1) by (simp add: demo_def console_start_def sample_packets_eq sample_datagrams_def del: run_callback.simps)
  with r(2,3) show ?thesis by (auto simp: core_def sample_book)
qed

text \<open>
  The demonstration. Its three packets arrive out of order with a gap; it ends without an
  exception with the two orders live, 75 and 200 shares, the best bid at 2,000,000 and the hash of
  that book.
\<close>

theorem demo_result:
  "\<exists>st. demo = Inr (st, Inr ()) \<and> live_order_count (fe_book st) = 2 \<and>
     best_bid (fe_book st) (from_string (bytes_of ''AAPL'')) = Some 2000000 \<and>
     book_find (fe_book st) 10 = Inr (Some (sample_order 10 75 2000000)) \<and>
     state_hash (fe_book st) = Some (Inr (spec_hash [sample_order 10 75 2000000, sample_order 11 200 1999000]))"
proof -
  obtain st where d: "demo = Inr (st, Inr ())"
    and o: "represents 1024 (fe_book st) [sample_order 10 75 2000000, sample_order 11 200 1999000]"
    using demo_book by blast
  have "book_find (fe_book st) 10 = Inr (Some (sample_order 10 75 2000000))"
    using find_view [OF o, of 10] by (simp add: find_order_def sample_order_def)
  with d count_view [OF o] sample_best [OF o] hash_view [OF o] show ?thesis
    by (intro exI [of _ st]) simp
qed

theorem feed_restores_book_witness:
  "\<exists>ob st. order_book_init 1024 = Inr ob \<and>
    run_callback process_packet \<lparr>fe_recovery = recovery_init 1, fe_book = ob, fe_log = []\<rparr> (map wire_packet sample_datagrams) = (st, Inr ()) \<and>
    live_order_count (fe_book st) = 2"
proof -
  obtain ob where ob: "order_book_init 1024 = Inr ob"
    using init_represents [of 1024] by (auto simp: kInvalidSlot_def)
  from feed_restores_book [OF _ _ ob _ sample_carries sample_decodable] ob show ?thesis
    by (auto simp: sample_book Let_def)
qed

section \<open>Captures and callbacks\<close>

lemma run_replay_callback: "run_callback replay_callback st rs = run_callback replay_packet st (map datagram rs)"
  by (induction rs arbitrary: st) (auto simp: replay_callback_def split: prod.splits sum.splits)

lemma listen_packet_capture: "listen_packet send st d = (st', r) \<Longrightarrow> fe_capture st' = fe_capture st"
proof -
  have "listen_request send st0 x = (st1, y) \<Longrightarrow> fe_capture st1 = fe_capture st0" for st0 x st1 y
    by (auto simp: listen_request_def split: option.splits sum.splits)
  then show "listen_packet send st d = (st', r) \<Longrightarrow> fe_capture st' = fe_capture st"
    by (fastforce simp: listen_packet_def dest: listen_messages_core split: sum.splits prod.splits)
qed

lemma core_capture: "core (st\<lparr>fe_capture := c\<rparr>) = core st"
  by (simp add: core_def)

section \<open>Replaying a stream\<close>

lemma replay_messages_count:
  "replay_messages st ms = (st', Inr ()) \<Longrightarrow> fe_messages st' = fe_messages st + of_nat (length ms)"
  by (induction ms arbitrary: st) (fastforce split: sum.splits option.splits prod.splits)+

lemma replay_packets_count:
  assumes "run_steps ingest ready (fe_recovery st) ps = (s', ms, None)" and "list_all packet_wf ps"
    and "run_callback replay_packet st (map wire_packet ps) = (st', Inr ())"
  shows "fe_messages st' = fe_messages st + of_nat (length ms)"
  using assms
proof (induction ps arbitrary: st ms)
  case Nil
  then show ?case by simp
next
  case (Cons p ps)
  from Cons.prems(1) obtain s1 r ms1 where i: "ingest (fe_recovery st) p = (s1, Inr r)"
    "run_steps ingest ready s1 ps = (s', ms1, None)" "ms = ready r @ ms1"
    by (auto split: prod.splits sum.splits)
  have p: "replay_packet st (wire_packet p) = replay_messages (st\<lparr>fe_recovery := s1\<rparr>) (ready r)"
    using Cons.prems(2) i(1) by (simp add: replay_packet_def parse_downstream_wire)
  from Cons.prems(3) p obtain st1 where m: "replay_messages (st\<lparr>fe_recovery := s1\<rparr>) (ready r) = (st1, Inr ())"
    and rest: "run_callback replay_packet st1 (map wire_packet ps) = (st', Inr ())"
    by (auto split: prod.splits sum.splits)
  have "fe_recovery st1 = s1" using replay_messages_core [OF m] by simp
  with Cons.IH [of st1 ms1] i(2) rest Cons.prems(2) replay_messages_count [OF m] i(3) show ?case by simp
qed

lemma replay_app_stream:
  assumes "1 \<le> b" and "carries session f 1 b ps" and "decodable (stream f 1 b)"
  shows "\<exists>app app'. counting_start 1000000 = Inr app \<and> run_callback replay_packet app (map wire_packet ps) = (app', Inr ()) \<and>
    fe_messages app' = b - 1 \<and> represents 1000000 (fe_book app') (stream_book 1000000 f 1 b)"
proof -
  obtain ob where ob: "order_book_init 1000000 = Inr ob" "represents 1000000 ob []"
    using init_represents [of 1000000] by (auto simp: kInvalidSlot_def)
  let ?app = "\<lparr>fe_recovery = recovery_init 1, fe_book = ob, fe_messages = 0\<rparr> :: counting_feed"
  have core: "core ?app = (recovery_init 1, ob)" by (simp add: core_def)
  obtain app' s' ob' where r: "run_callback replay_packet ?app (map wire_packet ps) = (app', Inr ())" "core app' = (s', ob')"
    "represents 1000000 ob' (stream_book 1000000 f 1 b)"
    using counting.handle_carries [OF assms core ob(2)] by blast
  obtain s where s: "run_steps ingest ready (recovery_init 1) ps = (s, stream f 1 b, None)"
    using run_restores_stream [of 1 b ps session f] assms(1,2) by (auto simp: carries_def)
  have "fe_messages app' = of_nat (length (stream f 1 b))"
    using replay_packets_count [of ?app ps s "stream f 1 b" app'] s r(1) assms(2) by (simp add: carries_def)
  also have "\<dots> = b - 1"
    using assms(1) by (simp add: stream_def word_le_nat_alt of_nat_diff)
  finally show ?thesis using ob(1) r by (auto simp: counting_start_def core_def)
qed

lemma replay_stream:
  assumes "1 \<le> b" and "carries session f 1 b ps" and "decodable (stream f 1 b)"
    and "map datagram rs = map wire_packet ps" and "list_all record_ok rs" and "monotonic None rs"
  shows "replay ldbl True path (magic @ concat (map record_bytes rs)) input default_options =
    Inr (of_nat (length ps), b - 1, length (stream_book 1000000 f 1 b), Some (Inr (spec_hash (stream_book 1000000 f 1 b))))"
proof -
  obtain app app' where a: "counting_start 1000000 = Inr app" "run_callback replay_packet app (map wire_packet ps) = (app', Inr ())"
    "fe_messages app' = b - 1" "represents 1000000 (fe_book app') (stream_book 1000000 f 1 b)"
    using replay_app_stream [OF assms(1-3)] by blast
  have "length rs = length ps" using arg_cong [OF assms(4), of length] by simp
  moreover have "replay_run ldbl default_options replay_callback True path (magic @ concat (map record_bytes rs)) input app =
      replay_records ldbl default_options replay_callback rs (replay_start app input)"
    using assms(5) by (intro replay_run_records) (simp_all add: default_options_def)
  moreover have "replay_records ldbl default_options replay_callback rs (replay_start app input) =
      (replay_after default_options rs app' (replay_start app input), Inr (of_nat (length rs)))"
    using replay_records_ok [of "replay_start app input" rs default_options replay_callback app' ldbl] a(2) assms(4,6)
    by (simp add: replay_start_def default_options_def run_replay_callback)
  ultimately show ?thesis
    using a by (simp add: replay_def count_view hash_view)
qed

text \<open>
  C9: the replay of a capture. When the datagrams of a well-formed capture with non-decreasing
  timestamps carry the stream from 1 up to \<open>b\<close>, in any order and with any duplication, and the
  stream decodes, then the replay command reports the number of packets, every message of the
  stream once, and the live orders and the hash of the book of the stream in order.
\<close>

theorem replay_reproduces_stream:
  assumes "1 \<le> b" and "carries session f 1 b ps" and "decodable (stream f 1 b)"
    and "map datagram rs = map wire_packet ps" and "list_all record_ok rs" and "monotonic None rs"
  shows "replay ldbl True path (magic @ concat (map record_bytes rs)) input default_options =
    Inr (of_nat (length ps), b - 1, length (stream_book 1000000 f 1 b), Some (Inr (spec_hash (stream_book 1000000 f 1 b))))"
  using assms by (rule replay_stream)

lemma sample_size: "length (wire_packet (data_packet sample_session k [sample_stream k])) \<le> kMaxCaptureDatagramSize"
  using length_sample_stream [of k]
  by (simp add: wire_packet_def data_packet_def kMaxCaptureDatagramSize_def sample_session_def session_from_string_alt numbered_Cons)

text \<open>The records of the sample capture.\<close>

definition sample_records :: "capture_record list" where
  "sample_records =
     map (\<lambda>(ns, k). \<lparr>monotonic_ns = ns, datagram = wire_packet (data_packet sample_session k [sample_stream k])\<rparr>)
       [(0, 1), (1000000, 3), (2000000, 2)]"

lemma sample_records_ok:
  "list_all record_ok sample_records" "monotonic None sample_records" "map datagram sample_records = map wire_packet sample_datagrams"
  using sample_size by (simp_all add: sample_records_def sample_datagrams_def record_ok_def)

lemma sample_written:
  assumes "\<forall>b. dk_takes disk b"
  shows "\<exists>out. make_sample_capture disk True path = Inr out \<and> os_close disk out = Some (magic @ concat (map record_bytes sample_records))"
proof -
  have g: "os_good out \<Longrightarrow> os_good (os_write disk out bs)" for out bs using assms by (rule os_write_taken [rotated])
  have ok: "os_good (os_write disk os_open magic)" by (rule g) (simp add: os_open_def)
  have "make_sample_capture disk True path = write_all disk (os_write disk os_open magic) sample_records"
    by (simp add: make_sample_capture_def writer_init_def sample_packets_eq sample_records_def res_simps)
  moreover obtain out where w: "write_all disk (os_write disk os_open magic) sample_records = Inr out" "os_good out"
    using write_all_ok [OF g ok sample_records_ok(1)] by blast
  moreover have "os_data out = magic @ concat (map record_bytes sample_records)"
    using write_all_Inr [OF w(1)] os_write_good [OF ok] by (simp add: os_open_def)
  ultimately show ?thesis using assms by (simp add: os_close_def)
qed

theorem replay_reproduces_stream_witness:
  "\<exists>out file. make_sample_capture sample_disk True ''c'' = Inr out \<and> os_close sample_disk out = Some file \<and>
    replay ldbl_exact True ''c'' file [] default_options =
      Inr (3, 3, 2, Some (Inr (spec_hash [sample_order 10 75 2000000, sample_order 11 200 1999000])))"
proof -
  have "replay ldbl_exact True ''c'' (magic @ concat (map record_bytes sample_records)) [] default_options =
      Inr (of_nat (length sample_datagrams), 4 - 1, length (stream_book 1000000 sample_stream 1 4),
        Some (Inr (spec_hash (stream_book 1000000 sample_stream 1 4))))"
    using sample_records_ok by (intro replay_reproduces_stream [OF _ sample_carries sample_decodable]) simp_all
  moreover obtain out where "make_sample_capture sample_disk True ''c'' = Inr out"
    "os_close sample_disk out = Some (magic @ concat (map record_bytes sample_records))"
    using sample_written [of sample_disk "''c''"] by auto
  ultimately show ?thesis by (simp add: sample_book sample_datagrams_def)
qed

end
