(* ===== verification/Recovery_Repair.thy ===== *)
theory Recovery_Repair
  imports Recovery
begin

text \<open>
  Losses are repaired. Packets may be lost as well as reordered and repeated; what is asked of the
  network is only that a request for missing messages is answered at some later time by a packet that
  carries at least the first message asked for. No assumption is made on what else arrives in
  between. The engine then ends with nothing held back, because a hole it still had would be one it had
  asked for.
\<close>

text \<open>Every packet of the run is accepted, and every request issued is answered by a later packet.\<close>

fun answered :: "recovery_engine \<Rightarrow> mold_downstream_packet list \<Rightarrow> bool" where
  "answered s [] \<longleftrightarrow> True"
| "answered s (p # ps) \<longleftrightarrow>
     (case ingest s p of
        (s', Inl e) \<Rightarrow> False
      | (s', Inr r) \<Rightarrow>
          (case request r of
             None \<Rightarrow> True
           | Some g \<Rightarrow> list_ex (\<lambda>q. list_ex (\<lambda>m. msg_sequence m = gap_first g) (carried q)) ps) \<and>
          answered s' ps)"

section \<open>Requests that are still open\<close>

text \<open>
  The window starts at the next expected number exactly when that number has been asked for; it
  then starts no later than the number, and there is no hole without a request.
\<close>

definition asks :: "recovery_engine \<Rightarrow> bool" where
  "asks s \<longleftrightarrow> last_requested_first s = expected s"

definition window_inv :: "recovery_engine \<Rightarrow> bool" where
  "window_inv s \<longleftrightarrow> rec_inv s \<and> 0 < expected s \<and> last_requested_first s \<le> expected s \<and> (pending s \<noteq> [] \<longrightarrow> asks s)"

lemma window_inv_init: "0 < a \<Longrightarrow> window_inv (recovery_init a) \<and> \<not> asks (recovery_init a)"
  by (simp add: window_inv_def asks_def recovery_init_def rec_inv_def)

text \<open>What sequencing may do to the window: leave it, or close it.\<close>

lemma drain_loop_window:
  "drain_loop s r = (s', Inr r') \<Longrightarrow> last_requested_first s' = last_requested_first s"
proof (induction s r rule: drain_loop.induct)
  case (1 s r)
  show ?case
  proof (cases "map_find (pending s) (expected s)")
    case None
    then show ?thesis using "1.prems" by (simp add: drain_loop.simps [of s r])
  next
    case (Some p)
    then show ?thesis
      using "1.IH" [OF Some refl refl] "1.prems"
      by (cases "expected s = max_u64") (auto simp: drain_loop.simps [of s r] Let_def)
  qed
qed

lemma ingest_messages_window:
  "ingest_messages s r ms = (s', Inr r') \<Longrightarrow> last_requested_first s' \<in> {0, last_requested_first s}"
proof (induction ms arbitrary: s r)
  case (Cons m ms)
  have d: "drain s1 r1 = (s2, Inr r2) \<Longrightarrow> last_requested_first s2 \<in> {0, last_requested_first s1}" for s1 r1 s2 r2
    using drain_loop_window [of s1 r1] by (auto simp: drain_def split: prod.splits sum.splits if_splits)
  from Cons show ?case by (force simp: Let_def split: if_splits prod.splits sum.splits dest: d)
qed simp

lemma maybe_request_asks:
  assumes "maybe_request s r n = (s', r')" and "request r = None"
  shows "last_requested_first s' = last_requested_first s \<and> request r' = None \<or>
    asks s' \<and> (\<exists>g. request r' = Some g \<and> gap_first g = expected s')"
  using assms by (auto simp: maybe_request_def asks_def Let_def split: if_splits)

lemma maybe_request_open:
  assumes "maybe_request s r n = (s', r')" and "expected s < n"
  shows "asks s'"
  using maybe_request_window(1) [OF assms] by (simp add: asks_def)

lemma ingest_window:
  assumes "ingest s p = (s', Inr r)" and "rec_inv s"
  shows "last_requested_first s' \<in> {0, last_requested_first s} \<and> request r = None \<or>
    asks s' \<and> (\<exists>g. request r = Some g \<and> gap_first g = expected s')"
    and "pkt_heartbeat p \<or> pkt_end_of_session p \<Longrightarrow>
      pending s' = pending s \<and> expected s' = expected s \<and> (expected s' < pkt_first_sequence p \<longrightarrow> asks s') \<and> (asks s \<longrightarrow> asks s')"
proof -
  define t where "t = (if rec_session s = None then s\<lparr>rec_session := Some (pkt_session p)\<rparr> else s)"
  have sess: "the (rec_session t) = pkt_session p" and inv: "rec_inv t"
    and same: "last_requested_first t = last_requested_first s" "expected t = expected s" "pending t = pending s"
    using assms by (auto simp: t_def ingest_def Let_def split: if_splits)
  have none: "request empty_result = None" by (simp add: empty_result_def)
  show "pkt_heartbeat p \<or> pkt_end_of_session p \<Longrightarrow>
      pending s' = pending s \<and> expected s' = expected s \<and> (expected s' < pkt_first_sequence p \<longrightarrow> asks s') \<and> (asks s \<longrightarrow> asks s')"
  proof -
    assume hb: "pkt_heartbeat p \<or> pkt_end_of_session p"
    then obtain r1 where m: "maybe_request t empty_result (pkt_first_sequence p) = (s', r1)"
      using assms(1) sess by (auto simp: ingest_def t_def [symmetric] Let_def split: prod.splits)
    have "pending s' = pending s \<and> expected s' = expected s" using maybe_request_state [OF m] same by auto
    with maybe_request_open [OF m] maybe_request_asks [OF m none] same show ?thesis by (auto simp: asks_def)
  qed
  show "last_requested_first s' \<in> {0, last_requested_first s} \<and> request r = None \<or>
    asks s' \<and> (\<exists>g. request r = Some g \<and> gap_first g = expected s')"
  proof (cases "pkt_heartbeat p \<or> pkt_end_of_session p")
    case True
    then obtain r1 where m: "maybe_request t empty_result (pkt_first_sequence p) = (s', r1)" "request r = request r1"
      using assms(1) sess by (auto simp: ingest_def t_def [symmetric] Let_def split: prod.splits)
    from maybe_request_asks [OF m(1) none] m(2) same show ?thesis by auto
  next
    case False
    then obtain t1 r1 where im: "ingest_messages t empty_result (pkt_messages p) = (t1, Inr r1)"
      and fin: "s' = t1 \<and> r = r1 \<or> (\<exists>n. maybe_request t1 r1 n = (s', r))"
      using assms(1) sess by (auto simp: ingest_def t_def [symmetric] Let_def split: prod.splits sum.splits if_splits)
    have "request r1 = None" using ingest_messages_keeps [OF im] none by simp
    with fin ingest_messages_window [OF im] same maybe_request_asks [of t1 r1] show ?thesis by fastforce
  qed
qed

lemma ingest_window_inv:
  assumes "ingest s p = (s', Inr r)" and "window_inv s"
  shows "window_inv s'"
    and "asks s' \<Longrightarrow> (\<exists>g. request r = Some g \<and> gap_first g = expected s') \<or> asks s \<and> expected s' = expected s"
proof -
  have inv: "rec_inv s" "0 < expected s" "last_requested_first s \<le> expected s" "pending s \<noteq> [] \<longrightarrow> asks s"
    using assms(2) by (simp_all add: window_inv_def)
  have i: "rec_inv s'" "expected s \<le> expected s'"
    using ingest_Inr [OF assms(1) inv(1), of "\<lambda>_ _. True"] by (simp_all add: good_msgs_def advance_def)
  note w = ingest_window [OF assms(1) inv(1)]
  have le: "last_requested_first s' \<le> expected s'" using w(1) i(2) inv(3) by (auto simp: asks_def)
  have "asks s'" if hole: "pending s' \<noteq> []"
  proof (cases "pkt_heartbeat p \<or> pkt_end_of_session p")
    case True
    with w(2) hole inv(4) show ?thesis by simp
  next
    case False
    then obtain t r0 where "maybe_request t r0 (fst (hd (pending s'))) = (s', r)" "expected t < fst (hd (pending s'))"
      using ingest_data_hole [OF assms(1) inv(1)] hole by auto
    then show ?thesis by (rule maybe_request_open)
  qed
  with i le inv(2) show "window_inv s'" by (auto simp: window_inv_def)
  show "(\<exists>g. request r = Some g \<and> gap_first g = expected s') \<or> asks s \<and> expected s' = expected s" if "asks s'"
  proof -
    have "0 < expected s'" using inv(2) i(2) by (rule less_le_trans)
    with w(1) that show ?thesis using inv(3) i(2) by (fastforce simp: asks_def dest: order.antisym)
  qed
qed

text \<open>Along a run in which requests are answered, what the engine still asks for is still to come.\<close>

lemma answered_run:
  "answered s ps \<Longrightarrow> window_inv s \<Longrightarrow>
   (asks s \<Longrightarrow> \<exists>q \<in> set ps. \<exists>m \<in> set (carried q). msg_sequence m = expected s) \<Longrightarrow>
   \<exists>s' ms. run_steps ingest ready s ps = (s', ms, None) \<and> window_inv s' \<and> \<not> asks s' \<and>
     (ps \<noteq> [] \<and> (pkt_heartbeat (last ps) \<or> pkt_end_of_session (last ps)) \<longrightarrow> pkt_first_sequence (last ps) \<le> expected s')"
proof (induction ps arbitrary: s)
  case Nil
  then show ?case by auto
next
  case (Cons p ps)
  obtain s1 r where i: "ingest s p = (s1, Inr r)" and more: "answered s1 ps"
    and ans: "\<And>g. request r = Some g \<Longrightarrow> \<exists>q \<in> set ps. \<exists>m \<in> set (carried q). msg_sequence m = gap_first g"
    using Cons.prems(1) by (auto simp: list_ex_iff split: prod.splits sum.splits option.splits)
  note w = ingest_window_inv [OF i Cons.prems(2)]
  have inv: "rec_inv s" using Cons.prems(2) by (simp add: window_inv_def)
  have due: "\<exists>q \<in> set ps. \<exists>m \<in> set (carried q). msg_sequence m = expected s1" if "asks s1"
    using w(2) [OF that]
  proof (elim disjE conjE exE)
    fix g assume "request r = Some g" "gap_first g = expected s1"
    with ans show ?thesis by fastforce
  next
    assume a: "asks s" "expected s1 = expected s"
    then obtain q m where q: "q \<in> set (p # ps)" "m \<in> set (carried q)" "msg_sequence m = expected s"
      using Cons.prems(3) by blast
    have "q \<noteq> p"
      using recovery.step_taken [OF inv i, of m] recovery.nxt_open [of s1] recovery.step_inv [OF inv i] q a(2) by auto
    with q a(2) show ?thesis by auto
  qed
  from Cons.IH [OF more w(1) due] obtain s' ms where s': "run_steps ingest ready s1 ps = (s', ms, None)" "window_inv s'" "\<not> asks s'"
    "ps \<noteq> [] \<and> (pkt_heartbeat (last ps) \<or> pkt_end_of_session (last ps)) \<longrightarrow> pkt_first_sequence (last ps) \<le> expected s'" by blast
  have "pkt_first_sequence p \<le> expected s1" if "ps = []" "pkt_heartbeat p \<or> pkt_end_of_session p"
    using ingest_window(2) [OF i inv that(2)] that(1) s'(1,3) by (auto simp: not_less)
  with s' i show ?case by auto
qed

lemma recovery_repairs:
  assumes "0 < a" and "answered (recovery_init a) ps"
    and "\<forall>p \<in> set ps. \<forall>m \<in> set (carried p). msg_payload m = f (msg_sequence m)"
  shows "\<exists>s'. run_steps ingest ready (recovery_init a) ps = (s', stream f a (expected s'), None) \<and> pending s' = [] \<and>
    (\<forall>p \<in> set ps. \<forall>m \<in> set (carried p). msg_sequence m < expected s') \<and>
    (ps \<noteq> [] \<and> (pkt_heartbeat (last ps) \<or> pkt_end_of_session (last ps)) \<longrightarrow> pkt_first_sequence (last ps) \<le> expected s')"
proof -
  obtain s' ms where s': "run_steps ingest ready (recovery_init a) ps = (s', ms, None)" "window_inv s'" "\<not> asks s'"
    "ps \<noteq> [] \<and> (pkt_heartbeat (last ps) \<or> pkt_end_of_session (last ps)) \<longrightarrow> pkt_first_sequence (last ps) \<le> expected s'"
    using answered_run [OF assms(2)] window_inv_init [OF assms(1)] by blast
  have p: "pending s' = []" using s'(2,3) by (auto simp: window_inv_def)
  have e: "expected (recovery_init a) = a" by (simp add: recovery_init_def)
  have ms: "ms = stream f a (expected s')"
    using recovery.run_stream [OF rec_inv_init s'(1), of f] assms(3) by (simp add: e good_msgs_def)
  have "\<forall>p \<in> set ps. \<forall>m \<in> set (carried p). msg_sequence m < expected s'"
    using recovery.run_invariants [OF rec_inv_init s'(1)] p by (auto simp: seen_def)
  with s' ms p show ?thesis by blast
qed

section \<open>Properties\<close>

text \<open>
  Losses are repaired. Let packets arrive lost, reordered or repeated in any way, and let every
  request the engine issues be answered at some later time by a packet that carries at least the
  first message asked for. Then at the end nothing is held back: every message that arrived has been
  released, the messages released are the stream without a gap, and when the last packet is a
  heartbeat or the end of the session, all messages it announces have been released.
\<close>

theorem recovery_repairs_losses:
  assumes "0 < a" and "answered (recovery_init a) ps"
    and "\<forall>p \<in> set ps. \<forall>m \<in> set (carried p). msg_payload m = f (msg_sequence m)"
  shows "\<exists>s'. run_steps ingest ready (recovery_init a) ps = (s', stream f a (expected s'), None) \<and> pending s' = [] \<and>
    (\<forall>p \<in> set ps. \<forall>m \<in> set (carried p). msg_sequence m < expected s') \<and>
    (ps \<noteq> [] \<and> (pkt_heartbeat (last ps) \<or> pkt_end_of_session (last ps)) \<longrightarrow> pkt_first_sequence (last ps) \<le> expected s')"
  using assms by (rule recovery_repairs)

text \<open>The third message first; the first two are asked for one after the other, and a heartbeat announces the next number.\<close>

definition lossy_packets :: "mold_downstream_packet list" where
  "lossy_packets = [data_packet (replicate 10 32) 3 [[3]], data_packet (replicate 10 32) 1 [[1]],
     data_packet (replicate 10 32) 2 [[2]], (data_packet (replicate 10 32) 4 [])\<lparr>pkt_heartbeat := True\<rparr>]"

lemma lossy_answered: "answered (recovery_init 1) lossy_packets"
  by (simp add: lossy_packets_def ingest_def recovery_init_def data_packet_def numbered_Cons try_emplace_def carried_def empty_result_def
      maybe_request_def Let_def drain_def drain_loop.simps map_erase_def)

theorem recovery_repairs_losses_witness:
  "\<exists>s'. run_steps ingest ready (recovery_init 1) lossy_packets = (s', stream (\<lambda>n. [ucast n]) 1 (expected s'), None) \<and>
    pending s' = [] \<and> 4 \<le> expected s'"
proof -
  have "\<forall>p \<in> set lossy_packets. \<forall>m \<in> set (carried p). msg_payload m = [ucast (msg_sequence m)]"
    by (simp add: lossy_packets_def data_packet_def numbered_Cons carried_def)
  from recovery_repairs_losses [OF _ lossy_answered this] show ?thesis
    by (auto simp: lossy_packets_def data_packet_def)
qed

text \<open>
  The assumption that requests are answered cannot be dropped, and one answer need not be enough. After a
  heartbeat that announces three messages, the same heartbeat causes no second request, and a packet
  with only the first of them moves the next expected number without a request for the rest: the
  buffer is empty, so \<open>ingest\<close> does not look for a hole. The rest is asked for at the next heartbeat.
\<close>

theorem partial_answer_silent:
  "let hb = (data_packet sess 4 [])\<lparr>pkt_heartbeat := True\<rparr> in
   \<exists>s1 s2 r1 r2. ingest (recovery_init 1) hb = (s1, Inr r1) \<and> request r1 = Some \<lparr>gap_first = 1, gap_count = 3\<rparr> \<and>
     ingest s1 hb = (s1, Inr empty_result) \<and>
     ingest s1 (data_packet sess 1 [x]) = (s2, Inr r2) \<and> expected s2 = 2 \<and> request r2 = None \<and>
     request (projr (snd (ingest s2 hb))) = Some \<lparr>gap_first = 2, gap_count = 2\<rparr>"
  by (simp add: ingest_def recovery_init_def data_packet_def numbered_Cons empty_result_def maybe_request_def Let_def
      drain_def drain_loop.simps word_le_nat_alt)

end
