(* ===== verification/Feed_Repair.thy ===== *)
theory Feed_Repair
  imports Feed_Commands Recovery_Repair
begin

text \<open>
  The listener on a network that loses packets. \<open>Recovery_Repair\<close> shows that the engine ends with the
  whole stream if its requests are answered; here this is carried through parsing, decoding and the
  book to the hash the listener prints when the session ends.
\<close>

text \<open>Without a capture file an iteration of the loop is \<open>feed_packet\<close>, and the loop ends with the session.\<close>

lemma listen_packet_feed:
  assumes "feed_packet (core st) (wire_packet p) = (fe, Inr ())" and "packet_wf p"
  shows "\<exists>st'. listen_packet (\<lambda>_. Inr ()) st (wire_packet p) = (st', Inr (pkt_end_of_session p)) \<and> core st' = fe"
proof -
  let ?send = "\<lambda>_. Inr () :: unit res"
  have p: "parse_downstream (wire_packet p) = Inr p" using assms(2) by (rule parse_downstream_wire)
  obtain st' r where l: "listen_packet ?send st (wire_packet p) = (st', r)" by fastforce
  from listening.handle_core [of st "wire_packet p" st'] l assms(1)
  obtain ended where r: "r = Inr ended" "core st' = fe"
    by (cases r) (auto simp: listen_handle_def)
  then have "ended = pkt_end_of_session p"
    using l p by (auto simp: listen_packet_def dest: ingest_end_of_session split: sum.splits prod.splits)
  with l r show ?thesis by simp
qed

lemma listen_loop_session:
  assumes "run_callback feed_packet (core st) (map wire_packet ps) = (fe, Inr ())" and "list_all packet_wf ps"
    and "fe_capture st = None" and "map fst env = map wire_packet ps"
    and "ps \<noteq> []" and "pkt_end_of_session (last ps)" and "\<forall>p \<in> set (butlast ps). \<not> pkt_end_of_session p"
  shows "\<exists>st'. listen_loop disk (\<lambda>_. Inr ()) st env = (st', Inr (Session_Ended (state_hash (snd fe)))) \<and> core st' = fe"
  using assms
proof (induction ps arbitrary: st env)
  case Nil
  then show ?case by simp
next
  case (Cons p ps)
  obtain stop now env' where env: "env = (wire_packet p, stop, now) # env'" "map fst env' = map wire_packet ps"
    using Cons.prems(4) by (cases env) auto
  obtain fe1 where f: "feed_packet (core st) (wire_packet p) = (fe1, Inr ())"
    and rest: "run_callback feed_packet fe1 (map wire_packet ps) = (fe, Inr ())"
    using Cons.prems(1) by (auto split: prod.splits sum.splits)
  have wf: "packet_wf p" using Cons.prems(2) by simp
  obtain st1 where s1: "listen_packet (\<lambda>_. Inr ()) st (wire_packet p) = (st1, Inr (pkt_end_of_session p))" "core st1 = fe1"
    using listen_packet_feed [OF f wf] by blast
  have "wire_packet p \<noteq> []" using parse_downstream_wire [OF wf] parse_downstream_short [of "[]"] by auto
  then have step: "listen_loop disk (\<lambda>_. Inr ()) st env =
      (if pkt_end_of_session p then (st1, Inr (Session_Ended (state_hash (fe_book st1)))) else listen_loop disk (\<lambda>_. Inr ()) st1 env')"
    using s1(1) Cons.prems(3) by (simp add: env(1) listen_capture_def)
  show ?case
  proof (cases "ps = []")
    case True
    then show ?thesis using Cons.prems(6) rest s1(2) step by (auto simp: core_def)
  next
    case False
    have "fe_capture st1 = None" using listen_packet_capture [OF s1(1)] Cons.prems(3) by simp
    with Cons.IH [of st1 env'] rest s1(2) env(2) False Cons.prems step show ?thesis by auto
  qed
qed

text \<open>
  C5: The listener repairs losses. Let the packets of a session be lost, reordered or repeated, every request be
  answered at some later time by at least the first message asked for, and the last packet be the end of
  the session, announcing \<open>b\<close> as the next number. Then the listener throws nothing and ends with the book in which the events of
  the whole stream from \<open>a\<close> to \<open>b\<close> were applied in order, and the hash it prints is that of this book.
\<close>

theorem listener_repairs_losses:
  assumes "0 < n" and "n < 0xFFFFFFFF" and "order_book_init n = Inr ob" and "0 < a" and "a \<le> b"
    and "st = \<lparr>fe_recovery = recovery_init a, fe_book = ob, fe_sent = [], fe_rejected = [], fe_capture = None\<rparr>"
    and "list_all packet_wf ps" and "answered (recovery_init a) ps"
    and "\<forall>p \<in> set ps. \<forall>m \<in> set (carried p). msg_payload m = f (msg_sequence m) \<and> msg_sequence m < b"
    and "ps \<noteq> []" and "pkt_end_of_session (last ps)" and "pkt_first_sequence (last ps) = b"
    and "\<forall>p \<in> set (butlast ps). \<not> pkt_end_of_session p"
    and "map fst env = map wire_packet ps" and "decodable (stream f a b)"
  shows "\<exists>st'. listen_loop disk (\<lambda>_. Inr ()) st env = (st', Inr (Session_Ended (Some (Inr (spec_hash (stream_book n f a b)))))) \<and>
    expected (fe_recovery st') = b \<and> pending (fe_recovery st') = [] \<and>
    live_order_count (fe_book st') = length (stream_book n f a b) \<and>
    (\<forall>oid. book_find (fe_book st') oid = Inr (find_order (stream_book n f a b) oid))"
proof -
  have ob: "represents n ob []" using init_represents [of n] assms(1-3) by (auto simp: kInvalidSlot_def)
  have f: "\<forall>p \<in> set ps. \<forall>m \<in> set (carried p). msg_payload m = f (msg_sequence m)"
    and below: "\<forall>p \<in> set ps. \<forall>m \<in> set (carried p). msg_sequence m < b" using assms(9) by auto
  obtain s' where s': "run_steps ingest ready (recovery_init a) ps = (s', stream f a (expected s'), None)" "pending s' = []"
    "b \<le> expected s'"
    using recovery_repairs [OF assms(4,8) f] assms(10-12) by auto
  have e: "expected s' = b" using run_below [OF s'(1) assms(5) below] s'(3) by (rule order.antisym)
  obtain ob' where ob': "run_callback feed_packet (recovery_init a, ob) (map wire_packet ps) = ((s', ob'), Inr ())"
    "represents n ob' (stream_book n f a b)"
    using feed_packets_represents [OF s'(1) assms(7) ob] assms(15) by (auto simp: e stream_book_def)
  have "run_callback feed_packet (core st) (map wire_packet ps) = ((s', ob'), Inr ())" using ob'(1) by (simp add: assms(6) core_def)
  from listen_loop_session [OF this assms(7) _ assms(14,10,11,13), of disk] obtain st' where
    "listen_loop disk (\<lambda>_. Inr ()) st env = (st', Inr (Session_Ended (state_hash ob')))" "core st' = (s', ob')"
    by (auto simp: assms(6))
  with e s'(2) ob'(2) show ?thesis by (auto simp: core_def hash_view count_view find_view)
qed

text \<open>The sample stream with its third message early, and the end of the session.\<close>

definition sample_end :: mold_downstream_packet where
  "sample_end = \<lparr>pkt_session = sample_session, pkt_first_sequence = 4, pkt_message_count = 0xFFFF,
     pkt_heartbeat = False, pkt_end_of_session = True, pkt_messages = []\<rparr>"

lemma sample_end_wf: "packet_wf sample_end"
  by (simp add: sample_end_def packet_wf_def sample_session_def session_from_string_alt)

lemma sample_answered: "answered (recovery_init 1) (sample_datagrams @ [sample_end])"
  by (simp add: sample_datagrams_def sample_end_def ingest_def recovery_init_def data_packet_def numbered_Cons try_emplace_def
      carried_def empty_result_def maybe_request_def Let_def drain_def drain_loop.simps map_erase_def)

theorem listener_repairs_losses_witness:
  "\<exists>ob st'. order_book_init 1024 = Inr ob \<and>
    listen_loop sample_disk (\<lambda>_. Inr ()) \<lparr>fe_recovery = recovery_init 1, fe_book = ob, fe_sent = [], fe_rejected = [], fe_capture = None\<rparr>
      (map (\<lambda>p. (wire_packet p, False, 0)) (sample_datagrams @ [sample_end])) =
      (st', Inr (Session_Ended (Some (Inr (spec_hash [sample_order 10 75 2000000, sample_order 11 200 1999000]))))) \<and>
    live_order_count (fe_book st') = 2"
proof -
  let ?ps = "sample_datagrams @ [sample_end]"
  obtain ob where ob: "order_book_init 1024 = Inr ob"
    using init_represents [of 1024] by (auto simp: kInvalidSlot_def)
  let ?st = "\<lparr>fe_recovery = recovery_init 1, fe_book = ob, fe_sent = [], fe_rejected = [], fe_capture = None\<rparr>"
  have wf: "list_all packet_wf ?ps" using sample_carries sample_end_wf by (simp add: carries_def)
  have m: "\<forall>p \<in> set ?ps. \<forall>m \<in> set (carried p). msg_payload m = sample_stream (msg_sequence m) \<and> msg_sequence m < 4"
    using sample_carries by (simp add: carries_def carried_def sample_end_def)
  have e: "pkt_end_of_session (last ?ps)" "pkt_first_sequence (last ?ps) = 4" "\<forall>p \<in> set (butlast ?ps). \<not> pkt_end_of_session p"
    by (simp_all add: sample_end_def sample_datagrams_def data_packet_def)
  have "\<exists>st'. listen_loop sample_disk (\<lambda>_. Inr ()) ?st (map (\<lambda>p. (wire_packet p, False, 0)) ?ps) =
      (st', Inr (Session_Ended (Some (Inr (spec_hash (stream_book 1024 sample_stream 1 4)))))) \<and>
      live_order_count (fe_book st') = length (stream_book 1024 sample_stream 1 4)"
    using listener_repairs_losses [OF _ _ ob _ _ refl wf sample_answered m _ e _ sample_decodable, of "map (\<lambda>p. (wire_packet p, False, 0)) ?ps"]
    by (auto simp del: listen_loop.simps)
  with ob show ?thesis by (auto simp: sample_book simp del: listen_loop.simps)
qed

end
