(* ===== verification/Feed_Safety.thy ===== *)
theory Feed_Safety
  imports Feed_Repair
begin

text \<open>
  The engine on hostile input. Datagrams and capture files are arbitrary bytes here: truncated, forged,
  of several sessions, with any sequence numbers. The only way to undefined behaviour in the
  sequencing is the last sequence number; it takes as many messages to get there, and a message
  takes bytes. So below a bound on the bytes received no input leads to undefined behaviour, and the book stays
  a book.
\<close>

section \<open>Room in the sequence numbers\<close>

text \<open>What the engine has used of the sequence numbers: those released and those waiting.\<close>

definition rec_load :: "recovery_engine \<Rightarrow> nat" where
  "rec_load s = unat (expected s) + length (pending s)"

lemma decode_outcome_Inl: "decode_outcome (Inl e :: 'a res) \<Longrightarrow> decode_outcome (Inl e :: 'b res)"
  by (cases e) simp_all

lemma length_map_put: "length (map_put lt k v m) \<le> Suc (length m)"
  by (induction lt k v m rule: map_put.induct) auto

lemma length_try_emplace: "length (fst (try_emplace lt k v m)) \<le> Suc (length m)"
  using length_map_put [of lt k v m] by (auto simp: try_emplace_def split: option.splits)

lemma length_map_erase_less: "map_find m k = Some v \<Longrightarrow> length (map_erase k m) < length m"
  unfolding map_erase_def by (auto dest: map_of_SomeD intro!: length_filter_less)

lemma drain_loop_load:
  "rec_load s < 2 ^ 64 \<Longrightarrow> \<exists>s' r'. drain_loop s r = (s', Inr r') \<and> rec_load s' \<le> rec_load s"
proof (induction s r rule: drain_loop.induct)
  case (1 s r)
  show ?case
  proof (cases "map_find (pending s) (expected s)")
    case None
    then show ?thesis by (simp add: drain_loop.simps [of s r])
  next
    case (Some p)
    note len = length_map_erase_less [OF Some]
    have ne: "expected s \<noteq> max_u64" using "1.prems" len by (auto simp: rec_load_def)
    let ?s1 = "s\<lparr>pending := map_erase (expected s) (pending s), expected := expected s + 1\<rparr>"
    have "rec_load ?s1 \<le> rec_load s" using len ne by (simp add: rec_load_def unat_inc)
    with "1.IH" [OF Some refl refl] "1.prems" Some ne show ?thesis
      by (fastforce simp: drain_loop.simps [of s r] Let_def)
  qed
qed

lemma drain_load: "rec_load s < 2 ^ 64 \<Longrightarrow> \<exists>s' r'. drain s r = (s', Inr r') \<and> rec_load s' \<le> rec_load s"
  using drain_loop_load [of s r] by (auto simp: drain_def rec_load_def)

lemma ingest_messages_load:
  "ingest_messages s r ms = (s', x) \<Longrightarrow> rec_load s + length ms < 2 ^ 64 \<Longrightarrow>
   decode_outcome x \<and> rec_load s' \<le> rec_load s + length ms"
proof (induction ms arbitrary: s r)
  case (Cons m ms)
  consider (stale) "msg_sequence m < expected s" | (nxt) "msg_sequence m = expected s"
    | (future) "expected s < msg_sequence m" by (rule linorder_cases)
  then show ?case
  proof cases
    case stale
    with Cons show ?thesis by fastforce
  next
    case nxt
    show ?thesis
    proof (cases "expected s = max_u64")
      case True
      with Cons.prems nxt show ?thesis by (auto simp: Let_def)
    next
      case False
      let ?s1 = "s\<lparr>expected := expected s + 1\<rparr>" and ?r1 = "r\<lparr>ready := ready r @ [m]\<rparr>"
      have l: "rec_load ?s1 = rec_load s + 1" using False by (simp add: rec_load_def unat_inc)
      then have "rec_load ?s1 < 2 ^ 64" using Cons.prems(2) by simp
      from drain_load [OF this, of ?r1] obtain s2 r2 where d: "drain ?s1 ?r1 = (s2, Inr r2)" "rec_load s2 \<le> rec_load s + 1"
        using l by auto
      then have "ingest_messages s2 r2 ms = (s', x)" using Cons.prems(1) nxt False by (simp add: Let_def)
      with Cons.IH [of s2 r2] Cons.prems(2) d(2) show ?thesis by simp
    qed
  next
    case future
    let ?s1 = "s\<lparr>pending := fst (try_emplace (<) (msg_sequence m) (msg_payload m) (pending s))\<rparr>"
    have "rec_load ?s1 \<le> rec_load s + 1"
      using length_try_emplace [of "(<)" "msg_sequence m" "msg_payload m" "pending s"] by (simp add: rec_load_def)
    moreover have "\<not> msg_sequence m < expected s" "msg_sequence m \<noteq> expected s" using future by auto
    then have "ingest_messages ?s1 r ms = (s', x)" using Cons.prems(1) by simp
    ultimately show ?thesis using Cons.IH [of ?s1 r] Cons.prems(2) by simp
  qed
qed auto

lemma rec_load_fields [simp]:
  "rec_load (s\<lparr>last_requested_first := a, last_requested_last := b\<rparr>) = rec_load s"
  "rec_load (s\<lparr>rec_session := c\<rparr>) = rec_load s"
  by (simp_all add: rec_load_def)

lemma maybe_request_load: "maybe_request s r n = (s', r') \<Longrightarrow> rec_load s' = rec_load s"
  by (auto simp: maybe_request_def Let_def split: if_splits)

lemma ingest_load:
  assumes "ingest s p = (s', x)" and "rec_load s + length (pkt_messages p) < 2 ^ 64"
  shows "decode_outcome x \<and> rec_load s' \<le> rec_load s + length (pkt_messages p)"
proof -
  define t where "t = (if rec_session s = None then s\<lparr>rec_session := Some (pkt_session p)\<rparr> else s)"
  have t: "rec_load t = rec_load s" by (simp add: t_def)
  obtain t1 y where m: "ingest_messages t empty_result (pkt_messages p) = (t1, y)" by fastforce
  then have "decode_outcome y \<and> rec_load t1 \<le> rec_load s + length (pkt_messages p)"
    using ingest_messages_load [OF m] assms(2) t by simp
  with assms(1) m t show ?thesis
    unfolding ingest_def t_def [symmetric] Let_def
    by (auto split: if_splits prod.splits sum.splits dest!: maybe_request_load)
qed

lemma parse_count: "parse_downstream d = Inr p \<Longrightarrow> length (pkt_messages p) \<le> length d"
proof -
  assume "parse_downstream d = Inr p"
  then have "d = wire_packet p" using parse_downstream_sound by blast
  moreover have "length ms \<le> length (concat (map (wire_message \<circ> msg_payload) ms))" for ms
    by (induction ms) simp_all
  from this [of "pkt_messages p"] have "length (pkt_messages p) \<le> length (wire_packet p)"
    unfolding wire_packet_def length_append by (rule trans_le_add2)
  ultimately show ?thesis by simp
qed

section \<open>The engine\<close>

text \<open>The engine holds a book of \<open>n\<close> slots and can take \<open>k\<close> more bytes.\<close>

definition feed_inv :: "nat \<Rightarrow> nat \<Rightarrow> recovery_engine \<times> order_book \<Rightarrow> bool" where
  "feed_inv n k fe \<longleftrightarrow> rec_load (fst fe) + k < 2 ^ 64 \<and> (\<exists>os. represents n (snd fe) os)"

lemma feed_messages_safe:
  "feed_messages ob ms = (ob', r) \<Longrightarrow> represents n ob os \<Longrightarrow> decode_outcome r \<and> (\<exists>os'. represents n ob' os')"
proof (induction ms arbitrary: ob os)
  case (Cons m ms)
  show ?case
  proof (cases "decode_book_event (msg_payload m)")
    case (Inl e)
    then show ?thesis using Cons.prems itch.decode_total [of "msg_payload m"] by (auto intro: decode_outcome_Inl)
  next
    case (Inr x)
    show ?thesis
    proof (cases x)
      case (Some e)
      obtain ob1 where "book_apply ob e = Inr (fst (spec_apply n os e), ob1)" "represents n ob1 (snd (spec_apply n os e))"
        using apply_sim [OF Cons.prems(2)] by blast
      with Cons Inr Some show ?thesis by auto
    qed (use Cons Inr in auto)
  qed
qed auto

lemma feed_packet_safe:
  assumes "feed_packet fe d = (fe', r)" and "feed_inv n k fe" and "length d \<le> k"
  shows "decode_outcome r \<and> feed_inv n (k - length d) fe'"
proof -
  obtain s ob os where fe: "fe = (s, ob)" "rec_load s + k < 2 ^ 64" "represents n ob os"
    using assms(2) by (cases fe) (auto simp: feed_inv_def)
  show ?thesis
  proof (cases "parse_downstream d")
    case (Inl e)
    with assms fe parse_downstream_outcome [of d] show ?thesis
      by (auto simp: feed_packet_def feed_inv_def intro: decode_outcome_Inl)
  next
    case (Inr p)
    obtain s' x where i: "ingest s p = (s', x)" by fastforce
    have x: "decode_outcome x" "rec_load s' + (k - length d) < 2 ^ 64"
      using ingest_load [OF i] parse_count [OF Inr] fe(2) assms(3) by auto
    show ?thesis
    proof (cases x)
      case (Inl e)
      with assms(1) Inr i x fe show ?thesis by (auto simp: feed_packet_def feed_inv_def intro: decode_outcome_Inl)
    next
      case r: (Inr y)
      obtain ob' z where m: "feed_messages ob (ready y) = (ob', z)" by fastforce
      with assms(1) Inr i r x fe feed_messages_safe [OF m fe(3)] show ?thesis by (auto simp: feed_packet_def feed_inv_def)
    qed
  qed
qed

context packet_handler
begin

lemma handle_safe:
  "handle st d = (st', r) \<Longrightarrow> feed_inv n k (core_of st) \<Longrightarrow> length d \<le> k \<Longrightarrow>
   decode_outcome r \<and> feed_inv n (k - length d) (core_of st')"
  using feed_packet_safe [OF handle_core] .

lemma run_safe:
  "run_callback handle st ds = (st', r) \<Longrightarrow> feed_inv n k (core_of st) \<Longrightarrow> length (concat ds) \<le> k \<Longrightarrow>
   decode_outcome r \<and> (\<exists>j. feed_inv n j (core_of st'))"
proof (induction ds arbitrary: st k)
  case (Cons d ds)
  obtain st1 r1 where h: "handle st d = (st1, r1)" by fastforce
  have s: "decode_outcome r1" "feed_inv n (k - length d) (core_of st1)" using handle_safe [OF h] Cons.prems by auto
  with Cons.IH [of st1 "k - length d"] Cons.prems h show ?case by (cases r1) (auto split: sum.splits)
qed auto

end
section \<open>Captures\<close>

text \<open>
  What a callback owes a replay: an invariant that counts down the bytes it was given, and no
  undefined behaviour while it holds. The replay of any file then has none either.
\<close>

locale safe_callback =
  fixes cb :: "'s \<Rightarrow> capture_record \<Rightarrow> 's \<times> unit res" and inv :: "nat \<Rightarrow> 's \<Rightarrow> bool"
  assumes cb_safe: "cb app rec = (app', r) \<Longrightarrow> inv k app \<Longrightarrow> length (datagram rec) \<le> k \<Longrightarrow>
    defined r \<and> inv (k - length (datagram rec)) app'"
begin

lemma record_safe:
  assumes "replay_record ldbl opts cb st rec = (st', r)" and "inv k (rp_app st)" and "length (datagram rec) \<le> k"
    and "ldbl_ok ldbl" and "ro_mode opts = Scaled \<Longrightarrow> \<not> dbl_le_0 (ro_speed opts)" and "ro_speed opts \<noteq> NaN"
  shows "defined r \<and> (\<exists>j \<ge> k - length (datagram rec). inv j (rp_app st'))"
proof -
  have keep: "\<exists>j \<ge> k - length (datagram rec). inv j (rp_app st)" using assms(2) by (auto intro: exI [of _ k])
  show ?thesis
  proof (cases "replay_wait ldbl opts st rec")
    case (Inl e)
    have "\<not> is_undefined x" if "scaled_delay ldbl (ld_div ldbl d (ro_speed opts)) = Inl x" "ro_mode opts = Scaled" for d x
      using scaled_delay_range [OF assms(4) assms(5) [OF that(2)], of d] that(1) assms(6) by (auto simp: defined_def)
    with Inl have "\<not> is_undefined e"
      by (auto simp: replay_wait_def Let_def res_simps split: option.splits if_splits)
    with Inl assms(1) keep show ?thesis by (auto simp: replay_record_def)
  next
    case (Inr st1)
    then have "rp_app st1 = rp_app st" by (auto simp: replay_wait_def Let_def res_simps split: option.splits if_splits)
    moreover obtain st2 y where y: "replay_prompt opts st1 = (st2, y)" by fastforce
    then have "rp_app st2 = rp_app st1" "defined y" by (auto simp: replay_prompt_def Let_def split: if_splits prod.splits)
    moreover obtain app z where z: "cb (rp_app st2) rec = (app, z)" by fastforce
    ultimately show ?thesis
      using assms(1-3) Inr y cb_safe [OF z, of k] keep by (cases y; cases z) (auto simp: replay_record_def)
  qed
qed

lemma loop_safe:
  assumes "ldbl_ok ldbl" and "ro_mode opts = Scaled \<Longrightarrow> \<not> dbl_le_0 (ro_speed opts)" and "ro_speed opts \<noteq> NaN"
  shows "replay_loop ldbl opts cb reader st = (st', r) \<Longrightarrow> inv k (rp_app st) \<Longrightarrow> length (is_rest reader) \<le> k \<Longrightarrow>
    defined r \<and> (\<exists>j. inv j (rp_app st'))"
proof (induction "length (is_rest reader)" arbitrary: reader st k rule: less_induct)
  case less
  consider (err) t where "capture_next reader = Inl (RuntimeError t)" | (fin) i where "capture_next reader = Inr (None, i)"
    | (rec) rec i where "capture_next reader = Inr (Some rec, i)"
    using capture_next_outcome [of reader] by (metis surj_pair option.exhaust)
  then show ?case
  proof cases
    case rec
    obtain st1 x where s1: "replay_record ldbl opts cb st rec = (st1, x)" by fastforce
    have len: "length (is_rest i) + length (datagram rec) < length (is_rest reader)"
      using capture_next_inv [OF rec] by simp
    then have "length (datagram rec) \<le> k" using less.prems(3) by simp
    from record_safe [OF s1 less.prems(2) this assms] obtain j
      where j: "defined x" "k - length (datagram rec) \<le> j" "inv j (rp_app st1)" by blast
    show ?thesis
    proof (cases x)
      case (Inl e)
      with less.prems(1) rec s1 j show ?thesis by (subst (asm) replay_loop.simps) auto
    next
      case (Inr u)
      then have "replay_loop ldbl opts cb i st1 = (st', r)"
        using less.prems(1) rec s1 by (subst (asm) replay_loop.simps) simp
      with less.hyps [of i st1 j] len j less.prems(3) show ?thesis by simp
    qed
  qed (use less.prems in \<open>auto simp: replay_loop.simps [of ldbl opts cb reader st]\<close>)
qed

lemma replay_safe:
  assumes "replay_run ldbl opts cb can_open path contents input app = (st', r)" and "inv (length contents) app"
    and "ldbl_ok ldbl" and "ro_speed opts \<noteq> NaN"
  shows "defined r \<and> (\<exists>j. inv j (rp_app st'))"
proof (cases "ro_mode opts = Scaled \<and> dbl_le_0 (ro_speed opts)")
  case True
  with assms(1,2) show ?thesis by (auto simp: replay_run_def replay_start_def)
next
  case speed: False
  show ?thesis
  proof (cases "reader_init can_open path contents")
    case (Inl e)
    then have "\<not> is_undefined e" by (auto simp: reader_init_def split: if_splits prod.splits)
    with speed Inl assms(1) have "defined r" "rp_app st' = app" by (auto simp: replay_run_def replay_start_def)
    with assms(2) show ?thesis by auto
  next
    case (Inr reader)
    then have "can_open" by (auto simp: reader_init_def split: if_splits)
    with Inr have "length (is_rest reader) \<le> length contents" by (auto simp: reader_init_iff)
    with speed Inr assms loop_safe [of ldbl opts reader "replay_start app input" st' r "length contents"] show ?thesis
      by (auto simp: replay_run_def replay_start_def)
  qed
qed

end

interpretation counting_cb: safe_callback replay_callback "\<lambda>k st. feed_inv 1000000 k (core st)"
  by unfold_locales (auto simp: replay_callback_def dest: counting.handle_safe intro: decode_outcome_defined)

section \<open>The listener\<close>

lemma listen_request_safe:
  assumes "listen_request send (st\<lparr>fe_recovery := s\<rparr>) x = (st', r)" and "parse_downstream d = Inr p" and "ingest s0 p = (s, Inr x)"
    and "\<And>b. defined (send b)"
  shows "defined r \<and> core st' = (s, fe_book st)"
proof -
  have len: "rec_session s = Some (pkt_session p)" "length (pkt_session p) = 10"
    using ingest_request [OF assms(3)] parse_session_length [OF assms(2)] by auto
  from assms(1,4) len show ?thesis
    by (auto simp: listen_request_def encode_request_eq core_def split: option.splits sum.splits if_splits)
qed

lemma listen_packet_safe:
  assumes "listen_packet send st d = (st', r)" and "feed_inv n k (core st)" and "length d \<le> k" and "\<And>b. defined (send b)"
  shows "defined r \<and> feed_inv n (k - length d) (core st')"
proof (cases "parse_downstream d")
  case (Inl e)
  with assms parse_downstream_outcome [of d] show ?thesis
    by (auto simp: listen_packet_def feed_inv_def core_def dest!: decode_outcome_defined)
next
  case (Inr p)
  obtain s x where i: "ingest (fe_recovery st) p = (s, x)" by fastforce
  have x: "decode_outcome x" "rec_load s + (k - length d) < 2 ^ 64"
    using ingest_load [OF i] parse_count [OF Inr] assms(2,3) by (auto simp: feed_inv_def core_def)
  have inv: "feed_inv n (k - length d) (s, fe_book st)" using x(2) assms(2) by (auto simp: feed_inv_def core_def)
  show ?thesis
  proof (cases x)
    case (Inl e)
    with assms(1) Inr i x inv show ?thesis by (auto simp: listen_packet_def core_def dest!: decode_outcome_defined)
  next
    case y: (Inr y)
    obtain st1 q where q: "listen_request send (st\<lparr>fe_recovery := s\<rparr>) y = (st1, q)" by fastforce
    have 1: "defined q" "core st1 = (s, fe_book st)" using listen_request_safe [OF q Inr] i y assms(4) by auto
    obtain st2 z where z: "listen_messages st1 (ready y) = (st2, z)" by fastforce
    obtain os where "represents n (fe_book st) os" using assms(2) by (auto simp: feed_inv_def core_def)
    with feed_messages_safe [of "fe_book st" "ready y" "fe_book st2" z n os] listen_messages_core [OF z] 1(2)
    have "decode_outcome z" "\<exists>os. represents n (fe_book st2) os" "fe_recovery st2 = s" by (auto simp: core_def)
    with assms(1) Inr i y q z 1 inv x(2) show ?thesis
      by (auto simp: listen_packet_def core_def feed_inv_def dest!: decode_outcome_defined split: sum.splits)
  qed
qed

lemma listen_loop_safe:
  assumes "\<And>b. defined (send b)"
  shows "listen_loop disk send st env = (st', r) \<Longrightarrow> feed_inv n k (core st) \<Longrightarrow> length (concat (map fst env)) \<le> k \<Longrightarrow>
    defined r \<and> (\<exists>os. represents n (fe_book st') os) \<and>
    (\<forall>h. r = Inr (Session_Ended h) \<longrightarrow> h = state_hash (fe_book st'))"
proof (induction env arbitrary: st k)
  case Nil
  then show ?case by (auto simp: feed_inv_def core_def)
next
  case (Cons a env)
  obtain d stop now where a: "a = (d, stop, now)" by (cases a)
  have book: "\<exists>os. represents n (fe_book st) os" using Cons.prems(2) by (auto simp: feed_inv_def core_def)
  show ?case
  proof (cases "d = [] \<and> stop")
    case True
    with Cons.prems(1) a book show ?thesis by auto
  next
    case False
    show ?thesis
    proof (cases "listen_capture disk now st d")
      case (Inl e)
      then have "\<not> is_undefined e"
        by (auto simp: listen_capture_def capture_write_def Let_def res_simps split: option.splits if_splits)
      with False Inl Cons.prems(1) a book show ?thesis by auto
    next
      case (Inr st1)
      then have "core st1 = core st"
        by (auto simp: listen_capture_def core_capture res_simps split: option.splits)
      then have inv: "feed_inv n k (core st1)" using Cons.prems(2) by simp
      obtain st2 x where x: "listen_packet send st1 d = (st2, x)" by fastforce
      have s2: "defined x" "feed_inv n (k - length d) (core st2)"
        using listen_packet_safe [OF x inv _ assms] Cons.prems(3) a by auto
      show ?thesis
        using Cons.prems Cons.IH [of st2 "k - length d"] s2 False Inr x a
        by (cases x) (auto simp: feed_inv_def core_def split: if_splits)
    qed
  qed
qed

end
