(* ===== verification/Program.thy ===== *)
theory Program
  imports Feed_Safety
begin

text \<open>
  \<open>main\<close> of \<^verbatim>\<open>src/main.cpp\<close> as a whole: from the arguments and what the machine provides to what is reported
  and how the process ends. What the machine provides is the record \<open>platform\<close>: the conversions of
  the standard library, the files, the standard input, the results of the system calls, and the datagrams
  received. Exceptions reach the \<open>catch\<close> of \<open>main\<close>, undefined behaviour does not, and a query that
  walks in circles never returns, so each has an ending of its own.
\<close>

section \<open>Endings\<close>

record platform =
  pf_stod :: "string \<Rightarrow> dbl res"
  pf_stoi :: "string \<Rightarrow> int res"
  pf_ldbl :: ldouble
  pf_file :: "string \<Rightarrow> u8 list option"
  pf_writable :: "string \<Rightarrow> bool"
  pf_disk :: disk
  pf_input :: "u8 list"
  pf_sys :: "string \<Rightarrow> u16 \<Rightarrow> sys_results"
  pf_pton :: "string \<Rightarrow> int"
  pf_sendto :: "string \<Rightarrow> u16 \<Rightarrow> u8 list \<Rightarrow> int"
  pf_strerror :: string
  pf_received :: "(u8 list \<times> bool \<times> u64) list"

datatype ending = Exit int | Waits | Never_Returns | Crash string

datatype report =
    Demo_Report "log_line list" nat "price option" u64
  | Help_Report "string list"
  | Replay_Report u64 u64 nat u64
  | Sample_Report string "u8 list option"
  | Listen_Report "seqno list" "u64 option"
  | Usage_Report
  | Fatal_Report exn
  | No_Report

definition help_text :: "string list" where
  "help_text =
     [''Exchange Feed Engine'',
      ''  feed_engine demo'',
      ''  feed_engine make-sample-capture <file>'',
      ''  feed_engine replay <capture> [--speed max|N | --realtime | --step]'',
      ''  feed_engine listen <group> <port> <rerequest-host> <rerequest-port> [capture.efc]'']"

text \<open>The \<open>catch\<close> of \<open>main\<close>.\<close>

fun fatal :: "exn \<Rightarrow> report \<times> ending" where
  "fatal (Undefined what) = (No_Report, Crash what)"
| "fatal e = (Fatal_Report e, Exit 1)"

text \<open>Printing a hash, which is computed first.\<close>

definition with_hash :: "u64 res option \<Rightarrow> (u64 \<Rightarrow> report) \<Rightarrow> report \<times> ending" where
  "with_hash h f =
     (case h of None \<Rightarrow> (No_Report, Never_Returns) | Some (Inl e) \<Rightarrow> fatal e | Some (Inr x) \<Rightarrow> (f x, Exit 0))"

section \<open>The program\<close>

definition run_demo :: "report \<times> ending" where
  "run_demo =
     (case demo of
        Inl e \<Rightarrow> fatal e
      | Inr (st, Inl e) \<Rightarrow> fatal e
      | Inr (st, Inr _) \<Rightarrow>
          with_hash (state_hash (fe_book st))
            (Demo_Report (fe_log st) (live_order_count (fe_book st)) (best_bid (fe_book st) (from_string (bytes_of ''AAPL'')))))"

definition run_replay :: "platform \<Rightarrow> string \<Rightarrow> replay_options res \<Rightarrow> report \<times> ending" where
  "run_replay pf path opts =
     (case opts of
        Inl e \<Rightarrow> fatal e
      | Inr opts \<Rightarrow>
          (case replay (pf_ldbl pf) (pf_file pf path \<noteq> None) path (case pf_file pf path of None \<Rightarrow> [] | Some c \<Rightarrow> c) (pf_input pf) opts of
             Inl e \<Rightarrow> fatal e
           | Inr (packets, messages, live, h) \<Rightarrow> with_hash h (Replay_Report packets messages live)))"

definition run_sample :: "platform \<Rightarrow> string \<Rightarrow> report \<times> ending" where
  "run_sample pf path =
     (case make_sample_capture (pf_disk pf) (pf_writable pf path) path of
        Inl e \<Rightarrow> fatal e
      | Inr out \<Rightarrow> (Sample_Report path (os_close (pf_disk pf) out), Exit 0))"

text \<open>Rerequests go out through \<open>send_unicast\<close>.\<close>

definition rerequest :: "platform \<Rightarrow> string \<Rightarrow> u16 \<Rightarrow> u8 list \<Rightarrow> unit res" where
  "rerequest pf host port bytes = send_unicast (pf_pton pf host) (pf_sendto pf host port bytes) (pf_strerror pf) bytes"

definition run_listen :: "platform \<Rightarrow> string list \<Rightarrow> report \<times> ending" where
  "run_listen pf args =
     (case listen (pf_stoi pf) (pf_sys pf) {} (pf_disk pf) (4 < length args \<and> pf_writable pf (args ! 4)) (rerequest pf) args (pf_received pf) of
        Inl e \<Rightarrow> fatal e
      | Inr None \<Rightarrow> (Usage_Report, Exit 2)
      | Inr (Some (st, Inl e)) \<Rightarrow> fatal e
      | Inr (Some (st, Inr Waiting)) \<Rightarrow> (Listen_Report (fe_rejected st) None, Waits)
      | Inr (Some (st, Inr Stopped)) \<Rightarrow> (Listen_Report (fe_rejected st) None, Exit 0)
      | Inr (Some (st, Inr (Session_Ended h))) \<Rightarrow> with_hash h (\<lambda>x. Listen_Report (fe_rejected st) (Some x)))"

definition main :: "platform \<Rightarrow> string list \<Rightarrow> report \<times> ending" where
  "main pf args =
     (case main_command (pf_stod pf) args of
        Cmd_Demo \<Rightarrow> run_demo
      | Cmd_Help \<Rightarrow> (Help_Report help_text, Exit 0)
      | Cmd_Replay path opts \<Rightarrow> run_replay pf path opts
      | Cmd_Make_Sample path \<Rightarrow> run_sample pf path
      | Cmd_Listen args \<Rightarrow> run_listen pf args
      | Cmd_Exit code \<Rightarrow> (Usage_Report, Exit (int code)))"

section \<open>No crash\<close>

text \<open>What the machine promises: conversions and division have defined results.\<close>

definition platform_ok :: "platform \<Rightarrow> bool" where
  "platform_ok pf \<longleftrightarrow> ldbl_ok (pf_ldbl pf) \<and> (\<forall>s. defined (pf_stod pf s)) \<and> (\<forall>s. defined (pf_stoi pf s))"

definition proper :: "report \<times> ending \<Rightarrow> bool" where
  "proper r \<longleftrightarrow> snd r = Waits \<or> (\<exists>c \<in> {0, 1, 2}. snd r = Exit c)"

lemma proper_Exit [simp]: "proper (r, Exit 0)" "proper (r, Exit 2)" "proper (r, Waits)"
  by (auto simp: proper_def)

lemma fatal_proper: "defined (Inl e :: 'a res) \<Longrightarrow> proper (fatal e)"
  by (cases e) (auto simp: proper_def)

lemma with_hash_proper: "represents n ob os \<Longrightarrow> proper (with_hash (state_hash ob) f)"
  by (simp add: hash_view with_hash_def)

text \<open>The orders the demonstration leaves.\<close>

abbreviation demo_orders :: "order list" where
  "demo_orders \<equiv> [sample_order 10 75 2000000, sample_order 11 200 1999000]"

lemma run_demo_state:
  "\<exists>st. demo = Inr (st, Inr ()) \<and> run_demo = (Demo_Report (fe_log st) 2 (Some 2000000) (spec_hash demo_orders), Exit 0)"
proof -
  obtain st where d: "demo = Inr (st, Inr ())" and o: "represents 1024 (fe_book st) demo_orders"
    using demo_book by blast
  have "live_order_count (fe_book st) = 2" using count_view [OF o] by simp
  then have "run_demo = (Demo_Report (fe_log st) 2 (Some 2000000) (spec_hash demo_orders), Exit 0)"
    unfolding run_demo_def d sum.case prod.case sample_best [OF o] hash_view [OF o] with_hash_def option.case by simp
  with d show ?thesis by blast
qed

lemma run_demo_result: "\<exists>log. run_demo = (Demo_Report log 2 (Some 2000000) (spec_hash demo_orders), Exit 0)"
  using run_demo_state by blast

lemma run_sample_proper: "proper (run_sample pf path)"
proof -
  have "defined (make_sample_capture (pf_disk pf) (pf_writable pf path) path)"
    by (auto simp: make_sample_capture_def sample_packets_eq writer_init_def capture_write_def Let_def defined_def res_simps
        split: sum.splits)
  then show ?thesis by (auto simp: run_sample_def intro: fatal_proper split: sum.splits)
qed

lemma replay_proper:
  assumes "replay ldbl can_open path contents input opts = r" and "length contents + 1 < 2 ^ 64" and "ldbl_ok ldbl" and "ro_speed opts \<noteq> NaN"
  shows "case r of Inl e \<Rightarrow> \<not> is_undefined e | Inr (packets, messages, live, h) \<Rightarrow> \<exists>x. h = Some (Inr x)"
proof -
  obtain ob where ob: "order_book_init 1000000 = Inr ob" "represents 1000000 ob []"
    using init_represents [of 1000000] by (auto simp: kInvalidSlot_def)
  let ?app = "\<lparr>fe_recovery = recovery_init 1, fe_book = ob, fe_messages = 0\<rparr> :: counting_feed"
  have inv: "feed_inv 1000000 (length contents) (core ?app)"
    using ob(2) assms(2) by (auto simp: feed_inv_def core_def rec_load_def recovery_init_def)
  obtain st x where run: "replay_run ldbl opts replay_callback can_open path contents input ?app = (st, x)" by fastforce
  from counting_cb.replay_safe [OF run inv assms(3,4)] obtain os where "defined x" "represents 1000000 (fe_book (rp_app st)) os"
    by (auto simp: feed_inv_def core_def)
  with assms(1) ob(1) run show ?thesis
    by (cases x) (auto simp: replay_def counting_start_def hash_view)
qed

lemma parse_options_proper:
  assumes "\<And>s. defined (stod s)" and "\<forall>a \<in> set args. stod a \<noteq> Inr NaN"
  shows "case parse_options stod args of Inl e \<Rightarrow> \<not> is_undefined e | Inr opts \<Rightarrow> ro_speed opts \<noteq> NaN"
proof (cases args)
  case Nil
  then show ?thesis by (simp add: parse_options_def default_options_def)
next
  case (Cons a rest)
  have "\<not> is_undefined e" if "stod v = Inl e" for v e using assms(1) [of v] that by simp
  with assms(2) Cons show ?thesis
    by (cases rest) (auto simp: parse_options_def default_options_def Let_def rbind_Inr_iff rbind_Inl_iff split: sum.split)
qed

lemma run_replay_proper:
  assumes "platform_ok pf" and "\<forall>c. pf_file pf path = Some c \<longrightarrow> length c + 1 < 2 ^ 64" and "\<forall>a \<in> set args. pf_stod pf a \<noteq> Inr NaN"
  shows "proper (run_replay pf path (parse_options (pf_stod pf) args))"
proof -
  have ok: "ldbl_ok (pf_ldbl pf)" "\<And>s. defined (pf_stod pf s)" using assms(1) by (auto simp: platform_ok_def)
  let ?c = "case pf_file pf path of None \<Rightarrow> [] | Some c \<Rightarrow> c"
  have c: "length ?c + 1 < 2 ^ 64" using assms(2) by (auto split: option.splits)
  note o = parse_options_proper [of "pf_stod pf" args, OF ok(2) assms(3)]
  show ?thesis
  proof (cases "parse_options (pf_stod pf) args")
    case (Inl e)
    with o show ?thesis by (auto simp: run_replay_def intro: fatal_proper)
  next
    case (Inr opts)
    then have "ro_speed opts \<noteq> NaN" using o by simp
    from replay_proper [OF refl c ok(1) this, of "pf_file pf path \<noteq> None" path "pf_input pf"] Inr show ?thesis
      by (auto simp: run_replay_def with_hash_def intro: fatal_proper split: sum.splits prod.splits)
  qed
qed

lemma receiver_init_defined: "defined (snd (receiver_init sys ip fds))"
  by (auto simp: receiver_init_def receiver_setup_def sys_fail_def Let_def split: prod.splits sum.splits option.splits if_splits)

lemma rerequest_defined: "defined (rerequest pf host port b)"
  by (simp add: rerequest_def send_unicast_def)

lemma defined_Inl: "m = Inl e \<Longrightarrow> defined m \<Longrightarrow> \<not> is_undefined e"
  by simp

lemma writer_init_defined: "defined (writer_init disk can_open path)"
  by (simp add: writer_init_def)

lemma listen_proper:
  assumes "listen stoi sys fds disk can_open send args env = r" and "\<And>s. defined (stoi s)" and "\<And>h p b. defined (send h p b)"
    and "length (concat (map fst env)) + 1 < 2 ^ 64"
  shows "case r of Inl e \<Rightarrow> \<not> is_undefined e | Inr None \<Rightarrow> True
    | Inr (Some (st, x)) \<Rightarrow> defined x \<and> (\<exists>os. represents 2000000 (fe_book st) os) \<and>
        (\<forall>h. x = Inr (Session_Ended h) \<longrightarrow> h = state_hash (fe_book st))"
proof (cases r)
  case (Inl e)
  obtain ob where ob: "order_book_init 2000000 = Inr ob"
    using init_represents [of 2000000] by (auto simp: kInvalidSlot_def)
  have "\<exists>s. stoi s = Inl e \<or> (\<exists>y z w. snd (receiver_init y z w) = Inl e) \<or> (\<exists>y z w. writer_init y z w = Inl e)"
    using assms(1) Inl ob by (auto simp: listen_def res_simps split: if_splits)
  then have "\<not> is_undefined e"
    using defined_Inl [OF _ assms(2)] defined_Inl [OF _ receiver_init_defined] defined_Inl [OF _ writer_init_defined] by blast
  with Inl show ?thesis by simp
next
  case (Inr y)
  show ?thesis
  proof (cases y)
    case (Some z)
    obtain ob where ob: "order_book_init 2000000 = Inr ob" "represents 2000000 ob []"
      using init_represents [of 2000000] by (auto simp: kInvalidSlot_def)
    obtain h p c where z: "listen_loop disk (send h p)
        \<lparr>fe_recovery = recovery_init 1, fe_book = ob, fe_sent = [], fe_rejected = [], fe_capture = c\<rparr> env = z"
      using assms(1) Inr Some ob(1) by (auto simp: listen_def res_simps split: if_splits)
    let ?st = "\<lparr>fe_recovery = recovery_init 1, fe_book = ob, fe_sent = [], fe_rejected = [], fe_capture = c\<rparr>"
    have "feed_inv 2000000 (length (concat (map fst env))) (core ?st)"
      using ob(2) assms(4) by (auto simp: feed_inv_def core_def rec_load_def recovery_init_def)
    from listen_loop_safe [of "send h p" disk ?st env "fst z" "snd z", OF assms(3) _ this] z Inr Some show ?thesis
      by (cases z) auto
  qed (use Inr in simp)
qed

lemma run_listen_proper:
  assumes "platform_ok pf" and "length (concat (map fst (pf_received pf))) + 1 < 2 ^ 64"
  shows "proper (run_listen pf args)"
proof -
  have "\<And>s. defined (pf_stoi pf s)" using assms(1) by (simp add: platform_ok_def)
  note l = listen_proper [OF refl, of "pf_stoi pf" "rerequest pf" "pf_received pf" "pf_sys pf" "{}" "pf_disk pf"
      "4 < length args \<and> pf_writable pf (args ! 4)" args, OF this rerequest_defined assms(2)]
  obtain r where r: "listen (pf_stoi pf) (pf_sys pf) {} (pf_disk pf) (4 < length args \<and> pf_writable pf (args ! 4)) (rerequest pf) args (pf_received pf) = r"
    by simp
  show ?thesis
    using l unfolding run_listen_def r
    by (auto intro: fatal_proper with_hash_proper split: sum.splits option.splits prod.splits listen_result.splits)
qed

section \<open>Properties\<close>

text \<open>
  C4: The program does not crash. Whatever the arguments, the capture file and the datagrams received, as long as
  they stay below the number of bytes that could exhaust 64-bit sequence numbers and no argument is
  the number NaN, \<open>main\<close> has no undefined behaviour and no endless loop: it exits with code 0, 1 or 2,
  or waits for the next datagram.
\<close>

theorem main_never_crashes:
  assumes "platform_ok pf" and "\<forall>path c. pf_file pf path = Some c \<longrightarrow> length c + 1 < 2 ^ 64"
    and "length (concat (map fst (pf_received pf))) + 1 < 2 ^ 64" and "\<forall>a \<in> set args. pf_stod pf a \<noteq> Inr NaN"
  shows "snd (main pf args) = Waits \<or> (\<exists>c \<in> {0, 1, 2}. snd (main pf args) = Exit c)"
proof (cases args)
  case Nil
  then have "main pf args = run_demo" by (simp add: main_def main_command_def)
  then show ?thesis using run_demo_result by (metis insertI1 snd_conv)
next
  case (Cons cmd rest)
  have "proper (run_replay pf path (parse_options (pf_stod pf) opts))" if "rest = path # opts" for path opts
    using run_replay_proper [OF assms(1)] assms(2,4) Cons that by auto
  moreover have "proper run_demo" using run_demo_result by (metis proper_Exit(1))
  ultimately have "proper (main pf args)"
    using run_listen_proper [OF assms(1,3)] run_sample_proper Cons
    by (auto simp: main_def main_command_def split: list.splits)
  then show ?thesis by (simp add: proper_def)
qed

text \<open>The hash of that book, value by value in the order in which it is mixed.\<close>

lemma sample_symbol: "from_string (bytes_of ''AAPL'') = Symbol [65, 65, 80, 76, 32, 32, 32, 32]"
  by (simp add: from_string_def pad_bytes_def eval_nat_numeral)

lemma demo_hash: "spec_hash demo_orders = 0xb6cac6573c4522b7"
proof -
  have "spec_hash demo_orders = foldl hash_mix 0xcbf29ce484222325
      [1, 65, 65, 80, 76, 32, 32, 32, 32, 0, 2, 2000000, 75, 10, 75, 0xFFFFFFFF, 1999000, 200, 11, 200, 0xFFFFFFFF, 1, 0]"
    unfolding sample_order_def sample_symbol
    by (simp add: spec_hash_def spec_hash_side_def spec_hash_level_def live_symbols_def side_prices_def side_orders_def at_level_def
        order_key_def hash_symbol_def hash_orders_def shares_of_def kInvalidSlot_def)
  then show ?thesis by (simp add: hash_mix_def)
qed

text \<open>A machine on which files can be written, and a capture that is not one.\<close>

definition sample_platform :: platform where
  "sample_platform =
     \<lparr>pf_stod = (\<lambda>_. Inl (InvalidArgument ''stod'')), pf_stoi = (\<lambda>_. Inr 5000), pf_ldbl = ldbl_exact,
      pf_file = [''c'' \<mapsto> [1, 2, 3]], pf_writable = (\<lambda>_. True), pf_disk = sample_disk, pf_input = [],
      pf_sys = (\<lambda>_ _. sample_sys), pf_pton = (\<lambda>_. 1), pf_sendto = (\<lambda>_ _ b. int (length b)), pf_strerror = ''error'',
      pf_received = [([7, 7], False, 0)]\<rparr>"

lemma sample_platform_ok: "platform_ok sample_platform"
  by (simp add: platform_ok_def sample_platform_def ldbl_exact_ok(1))

theorem main_never_crashes_witness:
  "(snd (main sample_platform [''replay'', ''c'']) = Waits \<or> (\<exists>c \<in> {0, 1, 2}. snd (main sample_platform [''replay'', ''c'']) = Exit c)) \<and>
   (snd (main sample_platform [''listen'', ''g'', ''1'', ''h'', ''2'']) = Waits \<or>
     (\<exists>c \<in> {0, 1, 2}. snd (main sample_platform [''listen'', ''g'', ''1'', ''h'', ''2'']) = Exit c))"
proof -
  have "\<forall>path c. pf_file sample_platform path = Some c \<longrightarrow> length c + 1 < 2 ^ 64"
    "length (concat (map fst (pf_received sample_platform))) + 1 < 2 ^ 64" "pf_stod sample_platform a \<noteq> Inr NaN" for a
    by (auto simp: sample_platform_def)
  from main_never_crashes [OF sample_platform_ok this(1,2)] this(3) show ?thesis by blast
qed

text \<open>
  C10: The session of the manual. \<open>make-sample-capture\<close> writes a file and exits with 0; \<open>replay\<close> of that file at
  full speed, on any machine, exits with 0 and reports three packets, three messages, two live
  orders and the hash that \<open>demo\<close> prints, which is the one the audit of the repository recorded.
\<close>

theorem sample_session_replays:
  assumes "\<forall>b. dk_takes (pf_disk pf) b" and "pf_writable pf path"
  shows "\<exists>contents log. main pf [''make-sample-capture'', path] = (Sample_Report path (Some contents), Exit 0) \<and>
    (\<forall>pf'. pf_file pf' path = Some contents \<longrightarrow>
       main pf' [''replay'', path, ''--speed'', ''max''] = (Replay_Report 3 3 2 0xb6cac6573c4522b7, Exit 0)) \<and>
    main pf [''demo''] = (Demo_Report log 2 (Some 2000000) 0xb6cac6573c4522b7, Exit 0)"
proof -
  let ?c = "magic @ concat (map record_bytes sample_records)"
  have "main pf [''make-sample-capture'', path] = (Sample_Report path (Some ?c), Exit 0)"
    using assms sample_written [OF assms(1), of path] by (auto simp: main_def main_command_def run_sample_def)
  moreover have replay: "replay (pf_ldbl pf') True path ?c (pf_input pf') default_options = Inr (3, 3, 2, Some (Inr (spec_hash demo_orders)))" for pf'
    using replay_stream [OF _ sample_carries sample_decodable sample_records_ok(3,1,2), of "pf_ldbl pf'" path "pf_input pf'"]
    by (simp add: sample_book sample_datagrams_def)
  have "main pf' [''replay'', path, ''--speed'', ''max''] = (Replay_Report 3 3 2 (spec_hash demo_orders), Exit 0)"
    if "pf_file pf' path = Some ?c" for pf'
  proof -
    have "main pf' [''replay'', path, ''--speed'', ''max''] = run_replay pf' path (Inr default_options)"
      by (simp add: main_def main_command_def parse_options_def)
    then show ?thesis
      using that unfolding run_replay_def sum.case by (simp only: option.simps replay not_False_eq_True sum.case prod.case with_hash_def)
  qed
  moreover obtain log where "main pf [''demo''] = (Demo_Report log 2 (Some 2000000) (spec_hash demo_orders), Exit 0)"
    using run_demo_result by (auto simp: main_def main_command_def)
  ultimately show ?thesis unfolding demo_hash by blast
qed

theorem sample_session_replays_witness:
  "\<exists>contents. main sample_platform [''make-sample-capture'', ''c''] = (Sample_Report ''c'' (Some contents), Exit 0) \<and>
    main (sample_platform\<lparr>pf_file := [''c'' \<mapsto> contents]\<rparr>) [''replay'', ''c'', ''--speed'', ''max''] = (Replay_Report 3 3 2 0xb6cac6573c4522b7, Exit 0)"
proof -
  have "\<forall>b. dk_takes (pf_disk sample_platform) b" "pf_writable sample_platform ''c''" by (simp_all add: sample_platform_def)
  from sample_session_replays [OF this] obtain contents where
    "main sample_platform [''make-sample-capture'', ''c''] = (Sample_Report ''c'' (Some contents), Exit 0)"
    "\<forall>pf'. pf_file pf' ''c'' = Some contents \<longrightarrow> main pf' [''replay'', ''c'', ''--speed'', ''max''] = (Replay_Report 3 3 2 0xb6cac6573c4522b7, Exit 0)"
    by blast
  moreover from this(2) have "main (sample_platform\<lparr>pf_file := [''c'' \<mapsto> contents]\<rparr>) [''replay'', ''c'', ''--speed'', ''max''] = (Replay_Report 3 3 2 0xb6cac6573c4522b7, Exit 0)"
    by simp
  ultimately show ?thesis by blast
qed

end
