(* ===== verification/Display.thy ===== *)
theory Display
  imports Program
begin

text \<open>
  What the commands of \<^verbatim>\<open>src/main.cpp\<close> print, as text: numbers in decimal and hexadecimal, prices with four
  decimal places by \<open>to_decimal_price\<close> of \<^verbatim>\<open>types.hpp\<close>, and the lines around them. The quotient of two
  \<open>double\<close> numbers is the parameter \<open>fdiv\<close>. Lines a command printed before an exception, the prompts of a
  step replay, and the layout of the elapsed time, which is a parameter, are left out.
\<close>

section \<open>Numbers\<close>

definition dec :: "'a :: len word \<Rightarrow> string" where
  "dec w = to_decimal (unat w)"

definition hex_digit :: "nat \<Rightarrow> char" where
  "hex_digit d = (if d < 10 then char_of (48 + d) else char_of (87 + d))"

fun to_hex :: "nat \<Rightarrow> string" where
  "to_hex n = (if n < 16 then [hex_digit n] else to_hex (n div 16) @ [hex_digit (n mod 16)])"

declare to_hex.simps [simp del]

definition to_decimal_price :: "(real \<Rightarrow> real \<Rightarrow> real) \<Rightarrow> price \<Rightarrow> real" where
  "to_decimal_price fdiv raw_price = fdiv (real (unat raw_price)) 10000"

text \<open>
  \<open>std::fixed\<close> with precision 4, for a number that is not negative: the decimal nearest to its exact value, the even one
  of two.
\<close>

definition round_half_even :: "real \<Rightarrow> int" where
  "round_half_even x =
     (let n = \<lfloor>x\<rfloor>; r = x - of_int n in
      if r < 1 / 2 then n else if r > 1 / 2 then n + 1 else if even n then n else n + 1)"

definition four_digits :: "nat \<Rightarrow> string" where
  "four_digits k = map (\<lambda>d. char_of (48 + k div d mod 10)) [1000, 100, 10, 1]"

definition fixed_4 :: "real \<Rightarrow> string" where
  "fixed_4 x = (let n = nat (round_half_even (x * 10000)) in to_decimal (n div 10000) @ ''.'' @ four_digits (n mod 10000))"

section \<open>Lines\<close>

text \<open>\<open>operator<<\<close> of a symbol.\<close>

definition symbol_text :: "symbol \<Rightarrow> string" where
  "symbol_text s = map (\<lambda>c. char_of (unat c)) (symbol_str s)"

fun log_text :: "log_line \<Rightarrow> string" where
  "log_text (Gap_Line first count) = ''GAP: request seq '' @ dec first @ '' count '' @ dec count @ nl"
| "log_text (Message_Line seq name fate) =
     ''seq '' @ dec seq @ '' '' @ name @
     (case fate of None \<Rightarrow> [] | Some applied \<Rightarrow> if applied then '' applied'' else '' rejected'') @ nl"

definition demo_text :: "(real \<Rightarrow> real \<Rightarrow> real) \<Rightarrow> log_line list \<Rightarrow> nat \<Rightarrow> price option \<Rightarrow> u64 \<Rightarrow> string" where
  "demo_text fdiv logged live bid h =
     ''Exchange Feed Engine demo: gap recovery + generated ITCH decoding + arena book'' @ nl @ nl @
     concat (map log_text logged) @
     nl @ ''final live orders: '' @ to_decimal live @ nl @
     (case bid of None \<Rightarrow> [] | Some b \<Rightarrow> ''best bid: $'' @ fixed_4 (to_decimal_price fdiv b) @ nl) @
     ''state hash: 0x'' @ to_hex (unat h) @ nl"

definition replay_text :: "string \<Rightarrow> u64 \<Rightarrow> u64 \<Rightarrow> nat \<Rightarrow> u64 \<Rightarrow> string" where
  "replay_text elapsed packets messages live h =
     ''replayed '' @ dec packets @ '' packets / '' @ dec messages @ '' messages in '' @ elapsed @ '' s'' @ nl @
     ''live orders='' @ to_decimal live @ '' state_hash=0x'' @ to_hex (unat h) @ nl"

fun exn_what :: "exn \<Rightarrow> string" where
  "exn_what (DecodeError s) = s"
| "exn_what (RuntimeError s) = s"
| "exn_what (InvalidArgument s) = s"
| "exn_what (OverflowError s) = s"
| "exn_what (OutOfRange s) = s"
| "exn_what BadAlloc = ''std::bad_alloc''"
| "exn_what (Undefined s) = s"

text \<open>The messages of \<open>main\<close> and \<open>listen\<close> for arguments that are missing or unknown.\<close>

definition usage_text :: "string list \<Rightarrow> string" where
  "usage_text args =
     (case args of
        [] \<Rightarrow> []
      | cmd # _ \<Rightarrow>
          if cmd = ''replay'' then ''usage: feed_engine replay <capture.efc> [--speed max|N | --realtime | --step]'' @ nl
          else if cmd = ''make-sample-capture'' then ''usage: feed_engine make-sample-capture <capture.efc>'' @ nl
          else if cmd = ''listen'' then ''usage: feed_engine listen <group> <port> <rerequest-host> <rerequest-port> [capture.efc]'' @ nl
          else ''unknown command; run feed_engine --help'' @ nl)"

text \<open>
  What a report puts on standard output and on standard error. This is all a run prints, except that a step replay has
  prompted before, and that a run that ends with an exception may have printed lines of its own before.
\<close>

fun report_text :: "(real \<Rightarrow> real \<Rightarrow> real) \<Rightarrow> string \<Rightarrow> string list \<Rightarrow> report \<Rightarrow> string \<times> string" where
  "report_text fdiv elapsed args (Demo_Report logged live bid h) = (demo_text fdiv logged live bid h, [])"
| "report_text fdiv elapsed args (Help_Report ls) = (concat (map (\<lambda>l. l @ nl) ls), [])"
| "report_text fdiv elapsed args (Replay_Report packets messages live h) = (replay_text elapsed packets messages live h, [])"
| "report_text fdiv elapsed args (Sample_Report path contents) = (''wrote sample capture: '' @ path @ nl, [])"
| "report_text fdiv elapsed args (Listen_Report rejected h) =
     (case h of None \<Rightarrow> [] | Some x \<Rightarrow> ''end of session; state_hash=0x'' @ to_hex (unat x) @ nl,
      concat (map (\<lambda>n. ''book rejected seq '' @ dec n @ nl) rejected))"
| "report_text fdiv elapsed args Usage_Report = ([], usage_text args)"
| "report_text fdiv elapsed args (Fatal_Report e) = ([], ''fatal: '' @ exn_what e @ nl)"
| "report_text fdiv elapsed args No_Report = ([], [])"

definition main_prints :: "(real \<Rightarrow> real \<Rightarrow> real) \<Rightarrow> string \<Rightarrow> platform \<Rightarrow> string list \<Rightarrow> string \<times> string" where
  "main_prints fdiv elapsed pf args = report_text fdiv elapsed args (fst (main pf args))"

section \<open>Prices\<close>

text \<open>Division rounded to nearest: the relative error is at most half a unit in the last of 53 places.\<close>

definition fdiv_ok :: "(real \<Rightarrow> real \<Rightarrow> real) \<Rightarrow> bool" where
  "fdiv_ok fdiv \<longleftrightarrow>
     (\<forall>a b :: nat. a < 2 ^ 53 \<and> 0 < b \<and> b < 2 ^ 53 \<longrightarrow> \<bar>fdiv (real a) (real b) - real a / real b\<bar> \<le> real a / real b / 2 ^ 53)"

lemma round_half_even_near: "\<bar>x - of_int n\<bar> < 1 / 2 \<Longrightarrow> round_half_even x = n"
proof -
  assume a: "\<bar>x - of_int n\<bar> < 1 / 2"
  then have "\<lfloor>x\<rfloor> = n \<or> \<lfloor>x\<rfloor> = n - 1" by linarith
  with a show ?thesis by (auto simp: round_half_even_def Let_def)
qed

lemma price_rounds_back:
  assumes "fdiv_ok fdiv"
  shows "round_half_even (to_decimal_price fdiv p * 10000) = int (unat p)"
proof (rule round_half_even_near)
  let ?p = "real (unat p)"
  have u: "unat p < 2 ^ 32" using unsigned_less [of p] by simp
  then have p: "?p < 2 ^ 32" by (simp del: of_nat_unat)
  have "\<bar>fdiv ?p (real 10000) - ?p / real 10000\<bar> \<le> ?p / real 10000 / 2 ^ 53"
    using assms [unfolded fdiv_ok_def, rule_format, of "unat p" 10000] u by simp
  then have "\<bar>to_decimal_price fdiv p - ?p / 10000\<bar> \<le> ?p / 10000 / 2 ^ 53" by (simp add: to_decimal_price_def)
  then have "\<bar>to_decimal_price fdiv p * 10000 - ?p\<bar> \<le> ?p / 2 ^ 53" by (simp add: abs_if field_simps split: if_splits)
  with p show "\<bar>to_decimal_price fdiv p * 10000 - of_int (int (unat p))\<bar> < 1 / 2" by simp
qed

lemma digits_value_append: "digits_value (s @ t) = digits_value s * 10 ^ length t + digits_value t"
proof (induction t rule: rev_induct)
  case (snoc c t)
  then show ?case by (simp add: digits_value_snoc algebra_simps flip: append_assoc)
qed (simp add: digits_value_def)

lemma four_digits_value: "k < 10000 \<Longrightarrow> digits_value (four_digits k) = int k"
proof -
  assume k: "k < 10000"
  have d: "char_code (char_of (48 + m mod 10)) = 48 + m mod 10" for m :: nat by (rule char_code_digit) simp
  have "digits_value (four_digits k) = int (k div 1000 mod 10 * 1000 + k div 100 mod 10 * 100 + k div 10 mod 10 * 10 + k mod 10)"
    using d [of "k div 1000"] d [of "k div 100"] d [of "k div 10"] d [of k]
    by (simp add: digits_value_def four_digits_def del: of_nat_add of_nat_mult) simp
  also have "k div 1000 mod 10 * 1000 + k div 100 mod 10 * 100 + k div 10 mod 10 * 10 + k mod 10 = k"
  proof -
    have e: "k div 100 = k div 10 div 10" "k div 1000 = k div 10 div 10 div 10" by (simp_all add: div_mult2_eq [symmetric])
    have "k div 10 div 10 div 10 < 10" using k by (simp add: less_mult_imp_div_less)
    then have "k div 10 div 10 div 10 mod 10 = k div 10 div 10 div 10" by (rule mod_less)
    then show ?thesis
      using div_mult_mod_eq [of k 10] div_mult_mod_eq [of "k div 10" 10] div_mult_mod_eq [of "k div 10 div 10" 10]
      unfolding e by linarith
  qed
  finally show ?thesis .
qed

text \<open>
  Prices are shown exactly. However the quotient is rounded, the text printed for a price is its amount in
  ten-thousandths with the decimal point before the last four digits, so the price can be read back.
\<close>

theorem price_shown_exactly:
  assumes "fdiv_ok fdiv"
  shows "fixed_4 (to_decimal_price fdiv p) = to_decimal (unat p div 10000) @ ''.'' @ four_digits (unat p mod 10000) \<and>
    digits_value (to_decimal (unat p div 10000) @ four_digits (unat p mod 10000)) = int (unat p)"
proof
  show "fixed_4 (to_decimal_price fdiv p) = to_decimal (unat p div 10000) @ ''.'' @ four_digits (unat p mod 10000)"
    by (simp add: fixed_4_def price_rounds_back [OF assms] Let_def del: of_nat_unat)
  have "length (four_digits k) = 4" for k by (simp add: four_digits_def)
  then have "digits_value (to_decimal (unat p div 10000) @ four_digits (unat p mod 10000)) =
      int (unat p div 10000) * 10000 + int (unat p mod 10000)"
    by (simp add: digits_value_append digits_value_decimal four_digits_value)
  also have "\<dots> = int (unat p div 10000 * 10000 + unat p mod 10000)" by (simp only: of_nat_add of_nat_mult of_nat_numeral)
  finally show "digits_value (to_decimal (unat p div 10000) @ four_digits (unat p mod 10000)) = int (unat p)"
    unfolding div_mult_mod_eq .
qed

lemma fdiv_exact_ok: "fdiv_ok (/)"
  by (simp add: fdiv_ok_def)

theorem price_shown_exactly_witness: "fixed_4 (to_decimal_price (/) 2000000) = ''200.0000''"
proof -
  have "to_decimal 200 = ''200''" "four_digits 0 = ''0000''" by code_simp+
  with price_shown_exactly [OF fdiv_exact_ok, of 2000000] show ?thesis by simp
qed

section \<open>The demonstration\<close>

lemma hex_digits:
  "hex_digit 0 = CHR ''0''" "hex_digit (Suc 0) = CHR ''1''" "hex_digit 2 = CHR ''2''" "hex_digit 3 = CHR ''3''" 
  "hex_digit 4 = CHR ''4''" "hex_digit 5 = CHR ''5''" "hex_digit 6 = CHR ''6''" "hex_digit 7 = CHR ''7''" 
  "hex_digit 8 = CHR ''8''" "hex_digit 9 = CHR ''9''" "hex_digit 10 = CHR ''a''" "hex_digit 11 = CHR ''b''" 
  "hex_digit 12 = CHR ''c''" "hex_digit 13 = CHR ''d''" "hex_digit 14 = CHR ''e''" "hex_digit 15 = CHR ''f''"
  by code_simp+

lemma sample_name: "message_name (sample_stream k) = Inr (if k = 1 \<or> k = 2 then ''AddOrder'' else ''OrderCancel'')"
proof -
  have "gen_message_name itch50 (ch CHR ''A'') = ''AddOrder''" "gen_message_name itch50 (ch CHR ''X'') = ''OrderCancel''"
    by code_simp+
  then show ?thesis by (simp add: message_name_def sample_stream_def sample_event_def encode_head_def)
qed

abbreviation sample_packet :: "seqno \<Rightarrow> mold_downstream_packet" where
  "sample_packet k \<equiv> data_packet sample_session k [sample_stream k]"

abbreviation sample_message :: "seqno \<Rightarrow> mold_message" where
  "sample_message k \<equiv> \<lparr>msg_sequence = k, msg_payload = sample_stream k\<rparr>"

lemmas ingest_eval = ingest_def data_packet_def numbered_Cons try_emplace_def empty_result_def maybe_request_def Let_def
  drain_def drain_loop.simps map_erase_def

text \<open>The engine on the three packets: a message released, a gap noticed, the gap filled and two messages released.\<close>

lemma sample_ingest:
  "ingest (recovery_init 1) (sample_packet 1) =
     (\<lparr>expected = 2, pending = [], rec_session = Some sample_session, last_requested_first = 0, last_requested_last = 0\<rparr>,
      Inr (empty_result\<lparr>ready := [sample_message 1]\<rparr>))"
  "ingest \<lparr>expected = 2, pending = [], rec_session = Some sample_session, last_requested_first = 0, last_requested_last = 0\<rparr> (sample_packet 3) =
     (\<lparr>expected = 2, pending = [(3, sample_stream 3)], rec_session = Some sample_session, last_requested_first = 2, last_requested_last = 2\<rparr>,
      Inr (empty_result\<lparr>request := Some \<lparr>gap_first = 2, gap_count = 1\<rparr>\<rparr>))"
  "ingest \<lparr>expected = 2, pending = [(3, sample_stream 3)], rec_session = Some sample_session, last_requested_first = 2, last_requested_last = 2\<rparr>
       (sample_packet 2) =
     (\<lparr>expected = 4, pending = [], rec_session = Some sample_session, last_requested_first = 0, last_requested_last = 0\<rparr>,
      Inr (empty_result\<lparr>ready := [sample_message 2, sample_message 3]\<rparr>))"
  by (simp_all add: ingest_eval recovery_init_def)

lemma sample_applied:
  assumes "represents 1024 ob []"
  obtains ob1 ob2 ob3 where "book_apply ob (sample_event 1) = Inr (True, ob1)" "book_apply ob1 (sample_event 2) = Inr (True, ob2)"
    "book_apply ob2 (sample_event 3) = Inr (True, ob3)"
proof -
  let ?o = "sample_order 10 100 2000000" and ?o' = "sample_order 11 200 1999000"
  have e: "spec_apply 1024 [] (sample_event 1) = (True, [?o])" "spec_apply 1024 [?o] (sample_event 2) = (True, [?o, ?o'])"
    "fst (spec_apply 1024 [?o, ?o'] (sample_event 3))"
    by (simp_all add: sample_event_def sample_order_def spec_eval)
  obtain ob1 where ob1: "book_apply ob (sample_event 1) = Inr (True, ob1)" "represents 1024 ob1 [?o]"
    using apply_sim [OF assms, of "sample_event 1"] by (auto simp: e(1))
  obtain ob2 where ob2: "book_apply ob1 (sample_event 2) = Inr (True, ob2)" "represents 1024 ob2 [?o, ?o']"
    using apply_sim [OF ob1(2), of "sample_event 2"] by (auto simp: e(2))
  obtain ob3 where "book_apply ob2 (sample_event 3) = Inr (True, ob3)"
    using apply_sim [OF ob2(2), of "sample_event 3"] e(3) by auto
  with ob1 ob2 that show thesis by blast
qed

lemma demo_log:
  assumes "demo = Inr (st, Inr ())"
  shows "fe_log st = [Message_Line 1 ''AddOrder'' (Some True), Gap_Line 2 1, Message_Line 2 ''AddOrder'' (Some True),
    Message_Line 3 ''OrderCancel'' (Some True)]"
proof -
  obtain ob where ob: "order_book_init 1024 = Inr ob" "represents 1024 ob []"
    using init_represents [of 1024] by (auto simp: kInvalidSlot_def)
  obtain ob1 ob2 ob3 where a: "book_apply ob (sample_event 1) = Inr (True, ob1)" "book_apply ob1 (sample_event 2) = Inr (True, ob2)"
    "book_apply ob2 (sample_event 3) = Inr (True, ob3)"
    using sample_applied [OF ob(2)] .
  have p: "parse_downstream (wire_packet (sample_packet k)) = Inr (sample_packet k)" if "k \<in> {1, 2, 3}" for k
    using sample_carries that by (auto simp: carries_def sample_datagrams_def intro!: parse_downstream_wire)
  have "process_packet \<lparr>fe_recovery = recovery_init 1, fe_book = ob, fe_log = []\<rparr> (wire_packet (sample_packet 1)) =
      (\<lparr>fe_recovery = fst (ingest (recovery_init 1) (sample_packet 1)), fe_book = ob1, fe_log = [Message_Line 1 ''AddOrder'' (Some True)]\<rparr>, Inr ())"
    by (simp add: process_packet_def p sample_ingest empty_result_def sample_decodes sample_name a)
  moreover have "process_packet \<lparr>fe_recovery = fst (ingest (recovery_init 1) (sample_packet 1)), fe_book = ob1, fe_log = ls\<rparr> (wire_packet (sample_packet 3)) =
      (\<lparr>fe_recovery = \<lparr>expected = 2, pending = [(3, sample_stream 3)], rec_session = Some sample_session, last_requested_first = 2, last_requested_last = 2\<rparr>,
        fe_book = ob1, fe_log = ls @ [Gap_Line 2 1]\<rparr>, Inr ())" for ls
    by (simp add: process_packet_def p sample_ingest empty_result_def)
  moreover have "process_packet \<lparr>fe_recovery = \<lparr>expected = 2, pending = [(3, sample_stream 3)], rec_session = Some sample_session,
        last_requested_first = 2, last_requested_last = 2\<rparr>, fe_book = ob1, fe_log = ls\<rparr> (wire_packet (sample_packet 2)) =
      (\<lparr>fe_recovery = \<lparr>expected = 4, pending = [], rec_session = Some sample_session, last_requested_first = 0, last_requested_last = 0\<rparr>,
        fe_book = ob3, fe_log = ls @ [Message_Line 2 ''AddOrder'' (Some True), Message_Line 3 ''OrderCancel'' (Some True)]\<rparr>, Inr ())" for ls
    by (simp add: process_packet_def p sample_ingest empty_result_def sample_decodes sample_name a)
  ultimately have "demo = Inr (\<lparr>fe_recovery = \<lparr>expected = 4, pending = [], rec_session = Some sample_session, last_requested_first = 0, last_requested_last = 0\<rparr>,
      fe_book = ob3, fe_log = [Message_Line 1 ''AddOrder'' (Some True), Gap_Line 2 1, Message_Line 2 ''AddOrder'' (Some True),
      Message_Line 3 ''OrderCancel'' (Some True)]\<rparr>, Inr ())"
    by (simp add: demo_def console_start_def ob(1) sample_packets_eq)
  then show ?thesis unfolding assms by simp
qed

text \<open>
  C11: The demonstration, to the letter. \<open>feed_engine demo\<close> exits with 0 and prints exactly these lines: the first
  message applied, the request for the missing one, both remaining messages applied in order, the two live orders,
  the best bid of 200 dollars with four decimal places whatever the rounding of the division, and the hash.
\<close>

theorem demo_prints:
  assumes "fdiv_ok fdiv"
  shows "snd (main pf [''demo'']) = Exit 0 \<and> main_prints fdiv elapsed pf [''demo''] =
    (''Exchange Feed Engine demo: gap recovery + generated ITCH decoding + arena book'' @ nl @ nl @
     ''seq 1 AddOrder applied'' @ nl @
     ''GAP: request seq 2 count 1'' @ nl @
     ''seq 2 AddOrder applied'' @ nl @
     ''seq 3 OrderCancel applied'' @ nl @ nl @
     ''final live orders: 2'' @ nl @
     ''best bid: $200.0000'' @ nl @
     ''state hash: 0xb6cac6573c4522b7'' @ nl, [])"
proof -
  obtain st where st: "demo = Inr (st, Inr ())" "run_demo = (Demo_Report (fe_log st) 2 (Some 2000000) (spec_hash demo_orders), Exit 0)"
    using run_demo_state by blast
  have m: "main pf [''demo''] = run_demo" by (simp add: main_def main_command_def)
  have n: "to_decimal (Suc 0) = ''1''" "to_decimal 2 = ''2''" "to_decimal 3 = ''3''" "to_decimal 200 = ''200''" "four_digits 0 = ''0000''"
    by code_simp+
  have h: "to_hex 0xb6cac6573c4522b7 = ''b6cac6573c4522b7''"
    by (simp add: to_hex.simps hex_digits)
  have "fixed_4 (to_decimal_price fdiv 2000000) = ''200.0000''"
    using price_shown_exactly [OF assms, of 2000000] by (simp add: n)
  then show ?thesis
    unfolding main_prints_def m st(2) demo_hash demo_log [OF st(1)]
    by (simp add: demo_text_def dec_def n h)
qed

theorem demo_prints_witness:
  "fdiv_ok (/) \<and> snd (main sample_platform [''demo'']) = Exit 0 \<and> length (fst (main_prints (/) [] sample_platform [''demo''])) = 252"
  using demo_prints [OF fdiv_exact_ok, of sample_platform "[]"] fdiv_exact_ok by (simp add: nl_def)

end
