(* ===== verification/Listener.thy ===== *)
theory Listener
  imports Feed_Commands
begin

text \<open>
  The \<open>listen\<close> command on its socket. \<open>Udp_Receiver\<close> has \<open>receive\<close> and \<open>request_stop\<close> as the steps of two
  threads, \<open>Feed_Engine\<close> has the loop as a function of what \<open>receive\<close> returned. Here both are put together: the
  thread of the loop calls \<open>receive\<close>, tests the flag, handles the datagram and calls \<open>receive\<close> again, while
  datagrams arrive and another thread may ask it to stop at any moment. The composition refines the
  function on the datagrams that arrived, and it ends when it is asked to.
\<close>

section \<open>The composed system\<close>

text \<open>The default argument of \<open>receive\<close>.\<close>

definition max_datagram :: nat where
  "max_datagram = 65536"

text \<open>\<open>li_end\<close> is how the loop was left, if it was; \<open>li_arrived\<close> records the datagrams that arrived, for the theorems.\<close>

record listener =
  li_udp :: udp_state
  li_feed :: listening_feed
  li_end :: "listen_result res option"
  li_arrived :: "u8 list list"

text \<open>
  Steps of the listening thread: inside \<open>receive\<close>, the first call of it, an iteration on what it returned after
  which it is called again or the loop is left, and an exception out of \<open>receive\<close>, which carries the
  text of \<open>errno\<close>. The flag is read once in an iteration, the clock once, at any value.
\<close>

inductive listener_step ::
  "disk \<Rightarrow> (u8 list \<Rightarrow> unit res) \<Rightarrow> listener \<Rightarrow> listener \<Rightarrow> bool" for disk send where
  li_receive: "li_end s = None \<Longrightarrow> recv_step max_datagram (li_udp s) u \<Longrightarrow> listener_step disk send s (s\<lparr>li_udp := u\<rparr>)"
| li_call: "li_end s = None \<Longrightarrow> recv_at (li_udp s) = Outside \<Longrightarrow>
    listener_step disk send s (s\<lparr>li_udp := (li_udp s)\<lparr>recv_at := Entered\<rparr>\<rparr>)"
| li_iterate: "li_end s = None \<Longrightarrow> recv_at (li_udp s) = Returned d \<Longrightarrow>
    listen_loop disk send (li_feed s) [(d, stop_requested (li_udp s), now)] = (feed, Inr Waiting) \<Longrightarrow>
    listener_step disk send s (s\<lparr>li_udp := (li_udp s)\<lparr>recv_at := Entered\<rparr>, li_feed := feed\<rparr>)"
| li_leave: "li_end s = None \<Longrightarrow> recv_at (li_udp s) = Returned d \<Longrightarrow>
    listen_loop disk send (li_feed s) [(d, stop_requested (li_udp s), now)] = (feed, r) \<Longrightarrow> r \<noteq> Inr Waiting \<Longrightarrow>
    listener_step disk send s (s\<lparr>li_feed := feed, li_end := Some r\<rparr>)"
| li_throw: "li_end s = None \<Longrightarrow> recv_at (li_udp s) = Thrown what \<Longrightarrow>
    listener_step disk send s (s\<lparr>li_end := Some (Inl (RuntimeError (what @ '': '' @ err)))\<rparr>)"

text \<open>What the system does to a blocked call of the listening thread.\<close>

inductive listener_fault :: "listener \<Rightarrow> listener \<Rightarrow> bool" where
  li_fault: "li_end s = None \<Longrightarrow> fault_step (li_udp s) u \<Longrightarrow> listener_fault s (s\<lparr>li_udp := u\<rparr>)"

text \<open>Steps of the stopping threads and of the network, which leave the listening thread where it is.\<close>

inductive around_step :: "listener \<Rightarrow> listener \<Rightarrow> bool" where
  around: "other_step (li_udp s) u \<Longrightarrow> recv_at u = recv_at (li_udp s) \<Longrightarrow>
    around_step s (s\<lparr>li_udp := u, li_arrived := li_arrived s @ drop (length (inbox (li_udp s))) (inbox u)\<rparr>)"

definition listener_start :: "listening_feed \<Rightarrow> listener" where
  "listener_start feed = \<lparr>li_udp = udp_start, li_feed = feed, li_end = None, li_arrived = []\<rparr>"

inductive listener_reachable ::
  "disk \<Rightarrow> (u8 list \<Rightarrow> unit res) \<Rightarrow> listening_feed \<Rightarrow> listener \<Rightarrow> bool" for disk send feed where
  li_start: "listener_reachable disk send feed (listener_start feed)"
| li_own: "listener_reachable disk send feed s \<Longrightarrow> listener_step disk send s t \<Longrightarrow> listener_reachable disk send feed t"
| li_faulty: "listener_reachable disk send feed s \<Longrightarrow> listener_fault s t \<Longrightarrow> listener_reachable disk send feed t"
| li_around: "listener_reachable disk send feed s \<Longrightarrow> around_step s t \<Longrightarrow> listener_reachable disk send feed t"

text \<open>A run with \<open>n\<close> steps the listening thread takes or suffers, and any number of the others in between.\<close>

inductive listener_run ::
  "disk \<Rightarrow> (u8 list \<Rightarrow> unit res) \<Rightarrow> nat \<Rightarrow> listener \<Rightarrow> listener \<Rightarrow> bool" for disk send where
  run_none: "listener_run disk send 0 s s"
| run_own: "listener_run disk send n s t \<Longrightarrow> listener_step disk send t u \<Longrightarrow> listener_run disk send (Suc n) s u"
| run_faulty: "listener_run disk send n s t \<Longrightarrow> listener_fault t u \<Longrightarrow> listener_run disk send (Suc n) s u"
| run_around: "listener_run disk send n s t \<Longrightarrow> around_step t u \<Longrightarrow> listener_run disk send n s u"

inductive_cases listener_stepE: "listener_step disk send s t"
inductive_cases listener_faultE: "listener_fault s t"
inductive_cases around_stepE: "around_step s t"
inductive_cases other_stepE: "other_step s t"

section \<open>What the loop has handled\<close>

lemma listen_loop_snoc:
  "listen_loop disk send st env = (st1, Inr Waiting) \<Longrightarrow> listen_loop disk send st (env @ env') = listen_loop disk send st1 env'"
proof (induction env arbitrary: st)
  case (Cons a env)
  obtain d stop now where a: "a = (d, stop, now)" by (cases a)
  from Cons.prems a show ?case
    by (auto split: if_splits sum.splits prod.splits intro: Cons.IH)
qed simp

lemma listen_loop_stopped: "listen_loop disk send st [([], True, now)] = (st, Inr Stopped)"
  by simp

text \<open>
  The step of \<open>receive\<close>, seen from outside: what it returns is the first datagram waiting, or it returns
  nothing because it was asked to stop; otherwise the datagrams wait on.
\<close>

lemma recv_step_inbox:
  assumes "recv_step n s t \<or> fault_step s t" and "udp_inv s"
  shows "stop_requested t = stop_requested s \<and>
    (inbox t = inbox s \<and> (\<forall>d. recv_at t = Returned d \<longrightarrow> d = [] \<and> stop_requested s) \<or>
     (\<exists>d. inbox s = d # inbox t \<and> recv_at t = Returned (take n d)))"
  using assms by (auto simp: udp_inv_def recv_step_iff fault_step_iff)

lemma around_keeps:
  assumes "around_step s t"
  shows "li_feed t = li_feed s" "li_end t = li_end s" "recv_at (li_udp t) = recv_at (li_udp s)"
    "stop_requested (li_udp s) \<Longrightarrow> stop_requested (li_udp t)"
    "stop_requested (li_udp s) \<Longrightarrow> stop_at (li_udp s) = Stop_Outside \<Longrightarrow> stop_at (li_udp t) = Stop_Outside"
    "\<exists>ds. inbox (li_udp t) = inbox (li_udp s) @ ds \<and> li_arrived t = li_arrived s @ ds"
  using assms by (auto elim!: around_stepE other_stepE)

lemma around_other: "around_step s t \<Longrightarrow> other_step (li_udp s) (li_udp t)"
  by (auto elim!: around_stepE)

lemma listener_udp: "listener_reachable disk send feed s \<Longrightarrow> udp_reachable max_datagram (li_udp s)"
proof (induction rule: listener_reachable.induct)
  case li_start
  show ?case by (simp add: listener_start_def reach_start)
next
  case (li_own s t)
  from li_own.hyps(2) li_own.IH show ?case
    by (cases rule: listener_step.cases) (auto intro: reach_recv reach_other call_receive)
next
  case (li_faulty s t)
  then show ?case by (auto elim!: listener_faultE intro: reach_fault)
next
  case (li_around s t)
  then show ?case using around_other by (blast intro: reach_other)
qed

text \<open>What \<open>receive\<close> has returned and the loop not yet handled: a datagram, or nothing because of a stop request.\<close>

fun in_hand :: "recv_pc \<Rightarrow> bool \<Rightarrow> u8 list list \<Rightarrow> bool" where
  "in_hand (Returned d) stop ds \<longleftrightarrow> ds = [d] \<or> ds = [] \<and> d = [] \<and> stop"
| "in_hand _ stop ds \<longleftrightarrow> ds = []"

lemma in_hand_mono: "in_hand pc stop ds \<Longrightarrow> (stop \<Longrightarrow> stop') \<Longrightarrow> in_hand pc stop' ds"
  by (cases pc) auto

text \<open>
  While the loop runs, the datagrams it has handled, the one in hand and those waiting are the datagrams
  that arrived, in this order, and its state is that of \<open>listen_loop\<close> on those handled.
\<close>

definition loop_inv :: "disk \<Rightarrow> (u8 list \<Rightarrow> unit res) \<Rightarrow> listening_feed \<Rightarrow> listener \<Rightarrow> bool" where
  "loop_inv disk send feed s \<longleftrightarrow> (\<exists>env ds.
     listen_loop disk send feed env = (li_feed s, Inr Waiting) \<and>
     in_hand (recv_at (li_udp s)) (stop_requested (li_udp s)) ds \<and>
     map (take max_datagram) (li_arrived s) = map fst env @ ds @ map (take max_datagram) (inbox (li_udp s)))"

lemma loop_invE:
  assumes "loop_inv disk send feed s"
  obtains env ds where "listen_loop disk send feed env = (li_feed s, Inr Waiting)"
    "in_hand (recv_at (li_udp s)) (stop_requested (li_udp s)) ds"
    "map (take max_datagram) (li_arrived s) = map fst env @ ds @ map (take max_datagram) (inbox (li_udp s))"
  using assms unfolding loop_inv_def by blast

lemma loop_invI:
  "listen_loop disk send feed env = (li_feed s, Inr Waiting) \<Longrightarrow>
   in_hand (recv_at (li_udp s)) (stop_requested (li_udp s)) ds \<Longrightarrow>
   map (take max_datagram) (li_arrived s) = map fst env @ ds @ map (take max_datagram) (inbox (li_udp s)) \<Longrightarrow>
   loop_inv disk send feed s"
  unfolding loop_inv_def by blast

text \<open>How it ends: \<open>listen_loop\<close> ends so on the datagrams handled, or a stop request or an exception of \<open>receive\<close> came.\<close>

definition loop_ended ::
  "disk \<Rightarrow> (u8 list \<Rightarrow> unit res) \<Rightarrow> listening_feed \<Rightarrow> listener \<Rightarrow> listen_result res \<Rightarrow> bool" where
  "loop_ended disk send feed s r \<longleftrightarrow> (\<exists>env rest.
     map (take max_datagram) (li_arrived s) = map fst env @ rest \<and>
     (listen_loop disk send feed env = (li_feed s, r) \<or>
      listen_loop disk send feed env = (li_feed s, Inr Waiting) \<and>
        (r = Inr Stopped \<and> stop_requested (li_udp s) \<or>
         (\<exists>what err. recv_at (li_udp s) = Thrown what \<and> r = Inl (RuntimeError (what @ '': '' @ err))))))"

lemma loop_inv_receive:
  assumes "loop_inv disk send feed s" and "recv_step max_datagram (li_udp s) u \<or> fault_step (li_udp s) u" and "udp_inv (li_udp s)"
  shows "loop_inv disk send feed (s\<lparr>li_udp := u\<rparr>)"
proof -
  obtain env ds where e: "listen_loop disk send feed env = (li_feed s, Inr Waiting)"
    "in_hand (recv_at (li_udp s)) (stop_requested (li_udp s)) ds"
    "map (take max_datagram) (li_arrived s) = map fst env @ ds @ map (take max_datagram) (inbox (li_udp s))"
    using assms(1) by (rule loop_invE)
  have "ds = []" using assms(2) e(2) by (auto simp: recv_step_iff fault_step_iff)
  note e = e(1) e(3) [unfolded this]
  have stop: "stop_requested u = stop_requested (li_udp s)" using recv_step_inbox [OF assms(2,3)] by simp
  from recv_step_inbox [OF assms(2,3)]
  consider (keep) "inbox u = inbox (li_udp s)" "\<forall>d. recv_at u = Returned d \<longrightarrow> d = [] \<and> stop_requested u"
    | (got) d where "inbox (li_udp s) = d # inbox u" "recv_at u = Returned (take max_datagram d)"
    by auto
  then show ?thesis
  proof cases
    case keep
    then show ?thesis using e by (intro loop_invI [of _ _ _ env _ "[]"]) (cases "recv_at u"; simp)+
  next
    case got
    then show ?thesis using e by (intro loop_invI [of _ _ _ env _ "[take max_datagram d]"]) simp_all
  qed
qed

lemma loop_inv_around:
  assumes "loop_inv disk send feed s" and "around_step s t"
  shows "loop_inv disk send feed t"
proof -
  obtain env ds where e: "listen_loop disk send feed env = (li_feed s, Inr Waiting)"
    "in_hand (recv_at (li_udp s)) (stop_requested (li_udp s)) ds"
    "map (take max_datagram) (li_arrived s) = map fst env @ ds @ map (take max_datagram) (inbox (li_udp s))"
    using assms(1) by (rule loop_invE)
  note k = around_keeps [OF assms(2)]
  obtain new where "inbox (li_udp t) = inbox (li_udp s) @ new" "li_arrived t = li_arrived s @ new" using k(6) by blast
  then have "map (take max_datagram) (li_arrived t) = map fst env @ ds @ map (take max_datagram) (inbox (li_udp t))"
    using e(3) by simp
  moreover have "in_hand (recv_at (li_udp t)) (stop_requested (li_udp t)) ds"
    using in_hand_mono [OF e(2)] k(3,4) by simp
  ultimately show ?thesis using e(1) k(1) by (intro loop_invI) simp_all
qed

lemma loop_ended_around:
  assumes "loop_ended disk send feed s r" and "around_step s t"
  shows "loop_ended disk send feed t r"
proof -
  note k = around_keeps [OF assms(2)]
  obtain new where "li_arrived t = li_arrived s @ new" using k(6) by blast
  then have "map (take max_datagram) (li_arrived t) = map (take max_datagram) (li_arrived s) @ map (take max_datagram) new" by simp
  with assms(1) k(1,3,4) show ?thesis unfolding loop_ended_def by (metis append_assoc)
qed

text \<open>An iteration handles the datagram in hand.\<close>

lemma iteration_env:
  assumes "loop_inv disk send feed s" and "recv_at (li_udp s) = Returned d"
    and "listen_loop disk send (li_feed s) [(d, stop_requested (li_udp s), now)] = (feed', r)"
  shows "r = Inr Stopped \<and> stop_requested (li_udp s) \<and> feed' = li_feed s \<and>
      (\<exists>env rest. map (take max_datagram) (li_arrived s) = map fst env @ rest \<and> listen_loop disk send feed env = (li_feed s, Inr Waiting)) \<or>
    (\<exists>env. map (take max_datagram) (li_arrived s) = map fst env @ map (take max_datagram) (inbox (li_udp s)) \<and>
      listen_loop disk send feed env = (feed', r))"
proof -
  obtain env ds where e: "listen_loop disk send feed env = (li_feed s, Inr Waiting)"
    "in_hand (recv_at (li_udp s)) (stop_requested (li_udp s)) ds"
    "map (take max_datagram) (li_arrived s) = map fst env @ ds @ map (take max_datagram) (inbox (li_udp s))"
    using assms(1) by (rule loop_invE)
  have "ds = [d] \<or> ds = [] \<and> d = [] \<and> stop_requested (li_udp s)" using e(2) assms(2) by simp
  then show ?thesis
  proof
    assume "ds = [d]"
    with e assms(3) listen_loop_snoc [OF e(1), of "[(d, stop_requested (li_udp s), now)]"]
    have "listen_loop disk send feed (env @ [(d, stop_requested (li_udp s), now)]) = (feed', r)"
      "map (take max_datagram) (li_arrived s) = map fst (env @ [(d, stop_requested (li_udp s), now)]) @ map (take max_datagram) (inbox (li_udp s))"
      by simp_all
    then show ?thesis by blast
  next
    assume "ds = [] \<and> d = [] \<and> stop_requested (li_udp s)"
    with e assms(3) show ?thesis by auto
  qed
qed

lemma listener_refines:
  assumes "listener_reachable disk send feed s"
  shows "case li_end s of None \<Rightarrow> loop_inv disk send feed s | Some r \<Rightarrow> loop_ended disk send feed s r"
  using assms
proof (induction rule: listener_reachable.induct)
  case li_start
  show ?case
    by (simp add: listener_start_def) (rule loop_invI [of _ _ _ "[]" _ "[]"], simp_all add: udp_start_def)
next
  case (li_own s t)
  have inv: "udp_inv (li_udp s)" using listener_udp [OF li_own.hyps(1)] by (rule reachable_inv)
  have "li_end s = None" using li_own.hyps(2) by (cases rule: listener_step.cases) simp_all
  then have IH: "loop_inv disk send feed s" using li_own.IH by simp
  from li_own.hyps(2) show ?case
  proof (cases rule: listener_step.cases)
    case (li_receive u)
    with IH loop_inv_receive [OF _ _ inv] show ?thesis by simp
  next
    case li_call
    from IH obtain env ds where "listen_loop disk send feed env = (li_feed s, Inr Waiting)" "in_hand (recv_at (li_udp s)) (stop_requested (li_udp s)) ds"
      "map (take max_datagram) (li_arrived s) = map fst env @ ds @ map (take max_datagram) (inbox (li_udp s))"
      by (rule loop_invE)
    with li_call show ?thesis by (simp add: loop_invI [of _ _ _ env _ "[]"])
  next
    case (li_iterate d now feed')
    from iteration_env [OF IH li_iterate(3,4)] obtain env
      where "map (take max_datagram) (li_arrived s) = map fst env @ map (take max_datagram) (inbox (li_udp s))"
        "listen_loop disk send feed env = (feed', Inr Waiting)" by auto
    with li_iterate show ?thesis by (simp add: loop_invI [of _ _ _ env _ "[]"])
  next
    case (li_leave d now feed' r)
    from iteration_env [OF IH li_leave(3,4)] have "loop_ended disk send feed t r"
      unfolding loop_ended_def li_leave(1) by auto
    then show ?thesis by (simp add: li_leave(1))
  next
    case (li_throw what err)
    from IH obtain env ds where "listen_loop disk send feed env = (li_feed s, Inr Waiting)"
      "map (take max_datagram) (li_arrived s) = map fst env @ ds @ map (take max_datagram) (inbox (li_udp s))"
      by (rule loop_invE)
    with li_throw show ?thesis unfolding loop_ended_def by auto
  qed
next
  case (li_faulty s t)
  have inv: "udp_inv (li_udp s)" using listener_udp [OF li_faulty.hyps(1)] by (rule reachable_inv)
  from li_faulty.hyps(2) li_faulty.IH loop_inv_receive [OF _ _ inv] show ?case by (auto elim!: listener_faultE)
next
  case (li_around s t)
  with around_keeps(2) [OF li_around.hyps(2)] loop_inv_around loop_ended_around show ?case
    by (auto split: option.splits)
qed

section \<open>Stopping\<close>

text \<open>How many steps the listening thread can still take once it is to stop.\<close>

fun listener_left :: "recv_pc \<Rightarrow> nat" where
  "listener_left Outside = 3"
| "listener_left Entered = 2"
| "listener_left Polling = 3"
| "listener_left (Polled _) = 2"
| "listener_left Receiving = 4"
| "listener_left Recv_Failed = 2"
| "listener_left (Returned d) = (if d = [] then 1 else 3)"
| "listener_left (Thrown _) = 1"

definition stopping :: "listener \<Rightarrow> bool" where
  "stopping s \<longleftrightarrow> stop_requested (li_udp s) \<and> stop_at (li_udp s) = Stop_Outside"

lemma listener_left_pos: "0 < listener_left pc"
  by (cases pc) auto

lemma listener_left_max: "listener_left pc \<le> 4"
  by (cases pc) auto

lemma recv_step_left:
  "recv_step n s t \<or> fault_step s t \<Longrightarrow> stop_requested s \<Longrightarrow>
   listener_left (recv_at t) < listener_left (recv_at s) \<and> recv_at t \<noteq> Receiving \<and>
   stop_requested t = stop_requested s \<and> stop_at t = stop_at s"
  by (auto simp: recv_step_iff fault_step_iff)

lemma own_step_stopping:
  assumes "listener_step disk send s t \<or> listener_fault s t" and "stopping s"
  shows "stopping t \<and> li_end s = None \<and>
    (li_end t = None \<longrightarrow> listener_left (recv_at (li_udp t)) < listener_left (recv_at (li_udp s)) \<and> recv_at (li_udp t) \<noteq> Receiving)"
  using assms(1)
proof
  assume "listener_fault s t"
  then show ?thesis
    using assms(2) recv_step_left [of max_datagram "li_udp s"] by (auto simp: stopping_def elim!: listener_faultE)
next
  assume "listener_step disk send s t"
  then show ?thesis
  proof (cases rule: listener_step.cases)
    case (li_receive u)
    with recv_step_left [of max_datagram "li_udp s" u] assms(2) show ?thesis by (simp add: stopping_def)
  next
    case (li_iterate d now feed)
    then have "d \<noteq> []" using assms(2) by (auto simp: stopping_def)
    with li_iterate assms(2) show ?thesis by (simp add: stopping_def)
  qed (use assms(2) in \<open>simp_all add: stopping_def\<close>)
qed

text \<open>
  Once it is to stop, the thread gets closer to the end with every step it takes or suffers, and it does
  not enter \<open>recv\<close> any more.
\<close>

lemma run_stopping:
  "listener_run disk send n s t \<Longrightarrow> stopping s \<Longrightarrow>
   stopping t \<and> (li_end t = None \<longrightarrow> n + listener_left (recv_at (li_udp t)) \<le> listener_left (recv_at (li_udp s)) \<and>
     (recv_at (li_udp t) = Receiving \<longrightarrow> recv_at (li_udp s) = Receiving \<and> (\<exists>ds. inbox (li_udp t) = inbox (li_udp s) @ ds)))"
proof (induction rule: listener_run.induct)
  case (run_own n s t u)
  with run_own.IH [OF run_own.prems] own_step_stopping [of disk send t u] show ?case by auto
next
  case (run_faulty n s t u)
  with run_faulty.IH [OF run_faulty.prems] own_step_stopping [of disk send t u] show ?case by auto
next
  case (run_around n s t u)
  with run_around.IH [OF run_around.prems] around_keeps [OF run_around.hyps(2)] show ?case by (auto simp: stopping_def)
qed simp

lemma run_reachable: "listener_run disk send n s t \<Longrightarrow> listener_reachable disk send feed s \<Longrightarrow> listener_reachable disk send feed t"
  by (induction rule: listener_run.induct) (auto intro: listener_reachable.intros)

lemma listener_enabled:
  assumes "listener_reachable disk send feed s" and "stopping s" and "li_end s = None"
  shows "(\<exists>t. listener_step disk send s t) \<or> recv_blocked (li_udp s)"
proof -
  have inside: "(\<exists>u. recv_step max_datagram (li_udp s) u) \<or> recv_blocked (li_udp s)" if "steps_left (recv_at (li_udp s)) > 0"
    using stop_ends_receive [OF listener_udp [OF assms(1)]] assms(2) that by (auto simp: stopping_def)
  show ?thesis
  proof (cases "recv_at (li_udp s)")
    case (Returned d)
    obtain feed' r where "listen_loop disk send (li_feed s) [(d, stop_requested (li_udp s), 0)] = (feed', r)" by fastforce
    with Returned assms(3) show ?thesis by (cases "r = Inr Waiting") (blast intro: li_iterate li_leave)+
  qed (use assms(3) inside in \<open>auto intro: li_receive li_call li_throw\<close>)
qed

section \<open>Properties\<close>

text \<open>
  C6: The listening thread implements the loop. In every state the threads can reach, however they interleave,
  the datagrams handled are the first that arrived, in their order and none left out or repeated, each cut to
  the size of the buffer, and the listener is in the state \<open>listen_loop\<close> computes on them; it ends as
  \<open>listen_loop\<close> does, or stopped by a request, or with the exception of a failed system call.
\<close>

theorem listener_refines_loop:
  assumes "listener_reachable disk send feed s"
  shows "\<exists>env rest. map (take max_datagram) (li_arrived s) = map fst env @ rest \<and>
    (case li_end s of
       None \<Rightarrow> listen_loop disk send feed env = (li_feed s, Inr Waiting)
     | Some r \<Rightarrow> listen_loop disk send feed env = (li_feed s, r) \<or>
         listen_loop disk send feed env = (li_feed s, Inr Waiting) \<and>
           (r = Inr Stopped \<and> stop_requested (li_udp s) \<or>
            (\<exists>what err. recv_at (li_udp s) = Thrown what \<and> r = Inl (RuntimeError (what @ '': '' @ err)))))"
proof (cases "li_end s")
  case None
  then have "loop_inv disk send feed s" using listener_refines [OF assms] by simp
  then obtain env ds where "listen_loop disk send feed env = (li_feed s, Inr Waiting)"
    "map (take max_datagram) (li_arrived s) = map fst env @ ds @ map (take max_datagram) (inbox (li_udp s))"
    by (rule loop_invE)
  with None show ?thesis by auto
next
  case (Some r)
  then have "loop_ended disk send feed s r" using listener_refines [OF assms] by simp
  then show ?thesis unfolding Some loop_ended_def option.case .
qed

text \<open>
  A run in which the request to stop comes first and two datagrams arrive: the loop calls \<open>receive\<close>, which
  returns nothing, and is left.
\<close>

definition asked_to_stop :: "listening_feed \<Rightarrow> listener" where
  "asked_to_stop feed = (listener_start feed)
     \<lparr>li_udp := udp_start\<lparr>stop_requested := True, wake_bytes := 1, inbox := [[1], [2, 3]]\<rparr>, li_arrived := [[1], [2, 3]]\<rparr>"

lemma asked_to_stop_reachable: "listener_reachable disk send feed (asked_to_stop feed)"
proof -
  let ?step = "\<lambda>s u. s\<lparr>li_udp := u, li_arrived := li_arrived s @ drop (length (inbox (li_udp s))) (inbox u)\<rparr>"
  let ?u1 = "udp_start\<lparr>stop_requested := True, stop_at := Stop_Flagged\<rparr>"
  let ?u2 = "udp_start\<lparr>stop_requested := True, wake_bytes := 1\<rparr>"
  let ?u3 = "?u2\<lparr>inbox := [[1]]\<rparr>" and ?u4 = "?u2\<lparr>inbox := [[1], [2, 3]]\<rparr>"
  let ?s1 = "?step (listener_start feed) ?u1"
  let ?s2 = "?step ?s1 ?u2" let ?s3 = "?step ?s2 ?u3" let ?s4 = "?step ?s3 ?u4"
  have "around_step (listener_start feed) ?s1"
    by (rule around) (use stop_first [of udp_start] in \<open>simp_all add: listener_start_def udp_start_def\<close>)
  moreover have "around_step ?s1 ?s2"
    by (rule around) (use stop_wake [of ?u1] in \<open>simp_all add: udp_start_def\<close>)
  moreover have "around_step ?s2 ?s3"
    by (rule around) (use arrival [of ?u2 "[1]"] in \<open>simp_all add: udp_start_def\<close>)
  moreover have "around_step ?s3 ?s4"
    by (rule around) (use arrival [of ?u3 "[2, 3]"] in \<open>simp_all add: udp_start_def\<close>)
  ultimately have "listener_reachable disk send feed ?s4"
    by (meson li_start li_around)
  then show ?thesis by (simp add: asked_to_stop_def listener_start_def udp_start_def)
qed

lemma asked_to_stop_run:
  "\<exists>t. listener_run disk send 3 (asked_to_stop feed) t \<and> li_end t = Some (Inr Stopped) \<and> li_arrived t = [[1], [2, 3]]"
proof -
  let ?s = "asked_to_stop feed"
  let ?s1 = "?s\<lparr>li_udp := (li_udp ?s)\<lparr>recv_at := Entered\<rparr>\<rparr>"
  let ?s2 = "?s1\<lparr>li_udp := (li_udp ?s1)\<lparr>recv_at := Returned []\<rparr>\<rparr>"
  let ?s3 = "?s2\<lparr>li_feed := li_feed ?s2, li_end := Some (Inr Stopped)\<rparr>"
  note d = asked_to_stop_def listener_start_def udp_start_def
  have 1: "listener_step disk send ?s ?s1" by (rule li_call) (simp_all add: d)
  have "listener_step disk send ?s1 (?s1\<lparr>li_udp := (li_udp ?s1)\<lparr>recv_at := Returned []\<rparr>\<rparr>)"
    by (rule li_receive [OF _ recv_stopped]) (simp_all add: d)
  moreover have "listener_step disk send ?s2 ?s3"
    by (rule li_leave [where d = "[]" and now = 0]) (simp_all add: d)
  ultimately have "listener_run disk send (Suc (Suc (Suc 0))) ?s ?s3"
    using 1 by (meson run_none run_own)
  then show ?thesis by (intro exI [of _ ?s3]) (simp add: d numeral_3_eq_3)
qed

theorem listener_refines_loop_witness:
  "\<exists>ob s env rest. order_book_init 2 = Inr ob \<and>
    (let feed = \<lparr>fe_recovery = recovery_init 1, fe_book = ob, fe_sent = [], fe_rejected = [], fe_capture = None\<rparr> in
     listener_reachable sample_disk (\<lambda>_. Inr ()) feed s \<and> li_end s = Some (Inr Stopped) \<and> li_arrived s = [[1], [2, 3]] \<and>
     map (take max_datagram) (li_arrived s) = map fst env @ rest)"
proof -
  obtain ob where ob: "order_book_init 2 = Inr ob" using init_represents [of 2] by (auto simp: kInvalidSlot_def)
  let ?feed = "\<lparr>fe_recovery = recovery_init 1, fe_book = ob, fe_sent = [], fe_rejected = [], fe_capture = None\<rparr>"
  let ?send = "\<lambda>_. Inr () :: unit res"
  obtain t where t: "listener_run sample_disk ?send 3 (asked_to_stop ?feed) t" "li_end t = Some (Inr Stopped)" "li_arrived t = [[1], [2, 3]]"
    using asked_to_stop_run by blast
  have "listener_reachable sample_disk ?send ?feed t" using run_reachable [OF t(1) asked_to_stop_reachable] .
  with listener_refines_loop [OF this] ob t show ?thesis unfolding Let_def by blast
qed

text \<open>
  C7: A stop request ends the listener. Once the \<open>request_stop\<close> that set the flag has returned, the listening thread
  leaves the loop after at most four steps, whatever the network, the system and other callers
  of \<open>request_stop\<close> do in between; and until then it is never blocked, that is, it has a step of its
  own to take that does not depend on any of them, unless it was already waiting in \<open>recv\<close>, with no datagram there, when
  the request came, and still is.
\<close>

theorem listener_stops:
  assumes "listener_reachable disk send feed s" and "stop_requested (li_udp s)" and "stop_at (li_udp s) = Stop_Outside"
    and "listener_run disk send n s t"
  shows "n \<le> 4 \<and>
    (li_end t = None \<longrightarrow> n < 4 \<and>
      ((\<exists>u. listener_step disk send t u) \<or> recv_blocked (li_udp s) \<and> recv_blocked (li_udp t)))"
proof -
  have st: "stopping s" using assms(2,3) by (simp add: stopping_def)
  note r = run_stopping [OF assms(4) st]
  have "n < 4" if "li_end t = None"
    using r that listener_left_pos [of "recv_at (li_udp t)"] listener_left_max [of "recv_at (li_udp s)"] by linarith
  moreover have "(\<exists>u. listener_step disk send t u) \<or> recv_blocked (li_udp s) \<and> recv_blocked (li_udp t)" if "li_end t = None"
    using listener_enabled [OF run_reachable [OF assms(4,1)]] r that by (auto simp: recv_blocked_def)
  moreover have "n \<le> 4" using assms(4) st
  proof (induction rule: listener_run.induct)
    case (run_own n s t u)
    with run_stopping [OF run_own.hyps(1) run_own.prems] own_step_stopping [of disk send t u] show ?case
      using listener_left_pos [of "recv_at (li_udp t)"] listener_left_max [of "recv_at (li_udp s)"] by auto
  next
    case (run_faulty n s t u)
    with run_stopping [OF run_faulty.hyps(1) run_faulty.prems] own_step_stopping [of disk send t u] show ?case
      using listener_left_pos [of "recv_at (li_udp t)"] listener_left_max [of "recv_at (li_udp s)"] by auto
  qed simp_all
  ultimately show ?thesis by blast
qed

text \<open>A thread blocked in \<open>poll\<close>, woken by the byte in the pipe.\<close>

lemma polling_stopped:
  "\<exists>s. listener_reachable disk send feed s \<and> recv_at (li_udp s) = Polling \<and> inbox (li_udp s) = [] \<and> stop_requested (li_udp s) \<and>
    stop_at (li_udp s) = Stop_Outside \<and> li_end s = None"
proof -
  let ?l = "\<lambda>u. listener_start feed\<lparr>li_udp := u\<rparr>"
  let ?u1 = "udp_start\<lparr>recv_at := Entered\<rparr>" and ?u2 = "udp_start\<lparr>recv_at := Polling\<rparr>"
  let ?u3 = "udp_start\<lparr>recv_at := Polling, stop_requested := True, stop_at := Stop_Flagged\<rparr>"
  let ?u4 = "udp_start\<lparr>recv_at := Polling, stop_requested := True, wake_bytes := 1\<rparr>"
  note d = listener_start_def udp_start_def
  have "listener_reachable disk send feed (?l ?u1)" using li_own [OF li_start li_call, of feed disk send] by (simp add: d)
  then have "listener_reachable disk send feed (?l ?u2)"
    using li_own [OF _ li_receive [OF _ recv_poll], of disk send feed "?l ?u1"] by (simp add: d)
  then have "listener_reachable disk send feed (?l ?u3)"
    using li_around [OF _ around [OF stop_first], of disk send feed "?l ?u2"] by (simp add: d)
  then have "listener_reachable disk send feed (?l ?u4)"
    using li_around [OF _ around [OF stop_wake], of disk send feed "?l ?u3"] by (simp add: d)
  then show ?thesis by (intro exI [of _ "?l ?u4"]) (simp add: d)
qed

theorem listener_stops_witness:
  "\<exists>ob s u. order_book_init 2 = Inr ob \<and>
    (let feed = \<lparr>fe_recovery = recovery_init 1, fe_book = ob, fe_sent = [], fe_rejected = [], fe_capture = None\<rparr> in
     listener_reachable sample_disk (\<lambda>_. Inr ()) feed s \<and> recv_at (li_udp s) = Polling \<and> listener_step sample_disk (\<lambda>_. Inr ()) s u)"
proof -
  obtain ob where ob: "order_book_init 2 = Inr ob" using init_represents [of 2] by (auto simp: kInvalidSlot_def)
  let ?feed = "\<lparr>fe_recovery = recovery_init 1, fe_book = ob, fe_sent = [], fe_rejected = [], fe_capture = None\<rparr>"
  let ?send = "\<lambda>_. Inr () :: unit res"
  obtain s where s: "listener_reachable sample_disk ?send ?feed s" "recv_at (li_udp s) = Polling" "stop_requested (li_udp s)"
    "stop_at (li_udp s) = Stop_Outside" "li_end s = None"
    using polling_stopped by blast
  obtain u where "listener_step sample_disk ?send s u"
    using listener_stops [OF s(1,3,4) run_none] s(2,5) by (auto simp: recv_blocked_def)
  with ob s show ?thesis unfolding Let_def by blast
qed

end
