(* ===== verification/Listen_Replay.thy ===== *)
theory Listen_Replay
  imports Feed_Commands
begin

text \<open>
  The capture of a listener, replayed: \<open>listen\<close> with a capture file and then \<open>replay\<close> on that file, both
  as the commands of \<^verbatim>\<open>src/main.cpp\<close> run them. The two build books of different capacities, 2,000,000 and
  1,000,000 orders, so they agree as long as the listener's book does not hold more than the smaller
  number of orders. The number it holds at most is \<open>feed_peak\<close>.
\<close>

section \<open>The largest number of live orders\<close>




section \<open>Books of different capacities\<close>





section \<open>What a listener records\<close>








section \<open>Properties\<close>







end
