(* ===== verification/Book_Memory.thy ===== *)
theory Book_Memory
  imports Book_Views
begin

text \<open>
  The order book when memory runs out. \<open>add\<close> allocates a node of the map of books and a node of a map
  of levels after it has taken a slot and an index entry; its \<open>catch\<close> block undoes what was done and
  rethrows. \<open>replace\<close> allocates the node of the new level before it changes anything. Here the two
  operations are modelled with the allocations: \<open>book_fails\<close> and \<open>level_fails\<close> say whether an allocation
  of the one or the other kind throws, if the operation comes to it. An exception leaves the object
  behind, so the operations return the book in either case.
\<close>

section \<open>Operations that allocate\<close>

type_synonym outcome = "order_book \<times> bool res"

definition returned :: "(bool \<times> order_book) res \<Rightarrow> outcome res" where
  "returned r = rbind r (\<lambda>(ok, ob). Inr (ob, Inr ok))"

text \<open>The \<open>catch\<close> block of \<open>add\<close>.\<close>

definition add_catch :: "order_book \<Rightarrow> order \<Rightarrow> slot_index \<Rightarrow> outcome res" where
  "add_catch ob ord slot =
     rbind (index_erase (index ob) (ord_id ord)) (\<lambda>(_, idx).
     rbind (release_slot (ob\<lparr>index := idx\<rparr>) slot) (\<lambda>ob.
     let ob = (case map_find (books ob) (ord_symbol ord) of
                 None \<Rightarrow> ob
               | Some b \<Rightarrow> if book_empty b then ob\<lparr>books := map_erase (ord_symbol ord) (books ob)\<rparr> else ob)
     in Inr (ob, Inl BadAlloc)))"

text \<open>The body of the \<open>try\<close> block once the level can be had.\<close>

definition add_linked :: "order_book \<Rightarrow> order \<Rightarrow> slot_index \<Rightarrow> (bool \<times> order_book) res" where
  "add_linked ob ord slot =
     (let sy = ord_symbol ord; sd = ord_side ord in
      rbind (add_to ob (side_levels sd (get_book ob sy)) ord slot) (\<lambda>(added, ob, ls).
      let ob = store_levels ob sy sd ls in
      if added then Inr (True, ob)
      else
        let ob = drop_empty_book ob sy in
        rbind (index_erase (index ob) (ord_id ord)) (\<lambda>(_, idx).
        rbind (release_slot (ob\<lparr>index := idx\<rparr>) slot) (\<lambda>ob. Inr (False, ob)))))"

definition add_try :: "bool \<Rightarrow> bool \<Rightarrow> order_book \<Rightarrow> order \<Rightarrow> slot_index \<Rightarrow> outcome res" where
  "add_try book_fails level_fails ob ord slot =
     (if map_find (books ob) (ord_symbol ord) = None \<and> book_fails then add_catch ob ord slot
      else
        let ob = ob\<lparr>books := fst (try_emplace (<) (ord_symbol ord) default_book (books ob))\<rparr> in
        if map_find (side_levels (ord_side ord) (get_book ob (ord_symbol ord))) (ord_price ord) = None \<and> level_fails
        then add_catch ob ord slot
        else returned (add_linked ob ord slot))"

definition book_add_alloc :: "bool \<Rightarrow> bool \<Rightarrow> order_book \<Rightarrow> add_event \<Rightarrow> outcome res" where
  "book_add_alloc book_fails level_fails ob event =
     (let ord = add_order event in
      if ord_id ord = 0 \<or> ord_quantity ord = 0 then Inr (ob, Inr False)
      else
        rbind (index_find (index ob) (ord_id ord)) (\<lambda>found.
        if found \<noteq> None then Inr (ob, Inr False)
        else
          rbind (allocate_slot ob) (\<lambda>(slot, ob).
          if slot = kInvalidSlot then Inr (ob, Inr False)
          else
            rbind (slot_upd ob slot (\<lambda>s. s\<lparr>sl_order := ord\<rparr>)) (\<lambda>ob.
            rbind (index_insert (index ob) (ord_id ord) slot) (\<lambda>(ok, idx).
            if \<not> ok then rbind (release_slot (ob\<lparr>index := idx\<rparr>) slot) (\<lambda>ob. Inr (ob, Inr False))
            else add_try book_fails level_fails (ob\<lparr>index := idx\<rparr>) ord slot)))))"

definition book_replace_alloc :: "bool \<Rightarrow> order_book \<Rightarrow> replace_event \<Rightarrow> outcome res" where
  "book_replace_alloc level_fails ob event =
     rbind (index_find (index ob) (old_order_id event)) (\<lambda>old_slot.
     case old_slot of
       None \<Rightarrow> Inr (ob, Inr False)
     | Some slot \<Rightarrow>
         if new_order_id event = 0 \<or> new_quantity event = 0 then Inr (ob, Inr False)
         else
           rbind (index_find (index ob) (new_order_id event)) (\<lambda>clash.
           if clash \<noteq> None then Inr (ob, Inr False)
           else
             rbind (slot_at ob slot) (\<lambda>s.
             let old = sl_order s in
             rbind (book_at ob (ord_symbol old)) (\<lambda>symbol_book.
             let ls = side_levels (ord_side old) symbol_book in
             if ord_price old \<noteq> new_price event \<and> map_find ls (new_price event) = None \<and> level_fails
             then Inr (ob, Inl BadAlloc)
             else
               rbind (if ord_price old = new_price event then replace_same ob ls slot old event
                      else replace_move ob ls slot old event) (\<lambda>(ok, ob, ls).
               Inr (store_levels ob (ord_symbol old) (ord_side old) ls, Inr ok))))))"

fun book_apply_alloc :: "bool \<Rightarrow> bool \<Rightarrow> order_book \<Rightarrow> market_event \<Rightarrow> outcome res" where
  "book_apply_alloc bf lf ob (AddEvent e) = book_add_alloc bf lf ob e"
| "book_apply_alloc bf lf ob (ReplaceEvent e) = book_replace_alloc lf ob e"
| "book_apply_alloc bf lf ob e = returned (book_apply ob e)"

section \<open>Without a failure\<close>

lemma map_put_put: "\<not> lt k k \<Longrightarrow> map_put lt k v (map_put lt k w m) = map_put lt k v m"
  by (induction lt k v m rule: map_put.induct) auto

lemma slot_upd_books: "slot_upd (ob\<lparr>books := bs\<rparr>) i f = rbind (slot_upd ob i f) (\<lambda>ob. Inr (ob\<lparr>books := bs\<rparr>))"
  by (cases ob) (simp add: slot_upd_def slot_at_def rbind_assoc)

lemma link_at_tail_books:
  "link_at_tail (ob\<lparr>books := bs\<rparr>) lv i = rbind (link_at_tail ob lv i) (\<lambda>(ob, lv). Inr (ob\<lparr>books := bs\<rparr>, lv))"
  by (cases "lv_tail lv = kInvalidSlot") (simp_all add: link_at_tail_def slot_upd_books rbind_assoc)

lemma add_to_books:
  "add_to (ob\<lparr>books := bs\<rparr>) ls ord i = rbind (add_to ob ls ord i) (\<lambda>(added, ob, ls). Inr (added, ob\<lparr>books := bs\<rparr>, ls))"
  by (auto simp: add_to_def Let_def split_beta link_at_tail_books rbind_assoc split: option.splits intro!: rbind_cong)

lemma slot_upd_keeps: "slot_upd ob i f = Inr ob' \<Longrightarrow> books ob' = books ob"
  by (auto simp: slot_upd_def res_simps)

lemma add_to_keeps: "add_to ob ls ord i = Inr (added, ob', ls') \<Longrightarrow> books ob' = books ob"
  by (auto simp: add_to_def link_at_tail_def Let_def res_simps split_beta split: option.splits if_splits dest!: slot_upd_keeps)

lemma store_levels_emplaced:
  assumes "books ob' = fst (try_emplace (<) sy default_book (books ob))"
  shows "store_levels ob' sy sd ls = (store_levels ob sy sd ls)\<lparr>slots := slots ob', free_head := free_head ob', index := index ob'\<rparr>"
  using assms by (cases ob'; cases "map_of (books ob) sy")
    (simp_all add: store_levels_def try_emplace_def get_book_def map_put_put)

lemma add_linked_emplaced:
  assumes "ob' = ob\<lparr>books := fst (try_emplace (<) (ord_symbol ord) default_book (books ob))\<rparr>"
  shows "add_linked ob' ord i = add_linked ob ord i"
proof -
  let ?sy = "ord_symbol ord" and ?sd = "ord_side ord"
  have gb: "get_book ob' ?sy = get_book ob ?sy"
    by (auto simp: assms get_book_def map_of_try_emplace split: option.splits)
  have st: "store_levels (ob1\<lparr>books := books ob'\<rparr>) ?sy ?sd ls = store_levels ob1 ?sy ?sd ls"
    if "books ob1 = books ob" for ob1 ls
    using store_levels_emplaced [of "ob1\<lparr>books := books ob'\<rparr>" ?sy ob1 ?sd ls] that
    by (cases ob1) (simp add: assms store_levels_def)
  have "add_to ob' ls ord i = rbind (add_to ob ls ord i) (\<lambda>(added, ob, ls). Inr (added, ob\<lparr>books := books ob'\<rparr>, ls))" for ls
    unfolding assms add_to_books by simp
  then show ?thesis
    unfolding add_linked_def Let_def gb
    by (auto simp: rbind_assoc st dest!: add_to_keeps intro!: rbind_cong)
qed

lemma get_book_index: "get_book (ob\<lparr>index := idx\<rparr>) sy = get_book ob sy"
  by (simp add: get_book_def)

lemma book_add_linked:
  "book_add ob event =
     (let ord = add_order event in
      if ord_id ord = 0 \<or> ord_quantity ord = 0 then Inr (False, ob)
      else
        rbind (index_find (index ob) (ord_id ord)) (\<lambda>found.
        if found \<noteq> None then Inr (False, ob)
        else
          rbind (allocate_slot ob) (\<lambda>(slot, ob).
          if slot = kInvalidSlot then Inr (False, ob)
          else
            rbind (slot_upd ob slot (\<lambda>s. s\<lparr>sl_order := ord\<rparr>)) (\<lambda>ob.
            rbind (index_insert (index ob) (ord_id ord) slot) (\<lambda>(ok, idx).
            if \<not> ok then rbind (release_slot (ob\<lparr>index := idx\<rparr>) slot) (\<lambda>ob. Inr (False, ob))
            else add_linked (ob\<lparr>index := idx\<rparr>) ord slot)))))"
  unfolding book_add_def add_linked_def Let_def get_book_index ..

text \<open>An operation that does not come to a failing allocation is the operation of \<open>Order_Book\<close>.\<close>

lemma add_try_returned:
  assumes "\<not> (map_find (books ob) (ord_symbol ord) = None \<and> bf)"
    and "\<not> (map_find (side_levels (ord_side ord) (get_book ob (ord_symbol ord))) (ord_price ord) = None \<and> lf)"
  shows "add_try bf lf ob ord i = returned (add_linked ob ord i)"
proof -
  let ?ob = "ob\<lparr>books := fst (try_emplace (<) (ord_symbol ord) default_book (books ob))\<rparr>"
  have "get_book ?ob (ord_symbol ord) = get_book ob (ord_symbol ord)"
    by (auto simp: get_book_def map_of_try_emplace split: option.splits)
  with assms show ?thesis
    unfolding add_try_def Let_def add_linked_emplaced [OF refl] by auto
qed

lemma allocate_slot_keeps: "allocate_slot ob = Inr (i, ob') \<Longrightarrow> books ob' = books ob"
  by (auto simp: allocate_slot_def Let_def res_simps split: if_splits dest!: slot_upd_keeps)

lemma add_alloc_returned:
  assumes "\<not> (map_find (books ob) (ord_symbol (add_order e)) = None \<and> bf)"
    and "\<not> (map_find (side_levels (ord_side (add_order e)) (get_book ob (ord_symbol (add_order e)))) (ord_price (add_order e)) = None \<and> lf)"
  shows "book_add_alloc bf lf ob e = returned (book_add ob e)"
proof -
  have "add_try bf lf ob' (add_order e) i = returned (add_linked ob' (add_order e) i)" if "books ob' = books ob" for ob' i
    using assms that by (intro add_try_returned) (simp_all add: get_book_def)
  then show ?thesis
    unfolding book_add_linked book_add_alloc_def returned_def Let_def rbind_assoc if_distrib [of "\<lambda>r. rbind r f" for f]
    by (auto simp: rbind_assoc dest!: allocate_slot_keeps slot_upd_keeps intro!: rbind_cong)
qed

lemma replace_alloc_returned: "book_replace_alloc False ob e = returned (book_replace ob e)"
  by (auto simp: book_replace_alloc_def book_replace_def returned_def Let_def rbind_assoc split: option.splits intro!: rbind_cong)

section \<open>With a failure\<close>

lemma map_erase_absent: "map_of m k = None \<Longrightarrow> map_erase k m = m"
  by (induction m) (auto simp: map_erase_def split: if_splits)

lemma catch_drop:
  "(case map_find (books ob) sy of None \<Rightarrow> ob
    | Some b \<Rightarrow> if book_empty b then ob\<lparr>books := map_erase sy (books ob)\<rparr> else ob) = drop_empty_book ob sy"
  by (auto simp: drop_empty_book_def get_book_def map_erase_absent split: option.splits)

lemma emplaced_books:
  assumes "books_ok bs" and "bs' = fst (try_emplace (<) sy default_book bs)"
  shows "level_map bs' = level_map bs" and "books_ok (books (drop_empty_book (ob\<lparr>books := bs'\<rparr>) sy))"
proof -
  show "level_map bs' = level_map bs"
  proof
    fix k :: level_key
    show "level_map bs' k = level_map bs k"
      by (cases k) (auto simp: assms(2) map_of_try_emplace split: option.splits)
  qed
  have sub: "set bs' \<subseteq> insert (sy, default_book) (set bs)" unfolding assms(2) by (rule try_emplace_subset)
  then have "books_sorted bs'"
    using assms less_order.sorted_try_emplace unfolding books_ok_def books_sorted_def by fastforce
  then show "books_ok (books (drop_empty_book (ob\<lparr>books := bs'\<rparr>) sy))"
    using sub assms(1) by (intro books_ok_drop) (auto simp: books_ok_def books_full_def)
qed

lemma add_catch_core:
  assumes core: "book_core ob L (i # F)" and filled: "slot_filled ob L F i ord ss h idx"
    and bs: "bs = books ob \<or> bs = fst (try_emplace (<) (ord_symbol ord) default_book (books ob))"
  shows "\<exists>ob'. add_catch (ob\<lparr>slots := ss, free_head := h, index := idx, books := bs\<rparr>) ord i = Inr (ob', Inl BadAlloc) \<and>
    book_core ob' L (i # F) \<and> orders_of (slots ob') L = orders_of (slots ob) L \<and> length (slots ob') = length (slots ob)"
proof -
  let ?ob = "ob\<lparr>slots := ss, free_head := h, index := idx, books := bs\<rparr>"
  define bs' where "bs' = books (drop_empty_book ?ob (ord_symbol ord))"
  have ok: "books_ok (books ob)" using core by (simp add: book_core_def)
  have lm: "level_map bs = level_map (books ob)" using bs emplaced_books(1) [OF ok refl] by auto
  have "books_ok bs'"
    using bs emplaced_books(2) [OF ok refl, where ob = ?ob and sy = "ord_symbol ord"] books_ok_drop [of ?ob "ord_symbol ord"] ok
    by (auto simp: bs'_def books_ok_def books_full_def)
  moreover have "level_map bs' = level_map (books ob)" by (simp add: bs'_def lm)
  ultimately obtain idx' ss' where u: "index_erase idx (ord_id ord) = Inr (True, idx')"
    "\<And>ob3. slots ob3 = ss \<Longrightarrow> free_head ob3 = h \<Longrightarrow>
       release_slot (ob3\<lparr>index := idx'\<rparr>) i = Inr (ob3\<lparr>index := idx', slots := ss', free_head := i\<rparr>)"
    "book_core \<lparr>slots = ss', free_head = i, index = idx', books = bs'\<rparr> L (i # F)"
    "orders_of ss' L = orders_of (slots ob) L" "length ss' = length (slots ob)"
    using undo_fill [OF core filled] by blast
  have "drop_empty_book (?ob\<lparr>index := idx', slots := ss', free_head := i\<rparr>) (ord_symbol ord) =
      \<lparr>slots = ss', free_head = i, index = idx', books = bs'\<rparr>"
    by (cases ob) (simp add: bs'_def drop_empty_book_def get_book_def)
  then have "add_catch ?ob ord i = Inr (\<lparr>slots = ss', free_head = i, index = idx', books = bs'\<rparr>, Inl BadAlloc)"
    using u(1) u(2) [of ?ob] unfolding add_catch_def Let_def catch_drop by simp
  with u(3-5) show ?thesis by auto
qed

lemma add_try_core:
  assumes core: "book_core ob L (i # F)" and filled: "slot_filled ob L F i ord ss h idx"
    and ob1: "ob1 = ob\<lparr>slots := ss, free_head := h, index := idx\<rparr>"
  shows "add_try bf lf ob1 ord i = returned (add_linked ob1 ord i) \<or>
    (bf \<or> lf) \<and> (\<exists>ob'. add_try bf lf ob1 ord i = Inr (ob', Inl BadAlloc) \<and>
      book_core ob' L (i # F) \<and> orders_of (slots ob') L = orders_of (slots ob) L \<and> length (slots ob') = length (slots ob))"
proof -
  let ?bs = "fst (try_emplace (<) (ord_symbol ord) default_book (books ob))"
  have e: "ob1 = ob\<lparr>slots := ss, free_head := h, index := idx, books := books ob\<rparr>" by (cases ob) (simp add: ob1)
  have gb: "get_book (ob1\<lparr>books := ?bs\<rparr>) (ord_symbol ord) = get_book ob1 (ord_symbol ord)"
    by (auto simp: ob1 get_book_def map_of_try_emplace split: option.splits)
  consider (book) "map_find (books ob1) (ord_symbol ord) = None \<and> bf"
    | (level) "\<not> (map_find (books ob1) (ord_symbol ord) = None \<and> bf)"
        "map_find (side_levels (ord_side ord) (get_book ob1 (ord_symbol ord))) (ord_price ord) = None \<and> lf"
    | (none) "\<not> (map_find (books ob1) (ord_symbol ord) = None \<and> bf)"
        "\<not> (map_find (side_levels (ord_side ord) (get_book ob1 (ord_symbol ord))) (ord_price ord) = None \<and> lf)" by blast
  then show ?thesis
  proof cases
    case book
    then have "add_try bf lf ob1 ord i = add_catch ob1 ord i" by (simp add: add_try_def)
    with add_catch_core [OF core filled, of "books ob"] e book show ?thesis by auto
  next
    case level
    then have "add_try bf lf ob1 ord i = add_catch (ob1\<lparr>books := ?bs\<rparr>) ord i"
      unfolding add_try_def Let_def using gb by (auto simp: ob1)
    with add_catch_core [OF core filled, of ?bs] level show ?thesis by (simp add: ob1)
  next
    case none
    then show ?thesis using add_try_returned by blast
  qed
qed

lemma add_alloc_sim:
  assumes rep: "represents cap ob os"
  shows "book_add_alloc bf lf ob e = returned (book_add ob e) \<or>
    (bf \<or> lf) \<and> (\<exists>ob'. book_add_alloc bf lf ob e = Inr (ob', Inl BadAlloc) \<and> represents cap ob' os)"
proof -
  obtain L F where core: "book_core ob L F" "os = orders_of (slots ob) L" "length (slots ob) = cap" "orders_ok cap os"
    using represents_core [OF rep] by metis
  define ord where "ord = add_order e"
  show ?thesis
  proof (cases "ord_id ord = 0 \<or> ord_quantity ord = 0 \<or> index_lookup (index ob) (ord_id ord) \<noteq> None \<or> F = []")
    case True
    have "F = [] \<Longrightarrow> allocate_slot ob = Inr (kInvalidSlot, ob)"
      using core(1) by (intro allocate_none) (auto simp: book_core_def)
    then have "book_add_alloc bf lf ob e = returned (book_add ob e)"
      using True core(1) by (auto simp: book_add_alloc_def book_add_def returned_def Let_def ord_def [symmetric])
    then show ?thesis ..
  next
    case False
    then obtain i F' where F: "F = i # F'" by (cases F) auto
    note core1 = core(1) [unfolded F]
    have fresh: "index_lookup (index ob) (ord_id ord) = None" "ord_id ord \<noteq> 0" "ord_quantity ord \<noteq> 0"
      using False by auto
    obtain ob0 h idx ss where al: "allocate_slot ob = Inr (i, ob0)"
      "slot_upd ob0 i (\<lambda>s. s\<lparr>sl_order := ord\<rparr>) = Inr (ob\<lparr>slots := ss, free_head := h\<rparr>)"
      "index_insert (index ob) (ord_id ord) i = Inr (True, idx)" "slot_filled ob L F' i ord ss h idx"
      using fill_slot [OF core1 fresh(1)] by blast
    let ?ob = "ob\<lparr>slots := ss, free_head := h, index := idx\<rparr>"
    have "i \<noteq> kInvalidSlot" using core1 arena_valid [of "slots ob" i] by (auto simp: book_core_def)
    then have "book_add_alloc bf lf ob e = add_try bf lf ?ob ord i" "book_add ob e = add_linked ?ob ord i"
      unfolding book_add_linked book_add_alloc_def using core1 fresh al by (simp_all add: Let_def ord_def [symmetric])
    with add_try_core [OF core1 al(4) refl, of bf lf] core(2-4) show ?thesis by (auto intro: representsI)
  qed
qed

text \<open>
  Two operations that branch alike: the one returns what the other does, or ends with \<open>k\<close>.
\<close>

definition either :: "bool \<Rightarrow> outcome res \<Rightarrow> outcome res \<Rightarrow> (bool \<times> order_book) res \<Rightarrow> bool" where
  "either b k f g \<longleftrightarrow> f = returned g \<or> b \<and> f = k"

lemma either_intros:
  "(\<And>x. m = Inr x \<Longrightarrow> either b k (f x) (g x)) \<Longrightarrow> either b k (rbind m f) (rbind m g)"
  "(c \<Longrightarrow> either b k f1 g1) \<Longrightarrow> (\<not> c \<Longrightarrow> either b k f2 g2) \<Longrightarrow> either b k (if c then f1 else f2) (if c then g1 else g2)"
  "(z = None \<Longrightarrow> either b k f1 g1) \<Longrightarrow> (\<And>y. z = Some y \<Longrightarrow> either b k (h y) (h' y)) \<Longrightarrow>
     either b k (case z of None \<Rightarrow> f1 | Some y \<Rightarrow> h y) (case z of None \<Rightarrow> g1 | Some y \<Rightarrow> h' y)"
  "either b k (Inr (ob, Inr ok)) (Inr (ok, ob))"
  "either b k (if c \<and> b then k else returned g1) g1"
  by (cases m; cases z; auto simp: either_def returned_def)+

lemma returned_stored:
  "rbind m (\<lambda>(ok, ob, ls). Inr (f ob ls, Inr ok)) = returned (rbind m (\<lambda>(ok, ob, ls). Inr (ok, f ob ls)))"
  by (cases m) (auto simp: returned_def)

lemma replace_alloc_cases: "either lf (Inr (ob, Inl BadAlloc)) (book_replace_alloc lf ob e) (book_replace ob e)"
  unfolding book_replace_alloc_def book_replace_def Let_def returned_stored conj_assoc [symmetric]
  by (intro either_intros)

section \<open>Properties\<close>

lemma apply_alloc_sim:
  assumes "represents cap ob os"
  shows "book_apply_alloc bf lf ob e = returned (book_apply ob e) \<or>
    (bf \<or> lf) \<and> (\<exists>ob'. book_apply_alloc bf lf ob e = Inr (ob', Inl BadAlloc) \<and> represents cap ob' os)"
proof (cases e)
  case (AddEvent a)
  then show ?thesis using add_alloc_sim [OF assms, of bf lf a] by simp
next
  case (ReplaceEvent r)
  then show ?thesis using replace_alloc_cases [of lf ob r] assms by (auto simp: either_def)
qed simp_all

text \<open>
  C17: Running out of memory costs the event and nothing else. Whether or not an allocation fails, an event
  applied to a reachable book either ends exactly as it would with enough memory, or throws
  \<open>std::bad_alloc\<close>, and then every query answers as before the event and every later sequence of
  events has the results it would have had without it: no slot, no index entry and no empty level is left behind.
\<close>

theorem bad_alloc_harmless:
  assumes "book_reached n ob"
  shows "\<exists>ob' r. book_apply_alloc bf lf ob e = Inr (ob', r) \<and>
    (case r of
       Inr ok \<Rightarrow> book_apply ob e = Inr (ok, ob')
     | Inl x \<Rightarrow> x = BadAlloc \<and> (bf \<or> lf) \<and>
         (\<forall>oid. book_find ob' oid = book_find ob oid) \<and> live_order_count ob' = live_order_count ob \<and>
         (\<forall>sy. bid_levels ob' sy = bid_levels ob sy \<and> ask_levels ob' sy = ask_levels ob sy) \<and>
         state_hash ob' = state_hash ob \<and>
         (\<forall>es. \<exists>rs c c'. run_res book_apply ob' es = Inr (rs, c') \<and> run_res book_apply ob es = Inr (rs, c) \<and>
            state_hash c' = state_hash c))"
proof -
  obtain os where os: "represents n ob os" using reached_represents [OF assms] .
  from apply_alloc_sim [OF os, of bf lf e]
  consider "book_apply_alloc bf lf ob e = returned (book_apply ob e)"
    | ob' where "bf \<or> lf" "book_apply_alloc bf lf ob e = Inr (ob', Inl BadAlloc)" "represents n ob' os" by blast
  then show ?thesis
  proof cases
    case 1
    with apply_sim [OF os, of e] show ?thesis by (auto simp: returned_def)
  next
    case r: (2 ob')
    have "\<exists>rs c c'. run_res book_apply ob' es = Inr (rs, c') \<and> run_res book_apply ob es = Inr (rs, c) \<and>
        state_hash c' = state_hash c" for es
      using book.run_sim [OF os, of es] book.run_sim [OF r(3), of es] by (auto simp: hash_view)
    with r os show ?thesis by (auto simp: find_view count_view levels_queries hash_view)
  qed
qed

text \<open>An order for a level that does not exist is not added when the level cannot be allocated.\<close>

lemma add_catch_throws: "add_catch ob ord i = Inr (ob', r) \<Longrightarrow> r = Inl BadAlloc"
  by (auto simp: add_catch_def res_simps)

lemma add_alloc_new_level:
  assumes "book_add_alloc bf True ob e = Inr (ob', Inr ok)" and "level_map (books ob) (order_key (add_order e)) = None"
  shows "\<not> ok"
proof
  assume ok
  with assms(1) obtain ob1 i where t: "add_try bf True ob1 (add_order e) i = Inr (ob', Inr True)" "books ob1 = books ob"
    by (auto simp: book_add_alloc_def Let_def res_simps split: if_splits dest!: allocate_slot_keeps slot_upd_keeps)
  let ?ob = "ob1\<lparr>books := fst (try_emplace (<) (ord_symbol (add_order e)) default_book (books ob1))\<rparr>"
  have "map_find (side_levels (ord_side (add_order e)) (get_book ?ob (ord_symbol (add_order e)))) (ord_price (add_order e)) = None"
    using assms(2) t(2) by (auto simp: order_key_def get_book_def map_of_try_emplace split: option.splits)
  with t(1) show False by (auto simp: add_try_def Let_def split: if_splits dest!: add_catch_throws)
qed

lemma no_levels:
  assumes "represents cap ob []"
  shows "level_map (books ob) k = None"
proof -
  obtain L F where "book_core ob L F" "[] = orders_of (slots ob) L" using represents_core [OF assms] by metis
  with level_map_view [of ob L F k] show ?thesis by (simp add: at_level_def)
qed

theorem bad_alloc_harmless_witness:
  "\<exists>ob ob'. book_reached 2 ob \<and> book_apply_alloc False True ob (test_add 1 Buy 10 100) = Inr (ob', Inl BadAlloc) \<and>
    live_order_count ob' = 0"
proof -
  let ?e = "test_add 1 Buy 10 100"
  obtain ob where ob: "book_reached 2 ob" "represents 2 ob []" by (rule reached_run [of 2 "[]"]) simp_all
  obtain ob' r where r: "book_apply_alloc False True ob ?e = Inr (ob', r)"
    and cases: "case r of Inr ok \<Rightarrow> book_apply ob ?e = Inr (ok, ob')
      | Inl x \<Rightarrow> x = BadAlloc \<and> live_order_count ob' = live_order_count ob"
    using bad_alloc_harmless [OF ob(1), of False True ?e]
    by (elim exE conjE) (rule that, assumption, simp split: sum.splits)
  show ?thesis
  proof (cases r)
    case (Inl x)
    with r cases ob count_view [OF ob(2)] show ?thesis by auto
  next
    case (Inr ok)
    then have "ok" using apply_sim [OF ob(2), of ?e] cases by (auto simp: spec_eval)
    moreover have "\<not> ok"
      using add_alloc_new_level [of False ob "\<lparr>add_meta = test_meta, add_order = test_order 1 Buy 10 100\<rparr>"] r Inr no_levels [OF ob(2)] by simp
    ultimately show ?thesis by blast
  qed
qed

end
