(* ===== verification/Drivers.thy ===== *)
theory Drivers
  imports Feed_Messages
begin

text \<open>
  The drivers around the decoders: the fuzz targets of \<^verbatim>\<open>fuzz/\<close>, which call the decoders on arbitrary bytes
  and abort when an internal check fails, and the decoder benchmark of \<^verbatim>\<open>bench/benchmark.cpp\<close>, which runs both
  decoders on generated messages and adds up what they return. The clock of the benchmark is a
  parameter; its printed rates are quotients of it.
\<close>

section \<open>Fuzz targets\<close>

text \<open>How a call of \<open>LLVMFuzzerTestOneInput\<close> ends.\<close>

datatype fuzz_outcome = Returned int | Aborted | Uncaught exn

fun catch_decode :: "exn \<Rightarrow> fuzz_outcome" where
  "catch_decode (DecodeError _) = Returned 0"
| "catch_decode e = Uncaught e"

text \<open>\<open>index()\<close> of the variant.\<close>

fun event_index :: "market_event \<Rightarrow> nat" where
  "event_index (AddEvent _) = 0"
| "event_index (ExecuteEvent _) = 1"
| "event_index (CancelEvent _) = 2"
| "event_index (DeleteEvent _) = 3"
| "event_index (ReplaceEvent _) = 4"

definition fuzz_itch :: "u8 list \<Rightarrow> fuzz_outcome" where
  "fuzz_itch bytes =
     (case decode_book_event bytes of
        Inl e \<Rightarrow> catch_decode e
      | Inr None \<Rightarrow> Returned 0
      | Inr (Some event) \<Rightarrow>
          (case reference_decode_book_event bytes of
             Inl e \<Rightarrow> catch_decode e
           | Inr None \<Rightarrow> Aborted
           | Inr (Some comparison) \<Rightarrow>
               if event_index comparison \<noteq> event_index event then Aborted else Returned 0))"

fun fuzz_sequences :: "seqno \<Rightarrow> mold_message list \<Rightarrow> fuzz_outcome" where
  "fuzz_sequences next_sequence [] = Returned 0"
| "fuzz_sequences next_sequence (m # ms) =
     (if msg_sequence m \<noteq> next_sequence then Aborted else fuzz_sequences (next_sequence + 1) ms)"

definition fuzz_moldudp :: "u8 list \<Rightarrow> fuzz_outcome" where
  "fuzz_moldudp bytes =
     (case parse_downstream bytes of
        Inl e \<Rightarrow> catch_decode e
      | Inr packet \<Rightarrow>
          if \<not> pkt_heartbeat packet \<and> \<not> pkt_end_of_session packet \<and>
             length (pkt_messages packet) \<noteq> unat (pkt_message_count packet)
          then Aborted
          else fuzz_sequences (pkt_first_sequence packet) (pkt_messages packet))"

lemma catch_decode_outcome: "decode_outcome r \<Longrightarrow> r = Inl e \<Longrightarrow> catch_decode e = Returned 0"
  by (cases e) (simp_all add: decode_outcome_def)

lemma fuzz_sequences_numbered: "fuzz_sequences first (numbered first ps) = Returned 0"
  by (induction ps arbitrary: first) (simp_all add: numbered_Cons)

text \<open>
  C39: The fuzz targets find nothing, on any input: both return 0, so no decoder throws anything but
  \<open>DecodeError\<close>, the generated decoder never accepts an event the reference decoder does not, and the
  messages of a parsed packet are as many as announced and numbered consecutively.
\<close>

theorem fuzz_targets_pass: "fuzz_itch bytes = Returned 0 \<and> fuzz_moldudp bytes = Returned 0"
proof
  show "fuzz_itch bytes = Returned 0"
  proof (cases "decode_book_event bytes")
    case (Inl e)
    then show ?thesis using catch_decode_outcome [OF itch.decode_total Inl] by (simp add: fuzz_itch_def)
  next
    case (Inr x)
    show ?thesis
    proof (cases x)
      case (Some e)
      with Inr have "reference_decode_book_event bytes = Inr (Some e)"
        using itch.decode_Some_iff [of bytes e] ref.decode_Some_iff [of bytes e] by simp
      with Inr Some show ?thesis by (simp add: fuzz_itch_def)
    qed (simp add: Inr fuzz_itch_def)
  qed
  show "fuzz_moldudp bytes = Returned 0"
  proof (cases "parse_downstream bytes")
    case (Inl e)
    then show ?thesis using catch_decode_outcome [OF parse_downstream_outcome Inl] by (simp add: fuzz_moldudp_def)
  next
    case (Inr p)
    then have wf: "packet_wf p" using parse_downstream_sound by blast
    then have "fuzz_sequences (pkt_first_sequence p) (pkt_messages p) = Returned 0"
      using fuzz_sequences_numbered [of "pkt_first_sequence p" "map msg_payload (pkt_messages p)"]
      by (auto simp: packet_wf_def split: if_splits)
    with Inr wf show ?thesis by (auto simp: fuzz_moldudp_def packet_wf_def)
  qed
qed

section \<open>The decoder benchmark\<close>

definition p32 :: "u8 list \<Rightarrow> nat \<Rightarrow> u32 \<Rightarrow> u8 list res" where
  "p32 b off v = put_bytes b off (map (\<lambda>i. ucast (drop_bit (i * 8) v)) [3, 2, 1, 0])"

definition p64 :: "u8 list \<Rightarrow> nat \<Rightarrow> u64 \<Rightarrow> u8 list res" where
  "p64 b off v = put_bytes b off (map (\<lambda>i. ucast (drop_bit (i * 8) v)) [7, 6, 5, 4, 3, 2, 1, 0])"

definition base :: "char \<Rightarrow> nat \<Rightarrow> u64 \<Rightarrow> u8 list res" where
  "base type n oid = rbind (span_set (replicate n 0) 0 (ch type)) (\<lambda>b. p64 b 11 oid)"

definition templates :: "u8 list list res" where
  "templates =
     rbind (base CHR ''A'' 36 1) (\<lambda>add.
     rbind (span_set add 19 (ch CHR ''B'')) (\<lambda>add.
     rbind (p32 add 20 100) (\<lambda>add.
     rbind (put_bytes add 24 (map of_char ''AAPL    '')) (\<lambda>add.
     rbind (p32 add 32 2000000) (\<lambda>add.
     rbind (base CHR ''E'' 31 1) (\<lambda>execute.
     rbind (p32 execute 19 25) (\<lambda>execute.
     rbind (p64 execute 23 2) (\<lambda>execute.
     rbind (base CHR ''X'' 23 1) (\<lambda>cancel.
     rbind (p32 cancel 19 25) (\<lambda>cancel.
     rbind (base CHR ''D'' 19 1) (\<lambda>del.
     rbind (base CHR ''U'' 35 1) (\<lambda>replace.
     rbind (p64 replace 19 2) (\<lambda>replace.
     rbind (p32 replace 27 100) (\<lambda>replace.
     rbind (p32 replace 31 2000100) (\<lambda>replace.
     Inr [add, execute, cancel, del, replace])))))))))))))))"

text \<open>The messages \<open>main\<close> generates: the templates in turn, with the order ids 1, 2, 3 and so on.\<close>

fun bench_messages :: "u8 list list \<Rightarrow> nat \<Rightarrow> nat \<Rightarrow> u8 list list res" where
  "bench_messages patterns i 0 = Inr []"
| "bench_messages patterns i (Suc n) =
     rbind (span_at patterns (i mod length patterns)) (\<lambda>b.
     rbind (p64 b 11 (of_nat (i + 1))) (\<lambda>b.
     rbind (bench_messages patterns (i + 1) n) (\<lambda>bs. Inr (b # bs))))"

text \<open>One message: \<open>sink+=event->index()+message.size()\<close> in 64 bits.\<close>

definition sink_add :: "(u8 list \<Rightarrow> market_event option res) \<Rightarrow> u64 \<Rightarrow> u8 list \<Rightarrow> u64 res" where
  "sink_add decode sink message =
     rbind (decode message) (\<lambda>event.
     Inr (case event of None \<Rightarrow> sink | Some e \<Rightarrow> sink + of_nat (event_index e + length message)))"

fun decode_all :: "(u8 list \<Rightarrow> market_event option res) \<Rightarrow> u64 \<Rightarrow> u8 list list \<Rightarrow> u64 res" where
  "decode_all decode sink [] = Inr sink"
| "decode_all decode sink (m # ms) = rbind (sink_add decode sink m) (\<lambda>sink. decode_all decode sink ms)"

text \<open>
  \<open>measure\<close>: batches of 256 messages, the time each took, and the median of these times. \<open>took\<close> gives
  the duration of a batch by its number.
\<close>

function measure_batches ::
  "(nat \<Rightarrow> 'd) \<Rightarrow> (u8 list \<Rightarrow> market_event option res) \<Rightarrow> u64 \<Rightarrow> 'd list \<Rightarrow> u8 list list \<Rightarrow> ('d list \<times> u64) res" where
  "measure_batches took decode sink batches ms =
     (if ms = [] then Inr (batches, sink)
      else rbind (decode_all decode sink (take 256 ms)) (\<lambda>sink.
           measure_batches took decode sink (batches @ [took (length batches)]) (drop 256 ms)))"
  by pat_completeness auto
termination by (relation "Wellfounded.measure (\<lambda>(t, d, s, b, ms). length ms)") auto

declare measure_batches.simps [simp del]

definition median :: "'d :: linorder list \<Rightarrow> 'd res" where
  "median values = span_at (sort values) (length values div 2)"

definition measure_run ::
  "(nat \<Rightarrow> 'd :: linorder) \<Rightarrow> (u8 list \<Rightarrow> market_event option res) \<Rightarrow> u8 list list \<Rightarrow> ('d \<times> u64) res" where
  "measure_run took decode messages =
     rbind (measure_batches took decode 0 [] messages) (\<lambda>(batches, sink).
     rbind (median batches) (\<lambda>m. Inr (m, sink)))"

text \<open>
  The trials of \<open>main\<close>: both decoders are measured, the generated one first in even trials and last in odd
  ones. \<open>clock\<close> numbers the calls of \<open>measure\<close> in the order they are made and gives the durations of the
  batches of each.
\<close>

fun bench_trials ::
  "(nat \<Rightarrow> nat \<Rightarrow> 'd :: linorder) \<Rightarrow> u8 list list \<Rightarrow> nat \<Rightarrow> nat \<Rightarrow> 'd list \<Rightarrow> 'd list \<Rightarrow> u64 \<Rightarrow> ('d list \<times> 'd list \<times> u64) res" where
  "bench_trials clock messages trial 0 generated_batch reference_batch sink = Inr (generated_batch, reference_batch, sink)"
| "bench_trials clock messages trial (Suc n) generated_batch reference_batch sink =
     (if trial mod 2 = 0
      then rbind (measure_run (clock (2 * trial)) decode_book_event messages) (\<lambda>(gb, gs).
           rbind (measure_run (clock (2 * trial + 1)) reference_decode_book_event messages) (\<lambda>(rb, rs).
           bench_trials clock messages (trial + 1) n (generated_batch @ [gb]) (reference_batch @ [rb]) (sink + (gs + rs))))
      else rbind (measure_run (clock (2 * trial)) reference_decode_book_event messages) (\<lambda>(rb, rs).
           rbind (measure_run (clock (2 * trial + 1)) decode_book_event messages) (\<lambda>(gb, gs).
           bench_trials clock messages (trial + 1) n (generated_batch @ [gb]) (reference_batch @ [rb]) (sink + (gs + rs)))))"

definition bench_warmup :: "u8 list list \<Rightarrow> unit res" where
  "bench_warmup messages =
     rbind (decode_all decode_book_event 0 messages) (\<lambda>_.
     rbind (decode_all reference_decode_book_event 0 messages) (\<lambda>_. Inr ()))"

text \<open>\<open>main\<close> on \<open>n\<close> messages: the two medians and the sum it prints.\<close>

definition bench_main :: "(nat \<Rightarrow> nat \<Rightarrow> 'd :: linorder) \<Rightarrow> nat \<Rightarrow> ('d \<times> 'd \<times> u64) res" where
  "bench_main clock n =
     rbind templates (\<lambda>patterns.
     rbind (bench_messages patterns 0 n) (\<lambda>messages.
     rbind (bench_warmup messages) (\<lambda>_.
     rbind (bench_warmup messages) (\<lambda>_.
     rbind (bench_trials clock messages 0 7 [] [] 0) (\<lambda>(generated_batch, reference_batch, sink).
     rbind (median generated_batch) (\<lambda>g.
     rbind (median reference_batch) (\<lambda>r. Inr (g, r, sink))))))))"

section \<open>What the benchmark adds up\<close>

definition bench_event :: "nat \<Rightarrow> u64 \<Rightarrow> market_event" where
  "bench_event k oid =
     (let m = \<lparr>stock_locate = 0, tracking_number = 0, timestamp_ns = 0\<rparr> in
      [AddEvent \<lparr>add_meta = m, add_order = \<lparr>ord_id = oid, ord_symbol = Symbol (map of_char ''AAPL    ''), ord_side = Buy,
         ord_quantity = 100, ord_price = 2000000\<rparr>\<rparr>,
       ExecuteEvent \<lparr>exec_meta = m, exec_order_id = oid, executed_shares = 25, match_number = 2, has_execution_price = False,
         execution_price = 0, printable = True\<rparr>,
       CancelEvent \<lparr>cancel_meta = m, cancel_order_id = oid, canceled_shares = 25\<rparr>,
       DeleteEvent \<lparr>delete_meta = m, delete_order_id = oid\<rparr>,
       ReplaceEvent \<lparr>replace_meta = m, old_order_id = oid, new_order_id = 2, new_quantity = 100, new_price = 2000100\<rparr>] ! k)"

lemma p32_bytes: "p32 b off v = put_bytes b off (be_bytes 4 v)" "p64 b off w = put_bytes b off (be_bytes 8 w)"
  by (simp_all add: p32_def p64_def be_bytes_def upt_rec)

lemma be_bytes_zero: "be_bytes n (0 :: 'a :: len word) = replicate n 0"
  by (induction n) (simp_all add: be_bytes_Suc replicate_append_same)

lemma base_head:
  assumes "19 \<le> n"
  shows "base t n oid = Inr (filled n (encode_head t \<lparr>stock_locate = 0, tracking_number = 0, timestamp_ns = 0\<rparr> oid))"
proof -
  have "put_bytes (replicate n 0) 0 [ch t] = Inr (filled n ([ch t] @ replicate 10 0))"
    using assms by (simp add: put_bytes_eq filled_def flip: replicate_add)
  moreover have "replicate 10 (0 :: u8) = replicate 2 0 @ replicate 2 0 @ replicate 6 0"
    by (simp add: eval_nat_numeral)
  ultimately show ?thesis using assms
    unfolding base_def span_set_put p32_bytes
    by (simp add: put_bytes_filled encode_head_def be_bytes_zero)
qed

lemma templates_events: "templates = Inr (map (\<lambda>k. encode_event (bench_event k 1)) [0, 1, 2, 3, 4])"
  unfolding templates_def span_set_put p32_bytes
  by (simp add: base_head put_bytes_filled filled_full bench_event_def side_char_def)

lemma p64_head: "p64 (encode_head t m oid @ xs) 11 v = Inr (encode_head t m v @ xs)"
  by (simp add: p32_bytes put_bytes_eq encode_head_def)

lemma p64_event: "k \<in> {0, 1, 2, 3, 4} \<Longrightarrow> p64 (encode_event (bench_event k oid)) 11 v = Inr (encode_event (bench_event k v))"
  using p64_head [where xs = "[]"] by (auto simp: bench_event_def p64_head)

lemma bench_event_wf: "k \<in> {0, 1, 2, 3, 4} \<Longrightarrow> event_wf (bench_event k oid)"
  by (auto simp: bench_event_def meta_ok_def)

lemma mod_5: "(i :: nat) mod 5 \<in> {0, 1, 2, 3, 4}"
  by (simp, arith)

definition bench_stream :: "nat \<Rightarrow> nat \<Rightarrow> u8 list list" where
  "bench_stream i n = map (\<lambda>j. encode_event (bench_event (j mod 5) (of_nat (j + 1)))) [i..<i + n]"

lemma bench_messages_stream:
  "bench_messages (map (\<lambda>k. encode_event (bench_event k 1)) [0, 1, 2, 3, 4]) i n = Inr (bench_stream i n)"
proof (induction n arbitrary: i)
  case (Suc n)
  let ?pats = "map (\<lambda>k. encode_event (bench_event k 1)) [0, 1, 2, 3, 4]"
  have "span_at ?pats (i mod length ?pats) = Inr (encode_event (bench_event (i mod 5) 1))"
    using mod_5 [of i] by auto
  moreover have "bench_stream i (Suc n) = encode_event (bench_event (i mod 5) (of_nat (i + 1))) # bench_stream (i + 1) n"
    by (simp add: bench_stream_def upt_conv_Cons del: upt_Suc)
  ultimately show ?case using Suc [of "i + 1"] p64_event [OF mod_5] by simp
qed (simp add: bench_stream_def)

text \<open>What a message adds to the sink: the index of its event and its length.\<close>

definition bench_weight :: "nat \<Rightarrow> nat" where
  "bench_weight j = [36, 32, 25, 22, 39] ! (j mod 5)"

definition bench_total :: "nat \<Rightarrow> nat \<Rightarrow> nat" where
  "bench_total i n = sum_list (map bench_weight [i..<i + n])"

lemma bench_weight_event:
  "event_index (bench_event (j mod 5) oid) + length (encode_event (bench_event (j mod 5) oid)) = bench_weight j"
  using mod_5 [of j] by (auto simp: bench_weight_def bench_event_def)

lemma decode_all_append:
  "decode_all decode sink (xs @ ys) = rbind (decode_all decode sink xs) (\<lambda>sink. decode_all decode sink ys)"
  by (induction xs arbitrary: sink) (simp_all add: rbind_assoc)

lemma median_mem: "xs \<noteq> [] \<Longrightarrow> \<exists>m \<in> set xs. median xs = Inr m"
  using nth_mem [of "length xs div 2" "sort xs"] by (auto simp: median_def span_at_def)

lemma decode_all_split:
  assumes "decode_all decode sink ms = Inr sink'"
  obtains s1 where "decode_all decode sink (take n ms) = Inr s1" "decode_all decode s1 (drop n ms) = Inr sink'"
proof -
  have "rbind (decode_all decode sink (take n ms)) (\<lambda>sink. decode_all decode sink (drop n ms)) = Inr sink'"
    using assms unfolding decode_all_append [symmetric] by simp
  then show thesis using that by (cases "decode_all decode sink (take n ms)") simp_all
qed

lemma batch_count: "0 < (n :: nat) \<Longrightarrow> (n + 255) div 256 = Suc ((n - 256 + 255) div 256)"
proof (cases "n \<le> 256")
  case True
  assume "0 < n"
  with True show ?thesis by (simp add: div_nat_eqI)
next
  case False
  then obtain m where "n = m + 256" by (metis le_add_diff_inverse2 nat_le_linear)
  then show ?thesis by simp
qed

lemma measure_batches_all:
  "decode_all decode sink ms = Inr sink' \<Longrightarrow>
   measure_batches took decode sink batches ms =
     Inr (batches @ map took [length batches..<length batches + (length ms + 255) div 256], sink')"
proof (induction took decode sink batches ms rule: measure_batches.induct)
  case (1 took decode sink batches ms)
  show ?case
  proof (cases "ms = []")
    case True
    with 1 show ?thesis by (simp add: measure_batches.simps)
  next
    case False
    obtain s1 where s1: "decode_all decode sink (take 256 ms) = Inr s1" "decode_all decode s1 (drop 256 ms) = Inr sink'"
      using decode_all_split [OF "1.prems"] .
    have "(length ms + 255) div 256 = Suc ((length (drop 256 ms) + 255) div 256)"
      using batch_count [of "length ms"] False by simp
    with "1.IH" [OF False s1] s1(1) False show ?thesis
      by (simp add: measure_batches.simps [of _ _ sink batches ms] upt_conv_Cons del: upt_Suc)
  qed
qed

context book_decoder
begin

lemma decode_all_stream: "decode_all decode sink (bench_stream i n) = Inr (sink + of_nat (bench_total i n))"
proof (induction n arbitrary: i sink)
  case (Suc n)
  have "sink_add decode sink (encode_event (bench_event (i mod 5) (of_nat (i + 1)))) = Inr (sink + of_nat (bench_weight i))"
    using decode_encode [OF bench_event_wf [OF mod_5]] by (simp add: sink_add_def bench_weight_event)
  moreover have "bench_stream i (Suc n) = encode_event (bench_event (i mod 5) (of_nat (i + 1))) # bench_stream (i + 1) n"
    "bench_total i (Suc n) = bench_weight i + bench_total (i + 1) n"
    by (simp_all add: bench_stream_def bench_total_def upt_conv_Cons del: upt_Suc)
  ultimately show ?case using Suc [of _ "i + 1"] by simp
qed (simp add: bench_stream_def bench_total_def)

lemma measure_stream:
  assumes "0 < n"
  shows "\<exists>k < (n + 255) div 256. measure_run took decode (bench_stream 0 n) = Inr (took k, of_nat (bench_total 0 n))"
proof -
  let ?b = "(n + 255) div 256"
  have "length (bench_stream 0 n) = n" by (simp add: bench_stream_def)
  then have "measure_batches took decode 0 [] (bench_stream 0 n) = Inr (map took [0..<?b], of_nat (bench_total 0 n))"
    using measure_batches_all [OF decode_all_stream [of 0 0 n], of took "[]"] by simp
  moreover have "0 < ?b" using batch_count [OF assms] by linarith
  then obtain m where "m \<in> set (map took [0..<?b])" "median (map took [0..<?b]) = Inr m"
    using median_mem [of "map took [0..<?b]"] by fastforce
  ultimately show ?thesis by (auto simp: measure_run_def)
qed

end

text \<open>The durations the clock gives for a run on \<open>n\<close> messages.\<close>

definition bench_times :: "(nat \<Rightarrow> nat \<Rightarrow> 'd) \<Rightarrow> nat \<Rightarrow> 'd set" where
  "bench_times clock n = (\<lambda>(c, k). clock c k) ` ({..<14} \<times> {..<(n + 255) div 256})"

lemma bench_trials_stream:
  assumes "0 < n" "trial + t \<le> 7" "set gb \<union> set rb \<subseteq> bench_times clock n"
  shows "\<exists>gb' rb'. bench_trials clock (bench_stream 0 n) trial t gb rb sink =
      Inr (gb', rb', sink + of_nat (2 * t) * of_nat (bench_total 0 n)) \<and>
    length gb' = length gb + t \<and> length rb' = length rb + t \<and> set gb' \<union> set rb' \<subseteq> bench_times clock n"
  using assms(2, 3)
proof (induction t arbitrary: trial gb rb sink)
  case (Suc t)
  let ?m = "bench_stream 0 n" and ?s = "of_nat (bench_total 0 n) :: u64"
  have "\<exists>g r. g \<in> bench_times clock n \<and> r \<in> bench_times clock n \<and>
      bench_trials clock ?m trial (Suc t) gb rb sink = bench_trials clock ?m (trial + 1) t (gb @ [g]) (rb @ [r]) (sink + (?s + ?s))"
  proof (cases "trial mod 2 = 0")
    case True
    obtain k l where "k < (n + 255) div 256" "measure_run (clock (2 * trial)) decode_book_event ?m = Inr (clock (2 * trial) k, ?s)"
      "l < (n + 255) div 256" "measure_run (clock (2 * trial + 1)) reference_decode_book_event ?m = Inr (clock (2 * trial + 1) l, ?s)"
      using itch.measure_stream [OF assms(1)] ref.measure_stream [OF assms(1)] by metis
    with True Suc.prems(1) show ?thesis
      by (intro exI [of _ "clock (2 * trial) k"] exI [of _ "clock (2 * trial + 1) l"]) (auto simp: bench_times_def)
  next
    case False
    obtain k l where "k < (n + 255) div 256" "measure_run (clock (2 * trial + 1)) decode_book_event ?m = Inr (clock (2 * trial + 1) k, ?s)"
      "l < (n + 255) div 256" "measure_run (clock (2 * trial)) reference_decode_book_event ?m = Inr (clock (2 * trial) l, ?s)"
      using itch.measure_stream [OF assms(1)] ref.measure_stream [OF assms(1)] by metis
    with False Suc.prems(1) show ?thesis
      by (intro exI [of _ "clock (2 * trial + 1) k"] exI [of _ "clock (2 * trial) l"]) (auto simp: bench_times_def)
  qed
  then obtain g r where gr: "g \<in> bench_times clock n" "r \<in> bench_times clock n"
    "bench_trials clock ?m trial (Suc t) gb rb sink = bench_trials clock ?m (trial + 1) t (gb @ [g]) (rb @ [r]) (sink + (?s + ?s))"
    by blast
  with Suc.IH [of "trial + 1" "gb @ [g]" "rb @ [r]" "sink + (?s + ?s)"] Suc.prems show ?case
    by (simp add: algebra_simps)
qed simp

lemma bench_warmup_stream: "bench_warmup (bench_stream 0 n) = Inr ()"
  by (simp add: bench_warmup_def itch.decode_all_stream ref.decode_all_stream)

lemma bench_main_stream:
  "bench_main clock n =
     rbind (bench_trials clock (bench_stream 0 n) 0 7 [] [] 0) (\<lambda>(generated_batch, reference_batch, sink).
     rbind (median generated_batch) (\<lambda>g. rbind (median reference_batch) (\<lambda>r. Inr (g, r, sink))))"
  unfolding bench_main_def templates_events rbind.simps bench_messages_stream bench_warmup_stream ..

text \<open>
  C40: The benchmark compares like with like. On any number of generated messages both decoders decode every
  message and the run ends, printing fourteen times the sum that one pass over the messages yields and, for
  each decoder, a median that is a measured duration. Only for no messages at all is the
  median read from an empty vector.
\<close>

theorem bench_decoders_agree:
  "if n = 0 then bench_main clock n = Inl (Undefined ''index out of range'')
   else \<exists>g r. bench_main clock n = Inr (g, r, 14 * of_nat (bench_total 0 n)) \<and>
     g \<in> bench_times clock n \<and> r \<in> bench_times clock n"
proof (cases "n = 0")
  case True
  have "measure_run took decode_book_event (bench_stream 0 0) = Inl (Undefined ''index out of range'')" for took :: "nat \<Rightarrow> 'a"
    by (simp add: bench_stream_def measure_run_def measure_batches.simps median_def span_at_def)
  with True show ?thesis by (simp add: bench_main_stream eval_nat_numeral)
next
  case False
  then obtain gb rb where *: "bench_trials clock (bench_stream 0 n) 0 7 [] [] 0 = Inr (gb, rb, 14 * of_nat (bench_total 0 n))"
    "length gb = 7" "length rb = 7" "set gb \<union> set rb \<subseteq> bench_times clock n"
    using bench_trials_stream [of n 0 7 "[]" "[]" clock 0] by auto
  obtain g r where "g \<in> set gb" "median gb = Inr g" "r \<in> set rb" "median rb = Inr r"
    using median_mem [of gb] median_mem [of rb] *(2, 3) by fastforce
  with False * show ?thesis by (auto simp: bench_main_stream)
qed

end
