(* ===== verification/Metrics.thy ===== *)
theory Metrics
  imports Prelude Replay
begin

text \<open>
  \<^verbatim>\<open>include/efe/metrics.hpp\<close> and \<^verbatim>\<open>src/metrics.cpp\<close>: latency samples and their summary. The index of a
  quantile is a product in double precision, truncated; the product of a \<open>double\<close> literal and a
  converted size, both rounded, is the parameter \<open>fmul\<close>, of which \<open>fmul_ok\<close> states what rounding to nearest guarantees. The
  mean, an extended-precision quotient used for display, is the parameter \<open>mean_of\<close>.
\<close>

section \<open>Samples and summary\<close>

record latency_summary =
  mean_ns :: dbl
  p50_ns :: u64
  p95_ns :: u64
  p99_ns :: u64
  p999_ns :: u64
  max_ns :: u64

record latency_samples =
  samples :: "u64 list"

definition samples_init :: latency_samples where
  "samples_init = \<lparr>samples = []\<rparr>"

definition samples_add :: "latency_samples \<Rightarrow> u64 \<Rightarrow> latency_samples" where
  "samples_add ls ns = ls\<lparr>samples := samples ls @ [ns]\<rparr>"

definition samples_size :: "latency_samples \<Rightarrow> nat" where
  "samples_size ls = length (samples ls)"

definition quantile :: "(real \<Rightarrow> nat \<Rightarrow> real) \<Rightarrow> u64 list \<Rightarrow> real \<Rightarrow> u64 res" where
  "quantile fmul s p = span_at s (nat \<lfloor>fmul p (length s - 1)\<rfloor>)"

definition summarize ::
  "(real \<Rightarrow> nat \<Rightarrow> real) \<Rightarrow> (u64 list \<Rightarrow> dbl) \<Rightarrow> latency_samples \<Rightarrow> latency_summary res" where
  "summarize fmul mean_of ls =
     (if samples ls = []
      then Inr \<lparr>mean_ns = Fin 0, p50_ns = 0, p95_ns = 0, p99_ns = 0, p999_ns = 0, max_ns = 0\<rparr>
      else let s = sort (samples ls) in
        rbind (quantile fmul s 0.50) (\<lambda>p50.
        rbind (quantile fmul s 0.95) (\<lambda>p95.
        rbind (quantile fmul s 0.99) (\<lambda>p99.
        rbind (quantile fmul s 0.999) (\<lambda>p999.
        Inr \<lparr>mean_ns = mean_of s, p50_ns = p50, p95_ns = p95, p99_ns = p99, p999_ns = p999, max_ns = last s\<rparr>)))))"

section \<open>Quantiles\<close>

text \<open>
  Rounding to nearest is monotone and keeps representable numbers: a factor between 0 and 1 gives a
  product between 0 and the size, as long as the size itself is exact, below \<open>2 ^ 53\<close>.
\<close>

definition fmul_ok :: "(real \<Rightarrow> nat \<Rightarrow> real) \<Rightarrow> bool" where
  "fmul_ok fmul \<longleftrightarrow>
     (\<forall>p k. 0 \<le> p \<and> p \<le> 1 \<and> k < 2 ^ 53 \<longrightarrow> 0 \<le> fmul p k \<and> fmul p k \<le> real k) \<and>
     (\<forall>p q k. p \<le> q \<longrightarrow> fmul p k \<le> fmul q k)"

lemma quantile_index:
  assumes "fmul_ok fmul" and "s \<noteq> []" and "length s \<le> 2 ^ 53" and "0 \<le> p" and "p \<le> 1"
  shows "nat \<lfloor>fmul p (length s - 1)\<rfloor> < length s"
proof -
  have "length s - 1 < 2 ^ 53" using assms(2,3) by (cases s) simp_all
  then have "fmul p (length s - 1) \<le> real (length s - 1)" using assms(1,4,5) by (simp add: fmul_ok_def)
  then have "\<lfloor>fmul p (length s - 1)\<rfloor> \<le> int (length s - 1)" by linarith
  then show ?thesis using assms(2) by (cases s) auto
qed

lemma quantile_mono:
  assumes "fmul_ok fmul" and "p \<le> q"
  shows "nat \<lfloor>fmul p k\<rfloor> \<le> nat \<lfloor>fmul q k\<rfloor>"
  using assms by (auto simp: fmul_ok_def intro!: nat_mono floor_mono)

text \<open>
  C38: a summary of at least one and at most \<open>2 ^ 53\<close> samples reads inside the sorted samples; its
  quantiles and its maximum are samples, they are ordered as their names say, and the maximum bounds
  every sample.
\<close>

theorem summary_ordered:
  assumes "fmul_ok fmul" and "samples ls \<noteq> []" and "samples_size ls \<le> 2 ^ 53"
  shows "\<exists>r. summarize fmul mean_of ls = Inr r \<and>
    p50_ns r \<le> p95_ns r \<and> p95_ns r \<le> p99_ns r \<and> p99_ns r \<le> p999_ns r \<and> p999_ns r \<le> max_ns r \<and>
    {p50_ns r, p95_ns r, p99_ns r, p999_ns r, max_ns r} \<subseteq> set (samples ls) \<and> (\<forall>x \<in> set (samples ls). x \<le> max_ns r)"
proof -
  define s where "s = sort (samples ls)"
  define i where "i p = nat \<lfloor>fmul p (length s - 1)\<rfloor>" for p
  have s: "length s \<le> 2 ^ 53" "sorted s" "set s = set (samples ls)"
    using assms(3) by (simp_all add: s_def samples_size_def)
  have ne: "s \<noteq> []" using s(3) assms(2) by (metis set_empty)
  have lt: "i p < length s" if "0 \<le> p" "p \<le> 1" for p
    unfolding i_def using assms(1) ne s(1) that by (rule quantile_index)
  have q: "quantile fmul s p = Inr (s ! i p)" if "0 \<le> p" "p \<le> 1" for p
    using lt [OF that] by (simp add: quantile_def i_def)
  have mono: "s ! i p \<le> s ! i q" if "0 \<le> p" "p \<le> q" "q \<le> 1" for p q
    using quantile_mono [OF assms(1) that(2)] lt [of q] that s(2) by (auto simp: i_def intro!: sorted_nth_mono)
  have top: "x \<le> last s" if "x \<in> set s" for x
  proof -
    obtain j where j: "j < length s" "x = s ! j" using \<open>x \<in> set s\<close> by (auto simp: in_set_conv_nth)
    then show ?thesis using ne s(2) by (auto simp: last_conv_nth intro!: sorted_nth_mono)
  qed
  have r: "summarize fmul mean_of ls = Inr \<lparr>mean_ns = mean_of s, p50_ns = s ! i 0.50, p95_ns = s ! i 0.95, p99_ns = s ! i 0.99,
      p999_ns = s ! i 0.999, max_ns = last s\<rparr>"
    using assms(2) q by (simp add: summarize_def s_def [symmetric] Let_def)
  have "s ! i 0.999 \<le> last s" using lt [of "0.999"] by (intro top nth_mem) simp
  then show ?thesis
    unfolding r using mono [of "0.50" "0.95"] mono [of "0.95" "0.99"] mono [of "0.99" "0.999"] lt ne s(3) top
    by (auto simp: nth_mem)
qed

theorem summary_ordered_witness:
  "\<exists>r. summarize (\<lambda>p k. p * real k) (\<lambda>_. Fin 0) (samples_add (samples_add samples_init 9) 4) = Inr r \<and> p50_ns r \<le> max_ns r"
proof -
  have "fmul_ok (\<lambda>p k. p * real k)"
    by (auto simp: fmul_ok_def mult_left_le_one_le mult_right_mono)
  from summary_ordered [OF this, of "samples_add (samples_add samples_init 9) 4" "\<lambda>_. Fin 0"] show ?thesis
    by (auto simp: samples_add_def samples_init_def samples_size_def)
qed

end
